(* ===== verification/Prelude.thy ===== *)
theory Prelude
  imports Main "HOL-Library.Word"
begin

text \<open>
  Shared vocabulary of the development: the machine types of the C++ sources, C strings and
  fixed-size character arrays, the collections of simplification rules the component theories
  fill, and the generic lemmas on lists, options and words that several components use.
\<close>

unbundle bit_operations_syntax

section \<open>Machine types\<close>

text \<open>
  A \<open>uint8_t\<close> or \<open>char\<close> is a \<open>byte\<close>; a \<open>const char*\<close> is the list of its bytes up to, and without,
  the terminating NUL; a \<open>char[N]\<close> member of a wire structure is the list of all its \<open>N\<close> bytes.
  Sizes (\<open>size_t\<close>) are \<open>nat\<close> where the code cannot wrap and \<open>u64\<close> where it can.
\<close>

type_synonym byte = "8 word"
type_synonym u16 = "16 word"
type_synonym u32 = "32 word"
type_synonym u64 = "64 word"
type_synonym bytes = "byte list"

named_theorems wire_simps \<open>equations of the OSC wire codec\<close>
named_theorems inv_intros \<open>preservation of the component invariants\<close>

section \<open>C strings\<close>

text \<open>The literal \<open>''abc''\<close> of the source as bytes.\<close>

definition str :: "string \<Rightarrow> bytes" where
  "str s = map (\<lambda>c. word_of_nat (of_char c)) s"

text \<open>The C string held by a character array: its bytes before the first NUL.\<close>

definition cstr :: "bytes \<Rightarrow> bytes" where
  "cstr buf = takeWhile (\<lambda>b. b \<noteq> 0) buf"

text \<open>A list of bytes that is the content of a C string.\<close>

definition is_cstr :: "bytes \<Rightarrow> bool" where
  "is_cstr s \<longleftrightarrow> 0 \<notin> set s"

text \<open>
  The bounded copy loop used all over the sources,
  \<open>for (; n < size - 1 && src[n]; ++n) dst[n] = src[n]; dst[n] = 0\<close>: the C string that the
  destination of \<open>size\<close> bytes holds afterwards.
\<close>

definition copy_str :: "nat \<Rightarrow> bytes \<Rightarrow> bytes" where
  "copy_str n src = take (n - 1) (cstr src)"

lemma is_cstr_Nil [simp]: "is_cstr []"
  by (simp add: is_cstr_def)

lemma is_cstr_append [simp]: "is_cstr (s @ t) \<longleftrightarrow> is_cstr s \<and> is_cstr t"
  by (auto simp: is_cstr_def)

lemma is_cstr_cstr [simp, intro]: "is_cstr (cstr s)"
  by (auto simp: is_cstr_def cstr_def dest: set_takeWhileD)

lemma cstr_id [simp]: "is_cstr s \<Longrightarrow> cstr s = s"
  by (auto simp: is_cstr_def cstr_def takeWhile_eq_all_conv)

lemma is_cstr_take [intro]: "is_cstr s \<Longrightarrow> is_cstr (take n s)"
  by (auto simp: is_cstr_def dest: in_set_takeD)

lemma is_cstr_copy_str [simp, intro]: "is_cstr (copy_str n s)"
  by (auto simp: copy_str_def)

lemma length_copy_str: "length (copy_str n s) \<le> n - 1"
  by (simp add: copy_str_def)

lemma copy_str_id: "is_cstr s \<Longrightarrow> length s < n \<Longrightarrow> copy_str n s = s"
  by (simp add: copy_str_def)

lemma cstr_terminated: "is_cstr s \<Longrightarrow> cstr (s @ 0 # rest) = s"
  by (auto simp: is_cstr_def cstr_def takeWhile_append)

lemma length_cstr_le: "length (cstr s) \<le> length s"
  by (simp add: cstr_def length_takeWhile_le)

lemma cstr_full: "length (cstr s) = length s \<longleftrightarrow> is_cstr s"
  by (metis cstr_def cstr_id is_cstr_cstr takeWhile_eq_take take_all_iff order_refl)

lemma take_length_cstr [simp]: "take (length (cstr s)) s = cstr s"
  unfolding cstr_def by (metis takeWhile_eq_take)

lemma str_inj: "str s = str t \<longleftrightarrow> s = t"
proof -
  have "inj (\<lambda>c :: char. word_of_nat (of_char c) :: byte)"
  proof (rule injI)
    fix c d :: char
    assume "word_of_nat (of_char c) = (word_of_nat (of_char d) :: byte)"
    then have "unat (word_of_nat (of_char c) :: byte) = unat (word_of_nat (of_char d) :: byte)" by simp
    then show "c = d" by (simp add: unat_of_nat)
  qed
  then show ?thesis unfolding str_def by (simp add: inj_map_eq_map)
qed

section \<open>Decimal numbers\<close>

text \<open>The digits \<open>printf\<close> writes for \<open>%u\<close>, \<open>%lu\<close> and \<open>%llu\<close>.\<close>

fun dec :: "nat \<Rightarrow> bytes" where
  "dec n = (if n < 10 then [48 + word_of_nat n] else dec (n div 10) @ [48 + word_of_nat (n mod 10)])"

declare dec.simps [simp del]

lemma dec_digits: "b \<in> set (dec n) \<Longrightarrow> \<exists>d < 10. b = 48 + word_of_nat d"
proof (induction n rule: dec.induct)
  case (1 n)
  obtain d where d: "n mod 10 = d" "d < 10" by simp
  with 1 show ?case by (subst (asm) (2) dec.simps) (auto split: if_splits)
qed

lemma length_dec: "n < 10 ^ Suc k \<Longrightarrow> length (dec n) \<le> Suc k"
proof (induction k arbitrary: n)
  case (Suc k)
  show ?case
  proof (cases "n < 10")
    case False
    have "n div 10 < 10 ^ Suc k" using Suc.prems by (simp add: div_less_iff_less_mult)
    then show ?thesis using Suc.IH [of "n div 10"] False by (simp add: dec.simps [of n])
  qed (simp add: dec.simps)
qed (simp add: dec.simps)

text \<open>Reading a decimal number back.\<close>

definition dec_value :: "bytes \<Rightarrow> nat" where
  "dec_value s = foldl (\<lambda>a b. a * 10 + (unat b - 48)) 0 s"

lemma digit_value: "d < 10 \<Longrightarrow> unat (48 + word_of_nat d :: byte) - 48 = d"
proof -
  assume "d < 10"
  then have "d \<in> {0, 1, 2, 3, 4, 5, 6, 7, 8, 9}" by (simp, arith)
  then show ?thesis by (elim insertE emptyE) simp_all
qed

lemma dec_value_dec: "dec_value (dec n) = n"
proof (induction n rule: dec.induct)
  case (1 n)
  obtain d where d: "n mod 10 = d" "d < 10" by simp
  show ?case
  proof (cases "n < 10")
    case True
    then show ?thesis by (simp add: dec.simps [of n] dec_value_def digit_value)
  next
    case False
    then have "dec_value (dec n) = n div 10 * 10 + d" using 1 d by (simp add: dec.simps [of n] dec_value_def digit_value)
    then show ?thesis using d(1) by (metis div_mult_mod_eq)
  qed
qed

lemma dec_inj: "dec a = dec b \<longleftrightarrow> a = b"
  by (metis dec_value_dec)

section \<open>Words\<close>

lemma unat_byte: "unat (b :: byte) < 256"
  using unsigned_less [of b] by simp

lemma unat_u16: "unat (w :: u16) < 65536"
  using unsigned_less [of w] by simp

lemma unat_word_of_nat: "n < 2 ^ LENGTH('a) \<Longrightarrow> unat (word_of_nat n :: 'a::len word) = n"
  by (simp add: unsigned_of_nat take_bit_nat_eq_self)

lemma word_of_nat_inj:
  "word_of_nat m = (word_of_nat n :: 'a::len word) \<Longrightarrow> m < 2 ^ LENGTH('a) \<Longrightarrow> n < 2 ^ LENGTH('a) \<Longrightarrow> m = n"
  by (metis unat_word_of_nat)

section \<open>Lists\<close>

lemma take_drop_slice: "take n (drop m xs @ ys) = take n (drop m xs) @ take (n - (length xs - m)) ys"
  by simp

lemma funpow_snoc: "((\<lambda>xs. xs @ [x]) ^^ n) xs = xs @ replicate n x"
  by (induction n) (simp_all add: replicate_append_same)

lemma drop_replicate_append [simp]: "drop n (replicate n x @ ys) = ys"
  by simp

text \<open>
  \<open>upd_list i f xs\<close>: apply \<open>f\<close> to element \<open>i\<close> in place (an array element updated through a
  reference).
\<close>

definition upd_list :: "nat \<Rightarrow> ('a \<Rightarrow> 'a) \<Rightarrow> 'a list \<Rightarrow> 'a list" where
  "upd_list i f xs = xs[i := f (xs ! i)]"

lemma length_upd_list [simp]: "length (upd_list i f xs) = length xs"
  by (simp add: upd_list_def)

lemma nth_upd_list: "j < length xs \<Longrightarrow> upd_list i f xs ! j = (if j = i then f (xs ! j) else xs ! j)"
  by (simp add: upd_list_def nth_list_update)

text \<open>The linear searches of the sources: the index of the first element that satisfies \<open>P\<close>.\<close>

fun first_index :: "('a \<Rightarrow> bool) \<Rightarrow> 'a list \<Rightarrow> nat option" where
  "first_index P [] = None"
| "first_index P (x # xs) = (if P x then Some 0 else map_option Suc (first_index P xs))"

lemma first_index_None [simp]: "first_index P xs = None \<longleftrightarrow> (\<forall>x \<in> set xs. \<not> P x)"
  by (induction xs) auto

lemma first_index_Some:
  "first_index P xs = Some i \<longleftrightarrow> i < length xs \<and> P (xs ! i) \<and> (\<forall>j < i. \<not> P (xs ! j))"
proof (induction xs arbitrary: i)
  case (Cons x xs)
  then show ?case by (cases i) (auto simp: less_Suc_eq_0_disj)
qed simp

end
