(* ===== verification/OscWire.thy ===== *)
theory OscWire
  imports Prelude
begin

text \<open>
  The OSC 1.0 codec of \<open>modules/oscrouter/src/driver/OscWire.h\<close>: the bounded packet writer
  \<open>OscPacket<N>\<close>, the bounds-checked reader \<open>OscReader\<close>, \<open>OscParseMessage\<close> and the recursive bundle
  dispatcher \<open>OscDispatch\<close>. The lemmas show that padding is exact below 4 GiB, that the writer
  succeeds exactly when the message fits, that what it writes parses back, that the reader never
  runs past the buffer and that dispatch visits every message of a nested bundle in order.
\<close>

section \<open>Padding\<close>

text \<open>
  \<open>(n + 3u) & ~3u\<close>: the mask \<open>~3u\<close> is a 32-bit value, zero-extended to the 64-bit \<open>size_t\<close>, so the
  high half of the sum is cleared as well.
\<close>

definition OscPad4 :: "u64 \<Rightarrow> u64" where
  "OscPad4 n = (n + 3) AND 0xFFFFFFFC"

text \<open>The padded size as the \<open>nat\<close> the buffers are measured with.\<close>

definition pad4 :: "nat \<Rightarrow> nat" where
  "pad4 n = unat (OscPad4 (word_of_nat n))"

section \<open>Writer\<close>

record osc_packet =
  pk_buf :: bytes  \<comment> \<open>\<open>buf_[0 .. pos_)\<close>; \<open>pos_\<close> is its length\<close>
  pk_ok :: bool

definition OscPacket :: osc_packet where
  "OscPacket = \<lparr>pk_buf = [], pk_ok = True\<rparr>"

definition AppendByte :: "nat \<Rightarrow> byte \<Rightarrow> osc_packet \<Rightarrow> osc_packet" where
  "AppendByte N b p =
     (if \<not> pk_ok p then p
      else if length (pk_buf p) \<ge> N then p\<lparr>pk_ok := False\<rparr>
      else p\<lparr>pk_buf := pk_buf p @ [b]\<rparr>)"

definition Append :: "nat \<Rightarrow> bytes \<Rightarrow> osc_packet \<Rightarrow> osc_packet" where
  "Append N src p =
     (if \<not> pk_ok p then p
      else if length (pk_buf p) + length src > N then p\<lparr>pk_ok := False\<rparr>
      else p\<lparr>pk_buf := pk_buf p @ src\<rparr>)"

text \<open>\<open>int32_t\<close> values are 32-bit words; the shifts of the source are arithmetic.\<close>

definition be32 :: "u32 \<Rightarrow> bytes" where
  "be32 v = [ucast (signed_drop_bit 24 v), ucast (signed_drop_bit 16 v),
             ucast (signed_drop_bit 8 v), ucast v]"

definition WriteInt32 :: "nat \<Rightarrow> u32 \<Rightarrow> osc_packet \<Rightarrow> osc_packet" where
  "WriteInt32 N v p = Append N (be32 v) p"

text \<open>A \<open>float\<close> is its IEEE bit pattern: the code copies the bits and never computes with them.\<close>

definition WriteFloat :: "nat \<Rightarrow> u32 \<Rightarrow> osc_packet \<Rightarrow> osc_packet" where
  "WriteFloat N bits p = WriteInt32 N bits p"

text \<open>The loop \<open>for (size_t i = len; i < padded; ++i) AppendByte(0)\<close>.\<close>

definition AppendPad :: "nat \<Rightarrow> nat \<Rightarrow> osc_packet \<Rightarrow> osc_packet" where
  "AppendPad N len p = (AppendByte N 0 ^^ (pad4 len - len)) p"

definition WriteStr :: "nat \<Rightarrow> bytes \<Rightarrow> osc_packet \<Rightarrow> osc_packet" where
  "WriteStr N s p = AppendPad N (length s + 1) (Append N (s @ [0]) p)"

definition WriteBlob :: "nat \<Rightarrow> bytes \<Rightarrow> osc_packet \<Rightarrow> osc_packet" where
  "WriteBlob N data p =
     AppendPad N (length data) (Append N data (WriteInt32 N (word_of_nat (length data)) p))"

definition WriteRawArgs :: "nat \<Rightarrow> bytes \<Rightarrow> osc_packet \<Rightarrow> osc_packet" where
  "WriteRawArgs N data p = Append N data p"

definition Begin :: "nat \<Rightarrow> bytes \<Rightarrow> bytes \<Rightarrow> osc_packet \<Rightarrow> osc_packet" where
  "Begin N address typetag p = WriteStr N typetag (WriteStr N address (p\<lparr>pk_buf := [], pk_ok := True\<rparr>))"

section \<open>Reader\<close>

text \<open>\<open>rd_data\<close> is the memory from \<open>data_\<close> on, which does not end with the \<open>size_\<close> bytes of the buffer.\<close>

record osc_reader =
  rd_data :: bytes
  rd_size :: nat
  rd_pos :: nat
  rd_valid :: bool

definition OscReader :: "bytes \<Rightarrow> nat \<Rightarrow> osc_reader" where
  "OscReader data n = \<lparr>rd_data = data, rd_size = n, rd_pos = 0, rd_valid = (n > 0)\<rparr>"

definition ReadStr :: "osc_reader \<Rightarrow> bytes option \<times> osc_reader" where
  "ReadStr r =
     (if \<not> rd_valid r then (None, r)
      else
        let remaining = rd_size r - rd_pos r;
            len = length (cstr (take remaining (drop (rd_pos r) (rd_data r))))
        in if len = remaining then (None, r\<lparr>rd_valid := False\<rparr>)
           else
             let advance = pad4 (len + 1)
             in if rd_pos r + advance > rd_size r then (None, r\<lparr>rd_valid := False\<rparr>)
                else (Some (take len (drop (rd_pos r) (rd_data r))), r\<lparr>rd_pos := rd_pos r + advance\<rparr>))"

definition ReadBytes :: "nat \<Rightarrow> osc_reader \<Rightarrow> bytes option \<times> osc_reader" where
  "ReadBytes n r =
     (if \<not> rd_valid r then (None, r)
      else if rd_pos r + n > rd_size r then (None, r\<lparr>rd_valid := False\<rparr>)
      else (Some (take n (drop (rd_pos r) (rd_data r))), r\<lparr>rd_pos := rd_pos r + n\<rparr>))"

definition from_be32 :: "bytes \<Rightarrow> u32" where
  "from_be32 b = push_bit 24 (ucast (b ! 0)) OR push_bit 16 (ucast (b ! 1)) OR
                 push_bit 8 (ucast (b ! 2)) OR ucast (b ! 3)"

definition ReadInt32 :: "osc_reader \<Rightarrow> u32 \<times> osc_reader" where
  "ReadInt32 r = (case ReadBytes 4 r of (None, r') \<Rightarrow> (0, r') | (Some b, r') \<Rightarrow> (from_be32 b, r'))"

definition ReadFloat :: "osc_reader \<Rightarrow> u32 \<times> osc_reader" where
  "ReadFloat r = ReadInt32 r"

text \<open>The blob bytes behind the returned pointer, the value of \<open>len_out\<close>, and the reader.\<close>

definition ReadBlob :: "osc_reader \<Rightarrow> bytes option \<times> u32 \<times> osc_reader" where
  "ReadBlob r =
     (let (raw, r1) = ReadInt32 r
      in if \<not> rd_valid r1 \<or> sint raw < 0 then (None, 0, r1\<lparr>rd_valid := False\<rparr>)
         else
           let len = unat raw
           in if rd_pos r1 + len > rd_size r1 then (None, raw, r1\<lparr>rd_valid := False\<rparr>)
              else
                let data = take len (drop (rd_pos r1) (rd_data r1));
                    r2 = r1\<lparr>rd_pos := rd_pos r1 + pad4 len\<rparr>
                in if rd_pos r2 > rd_size r2 then (None, raw, r2\<lparr>rd_valid := False\<rparr>)
                   else (Some data, raw, r2))"

definition AtEnd :: "osc_reader \<Rightarrow> bool" where
  "AtEnd r \<longleftrightarrow> rd_pos r \<ge> rd_size r"

text \<open>A \<open>size_t\<close> difference: it wraps when a failed \<open>ReadBlob\<close> has left \<open>pos_\<close> behind the end.\<close>

definition Remaining :: "osc_reader \<Rightarrow> u64" where
  "Remaining r = word_of_nat (rd_size r) - word_of_nat (rd_pos r)"

section \<open>Messages and bundles\<close>

record osc_message =
  msg_address :: "bytes option"
  msg_typetag :: "bytes option"
  msg_args :: bytes
  msg_valid :: bool

definition OscParseMessage :: "bytes \<Rightarrow> osc_message" where
  "OscParseMessage data =
     (let (addr, r1) = ReadStr (OscReader data (length data));
          (tag, r2) = ReadStr r1
      in if \<not> rd_valid r2 \<or> addr = None \<or> tag = None
         then \<lparr>msg_address = addr, msg_typetag = tag, msg_args = [], msg_valid = False\<rparr>
         else \<lparr>msg_address = addr, msg_typetag = tag, msg_args = drop (rd_pos r2) data, msg_valid = True\<rparr>)"

text \<open>\<open>"#bundle"\<close> with its NUL, 8 bytes.\<close>

definition kOscBundlePrefix :: bytes where
  "kOscBundlePrefix = str ''#bundle'' @ [0]"

type_synonym osc_call = "bytes \<times> bytes \<times> bytes"

text \<open>
  \<open>OscDispatch\<close> gives the sequence of callback invocations (address, typetag, argument bytes);
  \<open>OscBundleLoop\<close> is its \<open>while (pos + 4 <= size)\<close> loop, run on the bytes from \<open>pos\<close> on.
\<close>

function OscDispatch :: "bytes \<Rightarrow> osc_call list"
  and OscBundleLoop :: "bytes \<Rightarrow> osc_call list" where
  "OscDispatch data =
     (if length data < length kOscBundlePrefix then []
      else if take (length kOscBundlePrefix) data = kOscBundlePrefix
      then (if length data < 16 then [] else OscBundleLoop (drop 16 data))
      else
        let msg = OscParseMessage data
        in if msg_valid msg then [(the (msg_address msg), the (msg_typetag msg), msg_args msg)] else [])"
| "OscBundleLoop rest =
     (if length rest < 4 then []
      else
        let len = unat (fst (ReadInt32 (OscReader rest 4)));
            body = drop 4 rest
        in if len > length body then []
           else OscDispatch (take len body) @ OscBundleLoop (drop len body))"
  by pat_completeness auto
termination
  by (relation "measure (\<lambda>x. case x of Inl data \<Rightarrow> length data | Inr rest \<Rightarrow> length rest)") auto

declare OscDispatch.simps [simp del] OscBundleLoop.simps [simp del]

section \<open>Padding and big-endian integers\<close>


lemma and_mask_nat: "(x::nat) AND 0xFFFFFFFC = 4 * (x div 4 mod 2 ^ 30)"
proof -
  have m: "(0xFFFFFFFC::nat) = push_bit 2 (mask 30)"
    by (simp add: push_bit_eq_mult mask_eq_exp_minus_1)
  have "x AND push_bit 2 (mask 30) = push_bit 2 (take_bit 30 (drop_bit 2 x))"
  proof (rule bit_eqI)
    fix n
    show "bit (x AND push_bit 2 (mask 30)) n = bit (push_bit 2 (take_bit 30 (drop_bit 2 x))) n"
      by (cases "2 \<le> n") (auto simp: bit_simps dest!: le_Suc_ex)
  qed
  also have "\<dots> = 4 * (x div 4 mod 2 ^ 30)"
    by (simp add: push_bit_eq_mult take_bit_eq_mod drop_bit_eq_div)
  finally show ?thesis by (simp only: m)
qed

lemma unat_OscPad4: "unat (OscPad4 n) = 4 * (unat (n + 3) div 4 mod 2 ^ 30)"
  by (simp add: OscPad4_def unsigned_and_eq and_mask_nat)

lemma pad4_eq: "n + 3 < 2 ^ 32 \<Longrightarrow> pad4 n = 4 * ((n + 3) div 4)"
proof -
  assume a: "n + 3 < 2 ^ 32"
  have "word_of_nat n + 3 = (word_of_nat (n + 3) :: u64)" by simp
  then have "unat (word_of_nat n + 3 :: u64) = n + 3"
    using a by (simp only: unsigned_of_nat take_bit_eq_mod) simp
  moreover have "(n + 3) div 4 < 2 ^ 30" using a by simp
  ultimately show ?thesis by (simp add: pad4_def unat_OscPad4)
qed

lemma from_be32_be32: "from_be32 (be32 v) = v"
proof (rule bit_word_eqI)
  fix n assume "n < LENGTH(32)"
  then have "n < 8 \<or> 8 \<le> n \<and> n < 16 \<or> 16 \<le> n \<and> n < 24 \<or> 24 \<le> n \<and> n < 32" by auto
  then show "bit (from_be32 (be32 v)) n = bit v n"
    by (elim disjE) (auto simp: from_be32_def be32_def bit_simps min_def)
qed

lemma length_be32 [simp]: "length (be32 v) = 4"
  by (simp add: be32_def)

lemma pad4_bounds:
  assumes "n + 3 < 2 ^ 32"
  shows "n \<le> pad4 n" and "pad4 n < n + 4" and "pad4 n mod 4 = 0"
  using assms by (simp_all add: pad4_eq)

section \<open>The encoding as a function\<close>

definition osc_str :: "bytes \<Rightarrow> bytes" where
  "osc_str s = s @ 0 # replicate (pad4 (length s + 1) - (length s + 1)) 0"

definition osc_msg :: "bytes \<Rightarrow> bytes \<Rightarrow> bytes \<Rightarrow> bytes" where
  "osc_msg a t args = osc_str a @ osc_str t @ args"

lemma length_osc_str: "length s + 4 < 2 ^ 32 \<Longrightarrow> length (osc_str s) = pad4 (length s + 1)"
  using pad4_bounds(1) [of "length s + 1"] by (simp add: osc_str_def)

lemma osc_str_ge4: "length s + 4 < 2 ^ 32 \<Longrightarrow> 4 \<le> length (osc_str s)"
  by (simp add: length_osc_str pad4_eq)

subsection \<open>Writer\<close>

lemma Append_ok: "pk_ok (Append N src p) \<longleftrightarrow> pk_ok p \<and> length (pk_buf p) + length src \<le> N"
  by (simp add: Append_def)

lemma Append_buf: "pk_ok (Append N src p) \<Longrightarrow> pk_buf (Append N src p) = pk_buf p @ src"
  by (auto simp: Append_def split: if_splits)

lemma AppendByte_Append: "AppendByte N b = Append N [b]"
  by (auto simp: AppendByte_def Append_def)

lemma Append_funpow:
  "pk_ok ((Append N [b] ^^ k) p) = (pk_ok p \<and> (k = 0 \<or> length (pk_buf p) + k \<le> N)) \<and>
   (pk_ok ((Append N [b] ^^ k) p) \<longrightarrow> pk_buf ((Append N [b] ^^ k) p) = pk_buf p @ replicate k b)"
  by (induction k) (auto simp: Append_ok Append_buf replicate_append_same)

lemma AppendPad_ok:
  "pk_ok (AppendPad N n p) \<longleftrightarrow> pk_ok p \<and> (pad4 n \<le> n \<or> length (pk_buf p) + (pad4 n - n) \<le> N)"
  unfolding AppendPad_def AppendByte_Append using Append_funpow [where b = 0 and k = "pad4 n - n"] by auto

lemma AppendPad_buf:
  "pk_ok (AppendPad N n p) \<Longrightarrow> pk_buf (AppendPad N n p) = pk_buf p @ replicate (pad4 n - n) 0"
  unfolding AppendPad_def AppendByte_Append using Append_funpow [where b = 0 and k = "pad4 n - n"] by simp

lemma WriteStr_ok:
  "pk_ok (WriteStr N s p) \<longleftrightarrow> pk_ok p \<and> length (pk_buf p) + length (osc_str s) \<le> N"
  by (auto simp: WriteStr_def AppendPad_ok Append_ok Append_buf osc_str_def)

lemma WriteStr_buf:
  "pk_ok (WriteStr N s p) \<Longrightarrow> pk_buf (WriteStr N s p) = pk_buf p @ osc_str s"
  by (auto simp: WriteStr_def AppendPad_buf AppendPad_ok Append_ok Append_buf osc_str_def)

lemma Begin_ok:
  "pk_ok (Begin N a t p) \<longleftrightarrow> length (osc_str a) + length (osc_str t) \<le> N"
  by (auto simp: Begin_def WriteStr_ok WriteStr_buf)

lemma Begin_buf: "pk_ok (Begin N a t p) \<Longrightarrow> pk_buf (Begin N a t p) = osc_str a @ osc_str t"
  by (auto simp: Begin_def WriteStr_ok WriteStr_buf)

subsection \<open>Reader\<close>

lemma cstr_osc_str: "is_cstr s \<Longrightarrow> cstr (osc_str s @ rest) = s"
  by (simp add: osc_str_def cstr_terminated)

lemma ReadStr_osc_str:
  assumes "is_cstr s" and "length s + 4 < 2 ^ 32"
    and "rd_valid r" and "drop (rd_pos r) (rd_data r) = osc_str s @ rest"
    and "rd_pos r \<le> rd_size r" "rd_size r = length (rd_data r)"
  shows "ReadStr r = (Some s, r\<lparr>rd_pos := rd_pos r + length (osc_str s)\<rparr>)"
proof -
  have len: "rd_size r = rd_pos r + length (osc_str s) + length rest"
    using assms(4-6) by (metis add.assoc le_add_diff_inverse length_append length_drop)
  moreover have "take (length s) (osc_str s @ rest) = s" by (simp add: osc_str_def)
  moreover have "length s < length (osc_str s)" by (simp add: osc_str_def)
  ultimately show ?thesis
    using assms by (simp add: ReadStr_def cstr_osc_str length_osc_str)
qed


lemma OscParseMessage_osc_msg:
  assumes "is_cstr a" "is_cstr t" "length a + 4 < 2 ^ 32" "length t + 4 < 2 ^ 32"
  shows "OscParseMessage (osc_msg a t args) =
     \<lparr>msg_address = Some a, msg_typetag = Some t, msg_args = args, msg_valid = True\<rparr>"
proof -
  let ?r = "OscReader (osc_msg a t args) (length (osc_msg a t args))"
  have "0 < length (osc_str a)" by (simp add: osc_str_def)
  then have 1: "ReadStr ?r = (Some a, ?r\<lparr>rd_pos := length (osc_str a)\<rparr>)"
    using assms ReadStr_osc_str [of a ?r "osc_str t @ args"] by (simp add: OscReader_def osc_msg_def)
  let ?r1 = "?r\<lparr>rd_pos := length (osc_str a)\<rparr>"
  have 2: "ReadStr ?r1 = (Some t, ?r1\<lparr>rd_pos := length (osc_str a) + length (osc_str t)\<rparr>)"
    using assms \<open>0 < length (osc_str a)\<close> ReadStr_osc_str [of t ?r1 args]
    by (simp add: OscReader_def osc_msg_def)
  show ?thesis
    using \<open>0 < length (osc_str a)\<close> by (simp add: OscParseMessage_def 1 2) (simp add: OscReader_def osc_msg_def)
qed

section \<open>Bundles\<close>

datatype osc_elem = Message bytes bytes bytes | Bundle bytes "osc_elem list"

fun osc_enc :: "osc_elem \<Rightarrow> bytes" where
  "osc_enc (Message a t args) = osc_msg a t args"
| "osc_enc (Bundle tt es) =
     kOscBundlePrefix @ tt @ concat (map (\<lambda>e. be32 (word_of_nat (length (osc_enc e))) @ osc_enc e) es)"

fun osc_wf :: "osc_elem \<Rightarrow> bool" where
  "osc_wf (Message a t args) \<longleftrightarrow>
     is_cstr a \<and> is_cstr t \<and> length a + 4 < 2 ^ 32 \<and> length t + 4 < 2 ^ 32 \<and> a \<noteq> str ''#bundle''"
| "osc_wf (Bundle tt es) \<longleftrightarrow>
     length tt = 8 \<and> (\<forall>e \<in> set es. osc_wf e \<and> length (osc_enc e) < 2 ^ 32)"

fun osc_calls :: "osc_elem \<Rightarrow> osc_call list" where
  "osc_calls (Message a t args) = [(a, t, args)]"
| "osc_calls (Bundle tt es) = concat (map osc_calls es)"

lemma length_prefix [simp]: "length kOscBundlePrefix = 8"
  by (simp add: kOscBundlePrefix_def str_def)

lemma cstr_prefix: "cstr (kOscBundlePrefix @ rest) = str ''#bundle''"
  unfolding kOscBundlePrefix_def
  by (simp add: cstr_def str_def)

lemma ReadInt32_be32: "fst (ReadInt32 (OscReader (be32 v @ rest) 4)) = v"
  by (simp add: ReadInt32_def ReadBytes_def OscReader_def from_be32_be32)

lemma OscDispatch_msg:
  assumes "osc_wf (Message a t args)"
  shows "OscDispatch (osc_msg a t args) = [(a, t, args)]"
proof -
  have len: "8 \<le> length (osc_msg a t args)"
    using assms osc_str_ge4 [of a] osc_str_ge4 [of t] by (simp add: osc_msg_def)
  have "take 8 (osc_msg a t args) \<noteq> kOscBundlePrefix"
  proof
    assume "take 8 (osc_msg a t args) = kOscBundlePrefix"
    then have "cstr (osc_msg a t args) = str ''#bundle''"
      using cstr_prefix by (metis append_take_drop_id)
    moreover have "cstr (osc_msg a t args) = a"
      using assms by (simp add: osc_msg_def cstr_osc_str)
    ultimately show False using assms by simp
  qed
  with len assms show ?thesis
    by (simp add: OscDispatch.simps OscParseMessage_osc_msg)
qed

lemma OscBundleLoop_enc:
  assumes "\<And>e. e \<in> set es \<Longrightarrow> OscDispatch (osc_enc e) = osc_calls e"
    and "\<And>e. e \<in> set es \<Longrightarrow> length (osc_enc e) < 2 ^ 32"
  shows "OscBundleLoop (concat (map (\<lambda>e. be32 (word_of_nat (length (osc_enc e))) @ osc_enc e) es)) =
     concat (map osc_calls es)"
  using assms
proof (induction es)
  case Nil
  then show ?case by (simp add: OscBundleLoop.simps)
next
  case (Cons e es)
  have "unat (word_of_nat (length (osc_enc e)) :: u32) = length (osc_enc e)"
    using Cons.prems(2) [of e] by (simp add: unsigned_of_nat take_bit_eq_mod)
  with Cons show ?case
    by (subst OscBundleLoop.simps) (simp add: ReadInt32_be32 Let_def)
qed

lemma OscDispatch_enc: "osc_wf e \<Longrightarrow> OscDispatch (osc_enc e) = osc_calls e"
proof (induction e)
  case (Message a t args)
  then show ?case using OscDispatch_msg by simp
next
  case (Bundle tt es)
  have "OscDispatch (osc_enc (Bundle tt es)) =
      OscBundleLoop (concat (map (\<lambda>e. be32 (word_of_nat (length (osc_enc e))) @ osc_enc e) es))"
    using Bundle.prems by (subst OscDispatch.simps) simp
  also have "\<dots> = concat (map osc_calls es)"
    using Bundle by (intro OscBundleLoop_enc) auto
  finally show ?case by simp
qed


section \<open>Reader safety\<close>

definition rd_inv :: "osc_reader \<Rightarrow> bool" where
  "rd_inv r \<longleftrightarrow> (rd_valid r \<longrightarrow> rd_pos r \<le> rd_size r)"

lemma rd_inv_new: "rd_inv (OscReader data n)"
  by (simp add: rd_inv_def OscReader_def)

definition rd_le :: "osc_reader \<Rightarrow> osc_reader \<Rightarrow> bool" where
  "rd_le r r' \<longleftrightarrow> rd_data r' = rd_data r \<and> rd_size r' = rd_size r \<and> rd_pos r \<le> rd_pos r' \<and> (rd_valid r' \<longrightarrow> rd_valid r) \<and>
     (rd_inv r \<longrightarrow> rd_inv r')"

lemma rd_le_refl: "rd_le r r"
  by (simp add: rd_le_def)

lemma rd_le_trans: "rd_le r r' \<Longrightarrow> rd_le r' r'' \<Longrightarrow> rd_le r r''"
  by (auto simp: rd_le_def)

lemma ReadStr_le: "rd_le r (snd (ReadStr r))"
  by (auto simp: ReadStr_def rd_le_def rd_inv_def Let_def)

lemma ReadBytes_le: "rd_le r (snd (ReadBytes n r))"
  by (auto simp: ReadBytes_def rd_le_def rd_inv_def)

lemma ReadInt32_le: "rd_le r (snd (ReadInt32 r))"
  using ReadBytes_le [of r 4] by (auto simp: ReadInt32_def split: prod.splits option.splits)

lemma ReadBlob_le: "rd_le r (snd (snd (ReadBlob r)))"
  using ReadInt32_le [of r]
  by (auto simp: ReadBlob_def rd_le_def rd_inv_def Let_def split: prod.splits)

text \<open>Any sequence of reads.\<close>

datatype rd_op = RStr | RInt | RFloat | RBlob

datatype rd_value = VStr "bytes option" | VInt u32 | VBlob "bytes option" u32

fun rd_exec :: "rd_op \<Rightarrow> osc_reader \<Rightarrow> rd_value \<times> osc_reader" where
  "rd_exec RStr r = map_prod VStr id (ReadStr r)"
| "rd_exec RInt r = map_prod VInt id (ReadInt32 r)"
| "rd_exec RFloat r = map_prod VInt id (ReadFloat r)"
| "rd_exec RBlob r = (let (d, len, r') = ReadBlob r in (VBlob d len, r'))"

fun rd_null :: "rd_op \<Rightarrow> rd_value" where
  "rd_null RStr = VStr None"
| "rd_null RInt = VInt 0"
| "rd_null RFloat = VInt 0"
| "rd_null RBlob = VBlob None 0"

fun rd_run :: "rd_op list \<Rightarrow> osc_reader \<Rightarrow> rd_value list \<times> osc_reader" where
  "rd_run [] r = ([], r)"
| "rd_run (op # ops) r =
     (let (v, r1) = rd_exec op r; (vs, r2) = rd_run ops r1 in (v # vs, r2))"

text \<open>Readers that differ at most in the memory behind their buffers.\<close>

definition same_buffer :: "osc_reader \<Rightarrow> osc_reader \<Rightarrow> bool" where
  "same_buffer r r' \<longleftrightarrow> rd_size r' = rd_size r \<and> rd_pos r' = rd_pos r \<and> rd_valid r' = rd_valid r \<and> rd_inv r \<and>
     take (rd_size r) (rd_data r') = take (rd_size r) (rd_data r)"

lemma same_bytes:
  assumes "same_buffer r r'" "k + n \<le> rd_size r"
  shows "take n (drop k (rd_data r')) = take n (drop k (rd_data r))"
proof -
  have e: "take n (drop k d) = take n (drop k (take (rd_size r) d))" for d :: bytes
    using assms(2) by (simp add: drop_take min_def)
  have "take (rd_size r) (rd_data r') = take (rd_size r) (rd_data r)" using assms(1) by (simp add: same_buffer_def)
  then show ?thesis by (subst (1 2) e) simp
qed

lemma ReadStr_same: "same_buffer r r' \<Longrightarrow> fst (ReadStr r') = fst (ReadStr r) \<and> same_buffer (snd (ReadStr r)) (snd (ReadStr r'))"
proof -
  assume s: "same_buffer r r'"
  define rest where "rest = rd_size r - rd_pos r"
  have "take rest (drop (rd_pos r) (rd_data r')) = take rest (drop (rd_pos r) (rd_data r))" if "rd_valid r"
    using s that by (intro same_bytes) (auto simp: rest_def same_buffer_def rd_inv_def)
  moreover have "take (length (cstr x)) (drop (rd_pos r) (rd_data r')) = take (length (cstr x)) (drop (rd_pos r) (rd_data r))"
    if "rd_valid r" "x = take rest (drop (rd_pos r) (rd_data r))" for x
    using s that length_cstr_le [of x] by (intro same_bytes) (auto simp: rest_def same_buffer_def rd_inv_def)
  ultimately show ?thesis using s ReadStr_le [of r]
    by (auto simp: ReadStr_def Let_def same_buffer_def rd_le_def rest_def [symmetric])
qed

lemma ReadBytes_same: "same_buffer r r' \<Longrightarrow> fst (ReadBytes n r') = fst (ReadBytes n r) \<and> same_buffer (snd (ReadBytes n r)) (snd (ReadBytes n r'))"
  using same_bytes [of r r' "rd_pos r" n] ReadBytes_le [of r n]
  by (auto simp: ReadBytes_def same_buffer_def rd_le_def)

lemma ReadInt32_same: "same_buffer r r' \<Longrightarrow> fst (ReadInt32 r') = fst (ReadInt32 r) \<and> same_buffer (snd (ReadInt32 r)) (snd (ReadInt32 r'))"
  using ReadBytes_same [of r r' 4] by (auto simp: ReadInt32_def split: prod.splits option.splits)

lemma ReadBlob_same:
  assumes "same_buffer r r'"
  shows "\<exists>d len q q'. ReadBlob r = (d, len, q) \<and> ReadBlob r' = (d, len, q') \<and> same_buffer q q'"
proof -
  obtain v q q' where i: "ReadInt32 r = (v, q)" "ReadInt32 r' = (v, q')" "same_buffer q q'"
    using ReadInt32_same [OF assms] by (metis prod.collapse)
  have "take (unat v) (drop (rd_pos q) (rd_data q')) = take (unat v) (drop (rd_pos q) (rd_data q))" if "rd_pos q + unat v \<le> rd_size q"
    using same_bytes [OF i(3) that] .
  then show ?thesis using i(3) by (auto simp: ReadBlob_def i(1,2) Let_def same_buffer_def rd_inv_def not_less)
qed

lemma rd_exec_le: "rd_le r (snd (rd_exec op r))"
  using ReadBlob_le [of r] by (cases op) (auto simp: ReadStr_le ReadInt32_le ReadFloat_def split: prod.splits)

lemma rd_exec_same: "same_buffer r r' \<Longrightarrow> fst (rd_exec op r') = fst (rd_exec op r) \<and> same_buffer (snd (rd_exec op r)) (snd (rd_exec op r'))"
  using ReadStr_same [of r r'] ReadInt32_same [of r r'] ReadBlob_same [of r r']
  by (cases op) (auto simp: ReadFloat_def)

lemma rd_run_same: "same_buffer r r' \<Longrightarrow> fst (rd_run ops r') = fst (rd_run ops r) \<and> same_buffer (snd (rd_run ops r)) (snd (rd_run ops r'))"
proof (induction ops arbitrary: r r')
  case (Cons op ops)
  show ?case using rd_exec_same [OF Cons.prems, of op] Cons.IH [of "snd (rd_exec op r)" "snd (rd_exec op r')"]
    by (auto simp: split_beta Let_def)
qed simp

lemma rd_exec_dead: "\<not> rd_valid r \<Longrightarrow> rd_exec op r = (rd_null op, r)"
  by (cases op) (auto simp: ReadStr_def ReadFloat_def ReadInt32_def ReadBytes_def ReadBlob_def)

section \<open>Blobs\<close>

definition osc_blob :: "bytes \<Rightarrow> bytes" where
  "osc_blob d = be32 (word_of_nat (length d)) @ d @ replicate (pad4 (length d) - length d) 0"

lemma WriteBlob_ok:
  "pk_ok (WriteBlob N d p) \<longleftrightarrow> pk_ok p \<and> length (pk_buf p) + length (osc_blob d) \<le> N"
  by (auto simp: WriteBlob_def WriteInt32_def AppendPad_ok Append_ok Append_buf osc_blob_def)

lemma WriteBlob_buf:
  "pk_ok (WriteBlob N d p) \<Longrightarrow> pk_buf (WriteBlob N d p) = pk_buf p @ osc_blob d"
  by (auto simp: WriteBlob_def WriteInt32_def AppendPad_buf AppendPad_ok Append_ok Append_buf osc_blob_def)

lemma ReadBlob_osc_blob:
  assumes "length d < 2 ^ 31" "rd_valid r" "drop (rd_pos r) (rd_data r) = osc_blob d @ rest"
    "rd_pos r \<le> rd_size r" "rd_size r = length (rd_data r)"
  shows "ReadBlob r = (Some d, word_of_nat (length d), r\<lparr>rd_pos := rd_pos r + length (osc_blob d)\<rparr>)"
proof -
  let ?n = "length d" and ?w = "word_of_nat (length d) :: u32"
  have size: "rd_size r = rd_pos r + length (osc_blob d) + length rest"
    using assms(3-5) by (metis add.assoc le_add_diff_inverse length_append length_drop)
  have u: "unat ?w = ?n" using assms(1) by (simp add: unsigned_of_nat take_bit_eq_mod)
  have s: "sint ?w = int ?n"
    using assms(1) by (simp add: signed_of_nat signed_take_bit_int_eq_self)
  have pad: "?n \<le> pad4 ?n" using assms(1) by (simp add: pad4_bounds)
  have i: "ReadInt32 r = (?w, r\<lparr>rd_pos := rd_pos r + 4\<rparr>)"
    using assms(2,3) size by (simp add: ReadInt32_def ReadBytes_def osc_blob_def from_be32_be32)
  have "drop (rd_pos r + 4) (rd_data r) = drop 4 (osc_blob d @ rest)"
    using assms(3) by (metis drop_drop add.commute)
  then show ?thesis
    using assms(2) size pad by (simp add: ReadBlob_def i u s osc_blob_def Let_def)
qed

section \<open>What dispatch hands out\<close>

definition call_cost :: "osc_call \<Rightarrow> nat" where
  "call_cost c = (case c of (a, t, args) \<Rightarrow> length a + 1 + (length t + 1) + length args)"

lemma ReadStr_advance:
  assumes "ReadStr r = (Some s, r')" "rd_size r + 4 < 2 ^ 32"
  shows "rd_pos r + length s + 1 \<le> rd_pos r'" "rd_pos r' \<le> rd_size r'" "rd_data r' = rd_data r" "rd_size r' = rd_size r"
proof -
  let ?len = "length (cstr (take (rd_size r - rd_pos r) (drop (rd_pos r) (rd_data r))))"
  have "?len \<le> rd_size r" using length_cstr_le [of "take (rd_size r - rd_pos r) (drop (rd_pos r) (rd_data r))"] by (auto intro: order_trans)
  then have "?len + 1 \<le> pad4 (?len + 1)" using assms(2) by (intro pad4_bounds) simp
  with assms(1) length_cstr_le [of "take (rd_size r - rd_pos r) (drop (rd_pos r) (rd_data r))"] show "rd_pos r + length s + 1 \<le> rd_pos r'" "rd_pos r' \<le> rd_size r'" "rd_data r' = rd_data r" "rd_size r' = rd_size r"
    by (auto simp: ReadStr_def Let_def split: if_splits)
qed

lemma OscParseMessage_cost:
  assumes "msg_valid (OscParseMessage data)" "length data + 4 < 2 ^ 32"
  shows "call_cost (the (msg_address (OscParseMessage data)), the (msg_typetag (OscParseMessage data)),
           msg_args (OscParseMessage data)) \<le> length data"
proof -
  obtain a r1 where 1: "ReadStr (OscReader data (length data)) = (Some a, r1)"
    using assms(1) by (auto simp: OscParseMessage_def split: prod.splits if_splits)
  obtain t r2 where 2: "ReadStr r1 = (Some t, r2)"
    using assms(1) 1 by (auto simp: OscParseMessage_def split: prod.splits if_splits)
  have d: "rd_data (OscReader data (length data)) = data" "rd_pos (OscReader data (length data)) = 0" "rd_size (OscReader data (length data)) = length data"
    by (simp_all add: OscReader_def)
  note adv = ReadStr_advance [OF 1] ReadStr_advance [OF 2]
  show ?thesis
    using assms 1 2 adv d by (auto simp: OscParseMessage_def call_cost_def)
qed

lemma dispatch_cost:
  "length data + 4 < 2 ^ 32 \<Longrightarrow> sum_list (map call_cost (OscDispatch data)) \<le> length data"
  "length rest + 4 < 2 ^ 32 \<Longrightarrow> sum_list (map call_cost (OscBundleLoop rest)) \<le> length rest"
proof (induction data and rest rule: OscDispatch_OscBundleLoop.induct)
  case (1 data)
  have "sum_list (map call_cost (OscBundleLoop (drop 16 data))) \<le> length data"
    if "\<not> length data < 16" "take (length kOscBundlePrefix) data = kOscBundlePrefix"
  proof -
    have "sum_list (map call_cost (OscBundleLoop (drop 16 data))) \<le> length (drop 16 data)"
      using 1 that by simp
    then show ?thesis by simp
  qed
  then show ?case
    using OscParseMessage_cost [of data] 1(2)
    by (subst OscDispatch.simps) (auto simp: Let_def)
next
  case (2 rest)
  show ?case
  proof (cases "length rest < 4")
    case False
    let ?len = "unat (fst (ReadInt32 (OscReader rest 4)))"
    show ?thesis
    proof (cases "?len > length (drop 4 rest)")
      case inside: False
      have "sum_list (map call_cost (OscDispatch (take ?len (drop 4 rest)))) \<le> ?len"
        using 2(1) [OF False refl refl inside] 2(3) inside by simp
      moreover have "sum_list (map call_cost (OscBundleLoop (drop ?len (drop 4 rest)))) \<le> length rest - (4 + ?len)"
        using 2(2) [OF False refl refl inside] 2(3) inside by (simp add: add.commute)
      ultimately show ?thesis
        using False inside by (subst OscBundleLoop.simps) (simp add: Let_def)
    qed (simp add: OscBundleLoop.simps)
  qed (simp add: OscBundleLoop.simps)
qed


section \<open>Properties\<close>

text \<open>Below 4 GiB, \<open>OscPad4\<close> is the least multiple of four that is not smaller than its argument;
  at \<open>0xFFFFFFFD\<close> the 32-bit mask drops the carry and the result is 0.\<close>

theorem OscPad4_exact:
  "(n + 3 < 2 ^ 32 \<longrightarrow>
      unat (OscPad4 (word_of_nat n)) mod 4 = 0 \<and> n \<le> unat (OscPad4 (word_of_nat n)) \<and>
      unat (OscPad4 (word_of_nat n)) < n + 4) \<and>
   OscPad4 0xFFFFFFFD = 0"
  using pad4_bounds [of n] by (auto simp: pad4_def) (simp add: OscPad4_def)

theorem OscPad4_exact_witness:
  "unat (OscPad4 (word_of_nat 9)) mod 4 = 0 \<and> 9 \<le> unat (OscPad4 (word_of_nat 9)) \<and>
   unat (OscPad4 (word_of_nat 9)) < 13"
  using OscPad4_exact [of 9] by simp

text \<open>C4. A message written by \<open>Begin\<close> and \<open>WriteRawArgs\<close> into an \<open>OscPacket<N>\<close> is \<open>Ok\<close> exactly when its
  padded size is at most \<open>N\<close>, has that size, and \<open>OscParseMessage\<close> gives the address, the typetag and
  the argument bytes back.\<close>

theorem OscPacket_roundtrip:
  assumes "is_cstr a" "is_cstr t" "length a + 4 < 2 ^ 32" "length t + 4 < 2 ^ 32"
  shows "let p = WriteRawArgs N args (Begin N a t p0);
             n = pad4 (length a + 1) + pad4 (length t + 1) + length args
         in (pk_ok p \<longleftrightarrow> n \<le> N) \<and>
            (pk_ok p \<longrightarrow> length (pk_buf p) = n \<and>
               OscParseMessage (pk_buf p) =
                 \<lparr>msg_address = Some a, msg_typetag = Some t, msg_args = args, msg_valid = True\<rparr>)"
proof -
  let ?p = "WriteRawArgs N args (Begin N a t p0)"
  have ok: "pk_ok ?p \<longleftrightarrow> length (osc_msg a t args) \<le> N"
    by (auto simp: WriteRawArgs_def Append_ok Begin_ok Begin_buf osc_msg_def)
  have len: "length (osc_msg a t args) = pad4 (length a + 1) + pad4 (length t + 1) + length args"
    using assms(3,4) by (simp add: osc_msg_def length_osc_str)
  have "pk_ok ?p \<Longrightarrow> pk_buf ?p = osc_msg a t args"
    by (auto simp: WriteRawArgs_def Append_buf Append_ok Begin_buf osc_msg_def)
  then show ?thesis
    using ok len assms by (simp add: Let_def OscParseMessage_osc_msg)
qed

theorem OscPacket_roundtrip_witness:
  "pk_ok (WriteRawArgs 512 [1, 2, 3, 4] (Begin 512 (str ''/a'') (str '',f'') OscPacket)) \<and>
   OscParseMessage (pk_buf (WriteRawArgs 512 [1, 2, 3, 4] (Begin 512 (str ''/a'') (str '',f'') OscPacket))) =
     \<lparr>msg_address = Some (str ''/a''), msg_typetag = Some (str '',f''), msg_args = [1, 2, 3, 4],
      msg_valid = True\<rparr>"
proof -
  have "is_cstr (str ''/a'')" "is_cstr (str '',f'')" "length (str ''/a'') + 4 < 2 ^ 32"
    "length (str '',f'') + 4 < 2 ^ 32" "length (str ''/a'') = 2" "length (str '',f'') = 2"
    by (simp_all add: str_def is_cstr_def)
  then show ?thesis
    using OscPacket_roundtrip [of "str ''/a''" "str '',f''" 512 "[1, 2, 3, 4]" OscPacket]
    by (simp add: pad4_eq Let_def)
qed

text \<open>C5. \<open>OscDispatch\<close> calls back once per message of an encoded packet, in order, through any nesting of
  bundles.\<close>

theorem OscDispatch_bundle: "osc_wf e \<Longrightarrow> OscDispatch (osc_enc e) = osc_calls e"
  by (rule OscDispatch_enc)

theorem OscDispatch_bundle_witness:
  "OscDispatch (osc_enc (Bundle (replicate 8 0) [Message [47] [44] [1, 2], Bundle (replicate 8 1) [Message [47, 98] [44] []]])) =
     [([47], [44], [1, 2]), ([47, 98], [44], [])]"
proof -
  have "osc_wf (Bundle (replicate 8 0) [Message [47] [44] [1, 2], Bundle (replicate 8 1) [Message [47, 98] [44] []]])"
    by (simp add: is_cstr_def str_def osc_msg_def length_osc_str pad4_eq)
  then show ?thesis by (subst OscDispatch_bundle) simp_all
qed

text \<open>Whatever the input bytes, the calls \<open>OscDispatch\<close> makes are paid for by the input: the
  addresses and typetags with their NULs and the argument bytes add up to at most its size.\<close>

theorem OscDispatch_within_input:
  "length data + 4 < 2 ^ 32 \<Longrightarrow> sum_list (map call_cost (OscDispatch data)) \<le> length data"
  by (rule dispatch_cost)

theorem OscDispatch_within_input_witness:
  "sum_list (map call_cost (OscDispatch [47, 0, 0, 0, 44, 0, 0, 0])) \<le> 8"
  using OscDispatch_within_input [of "[47, 0, 0, 0, 44, 0, 0, 0]"] by simp

text \<open>C14. A reader never reads behind its buffer: whatever the bytes of the buffer and whatever lies in memory behind it, any sequence of \<open>ReadStr\<close>,
  \<open>ReadInt32\<close>, \<open>ReadFloat\<close> and \<open>ReadBlob\<close> calls returns the same values, and leaves the reader at the same position, as with anything else behind the
  buffer. A reader that is still valid stands inside the buffer; one that is not (a failed \<open>ReadBlob\<close> may have moved it
  behind the end) returns nothing any more.\<close>

theorem reader_never_overruns:
  "let (vs, r) = rd_run ops (OscReader (buf @ behind) (length buf));
       (vs', r') = rd_run ops (OscReader (buf @ other) (length buf))
   in vs' = vs \<and> rd_pos r' = rd_pos r \<and> rd_valid r' = rd_valid r \<and>
      (if rd_valid r then rd_pos r \<le> length buf else (\<forall>op. rd_exec op r = (rd_null op, r)))"
proof -
  have "same_buffer (OscReader (buf @ behind) (length buf)) (OscReader (buf @ other) (length buf))"
    by (simp add: same_buffer_def OscReader_def rd_inv_def)
  from rd_run_same [OF this, of ops] have "fst (rd_run ops (OscReader (buf @ other) (length buf))) = fst (rd_run ops (OscReader (buf @ behind) (length buf)))"
      "same_buffer (snd (rd_run ops (OscReader (buf @ behind) (length buf)))) (snd (rd_run ops (OscReader (buf @ other) (length buf))))"
    by blast+
  moreover have "rd_size (snd (rd_run ops r)) = rd_size r" for r
  proof (induction ops arbitrary: r)
    case (Cons op ops)
    then show ?case using rd_exec_le [of r op] by (auto simp: split_beta Let_def rd_le_def)
  qed simp
  then have "rd_size (snd (rd_run ops (OscReader (buf @ behind) (length buf)))) = length buf" by (simp add: OscReader_def)
  ultimately show ?thesis by (auto simp: split_beta Let_def same_buffer_def rd_inv_def rd_exec_dead)
qed

theorem reader_never_overruns_witness:
  "fst (rd_run [RBlob, RInt] (OscReader ([0, 0, 0, 1, 7] @ [1, 2, 3]) 5)) = [VBlob None 1, VInt 0] \<and>
   fst (rd_run [RBlob, RInt] (OscReader ([0, 0, 0, 1, 7] @ []) 5)) = [VBlob None 1, VInt 0] \<and>
   rd_pos (snd (rd_run [RBlob, RInt] (OscReader ([0, 0, 0, 1, 7] @ [1, 2, 3]) 5))) = 8"
proof -
  have "fst (rd_run [RBlob, RInt] (OscReader ([0, 0, 0, 1, 7] @ [1, 2, 3]) 5)) = [VBlob None 1, VInt 0] \<and>
      rd_pos (snd (rd_run [RBlob, RInt] (OscReader ([0, 0, 0, 1, 7] @ [1, 2, 3]) 5))) = 8" by code_simp
  moreover have "length [0, 0, 0, 1, 7 :: byte] = 5" by simp
  note reader_never_overruns [of "[RBlob, RInt]" "[0, 0, 0, 1, 7]" "[1, 2, 3]" "[]", unfolded this split_beta Let_def]
  ultimately show ?thesis by (simp only: simp_thms)
qed

text \<open>A blob written by \<open>WriteBlob\<close> is read back by \<open>ReadBlob\<close> with its length, and the reader stops behind
  the padding.\<close>

theorem OscBlob_roundtrip:
  assumes "length d < 2 ^ 31" and "pk_ok (WriteBlob N d OscPacket)"
  shows "ReadBlob (OscReader (pk_buf (WriteBlob N d OscPacket)) (length (pk_buf (WriteBlob N d OscPacket)))) =
    (Some d, word_of_nat (length d),
     (OscReader (pk_buf (WriteBlob N d OscPacket)) (length (pk_buf (WriteBlob N d OscPacket))))\<lparr>rd_pos := length (pk_buf (WriteBlob N d OscPacket))\<rparr>)"
proof -
  have "pk_buf (WriteBlob N d OscPacket) = osc_blob d"
    using assms(2) by (simp add: WriteBlob_buf OscPacket_def)
  then show ?thesis
    using ReadBlob_osc_blob [of d "OscReader (osc_blob d) (length (osc_blob d))" "[]"] assms(1)
    by (simp add: OscReader_def osc_blob_def)
qed

theorem OscBlob_roundtrip_witness:
  "fst (ReadBlob (OscReader (pk_buf (WriteBlob 64 [7, 8, 9] OscPacket)) (length (pk_buf (WriteBlob 64 [7, 8, 9] OscPacket))))) = Some [7, 8, 9]"
proof -
  have "pk_ok (WriteBlob 64 [7, 8, 9] OscPacket)"
    by (simp add: WriteBlob_ok OscPacket_def osc_blob_def pad4_eq)
  then show ?thesis using OscBlob_roundtrip [of "[7, 8, 9]" 64] by simp
qed

end
