(* ===== verification/OscPattern.thy ===== *)
theory OscPattern
  imports Prelude
begin

text \<open>
  The OSC address pattern matcher of \<open>modules/oscrouter/src/driver/OscWire.cpp\<close>: character classes,
  brace alternatives and the recursive descent \<open>PatternMatchImpl\<close>. Beside the code's matcher stands a
  declarative one (parse the pattern into tokens, then relate token lists to the strings they
  denote); the two agree on every brace-free pattern, and a brace group is the union of its
  alternatives.
\<close>

abbreviation c_bang :: byte where "c_bang \<equiv> 33"
abbreviation c_star :: byte where "c_star \<equiv> 42"
abbreviation c_comma :: byte where "c_comma \<equiv> 44"
abbreviation c_dash :: byte where "c_dash \<equiv> 45"
abbreviation c_quest :: byte where "c_quest \<equiv> 63"
abbreviation c_lbracket :: byte where "c_lbracket \<equiv> 91"
abbreviation c_rbracket :: byte where "c_rbracket \<equiv> 93"
abbreviation c_lbrace :: byte where "c_lbrace \<equiv> 123"
abbreviation c_rbrace :: byte where "c_rbrace \<equiv> 125"

section \<open>The matcher\<close>

text \<open>The \<open>while (*p && *p != ']')\<close> loop; \<open>char\<close> is signed, so ranges compare signed.\<close>

definition range_at :: "bytes \<Rightarrow> (byte \<times> bytes) option" where
  "range_at p =
     (case p of d # c2 # p' \<Rightarrow> if d = c_dash \<and> c2 \<noteq> c_rbracket then Some (c2, p') else None
      | _ \<Rightarrow> None)"

lemma range_at_length: "range_at p = Some (c2, p') \<Longrightarrow> length p' < length p"
  by (auto simp: range_at_def split: list.splits if_splits)

function class_loop :: "byte \<Rightarrow> bool \<Rightarrow> bytes \<Rightarrow> bool \<times> bytes" where
  "class_loop ch matched [] = (matched, [])"
| "class_loop ch matched (c1 # p) =
     (if c1 = c_rbracket then (matched, c1 # p)
      else case range_at p of
        Some (c2, p') \<Rightarrow>
          class_loop ch (matched \<or> (sint c1 \<le> sint ch \<and> sint ch \<le> sint c2)) p'
      | None \<Rightarrow> class_loop ch (matched \<or> ch = c1) p)"
  by pat_completeness auto
termination
  by (relation "measure (\<lambda>(ch, m, p). length p)") (auto dest: range_at_length)

text \<open>\<open>None\<close> is \<open>ok = false\<close>; otherwise the verdict and the pattern behind the closing bracket.\<close>

definition MatchCharClass :: "bytes \<Rightarrow> byte \<Rightarrow> (bool \<times> bytes) option" where
  "MatchCharClass p ch =
     (let (negated, p1) = (case p of c # p' \<Rightarrow> if c = c_bang then (True, p') else (False, p) | [] \<Rightarrow> (False, p));
          (matched, p2) = class_loop ch False p1
      in case p2 of
           [] \<Rightarrow> None
         | c # p3 \<Rightarrow> if c \<noteq> c_rbracket then None
                     else Some (if negated then \<not> matched else matched, p3))"

text \<open>The scan for the closing brace at the depth of the opening one.\<close>

fun find_close :: "nat \<Rightarrow> bytes \<Rightarrow> bytes" where
  "find_close 0 r = r"
| "find_close (Suc d) [] = []"
| "find_close (Suc d) (c # r) =
     (if c = c_lbrace then find_close (Suc (Suc d)) r
      else if c = c_rbrace then find_close d r
      else find_close (Suc d) r)"

text \<open>
  The alternatives loop over a matcher \<open>f\<close> for the rebuilt pattern; \<open>seg\<close> holds the bytes between
  \<open>start\<close> and \<open>p\<close>, and 256 is the size of the buffer \<open>alt\<close>.
\<close>

fun MatchAlternates :: "(bytes \<Rightarrow> bool) \<Rightarrow> bytes \<Rightarrow> bytes \<Rightarrow> bytes \<Rightarrow> bool" where
  "MatchAlternates f seg [] rest = False"
| "MatchAlternates f seg (c # p) rest =
     (if c = c_rbrace then
        (if length seg \<ge> 255 then False
         else if length seg + length p \<ge> 256 then False
         else f (seg @ p))
      else if c = c_comma then
        (if length seg \<ge> 255 then False
         else if length seg + length rest \<ge> 256 then False
         else if f (seg @ rest) then True
         else MatchAlternates f [] p rest)
      else MatchAlternates f (seg @ [c]) p rest)"

definition MatchBraces :: "(bytes \<Rightarrow> bool) \<Rightarrow> bytes \<Rightarrow> bool" where
  "MatchBraces f p = MatchAlternates f [] p (find_close 1 p)"

fun tails :: "'a list \<Rightarrow> 'a list list" where
  "tails [] = []"
| "tails (x # xs) = (x # xs) # tails xs"

subsection \<open>Facts the recursion of the matcher rests on\<close>

lemma class_loop_length: "length (snd (class_loop ch m p)) \<le> length p"
proof (induction "length p" arbitrary: m p rule: less_induct)
  case less
  show ?case
  proof (cases p)
    case (Cons c1 q)
    have "length (snd (class_loop ch m' r)) \<le> length q" if "range_at q = Some (c2, r)" for m' c2 r
      using range_at_length [OF that] less [of r m'] Cons by simp
    with less [of q] Cons show ?thesis by (auto split: option.split intro: le_SucI)
  qed simp
qed

lemma MatchCharClass_length: "MatchCharClass p ch = Some (hit, p') \<Longrightarrow> length p' < length p"
  using class_loop_length [of ch False p] class_loop_length [of ch False "tl p"]
  by (auto simp: MatchCharClass_def Let_def split: list.splits prod.splits if_splits)

lemma find_close_length: "length (find_close d r) \<le> length r"
  by (induction d r rule: find_close.induct) (auto intro: le_SucI)

lemma MatchAlternates_cong_len:
  "(\<And>q. length q \<le> length seg + length p \<Longrightarrow> f q = g q) \<Longrightarrow>
   MatchAlternates f seg p (find_close (Suc d) p) = MatchAlternates g seg p (find_close (Suc d) p)"
proof (induction p arbitrary: seg d)
  case (Cons c p)
  have close: "length (find_close (Suc d) p) \<le> length p" by (rule find_close_length)
  show ?case
  proof (cases "c = c_rbrace")
    case False
    then obtain e where e: "find_close (Suc d) (c # p) = find_close (Suc e) p"
      by (cases "c = c_lbrace") auto
    have "length (find_close (Suc e) p) \<le> length p" by (rule find_close_length)
    with False e Cons.prems Cons.IH [of "[]" e] Cons.IH [of "seg @ [c]" e] show ?thesis
      by simp
  qed (use Cons.prems in simp)
qed simp

lemma MatchBraces_cong [fundef_cong]:
  "p = p' \<Longrightarrow> (\<And>q. length q \<le> length p' \<Longrightarrow> f q = g q) \<Longrightarrow> MatchBraces f p = MatchBraces g p'"
  using MatchAlternates_cong_len [of "[]" p' f g 0] by (simp add: MatchBraces_def)

function PatternMatchImpl :: "bytes \<Rightarrow> bytes \<Rightarrow> bool" where
  "PatternMatchImpl [] a = (a = [])"
| "PatternMatchImpl (c # p) a =
     (if c = c_quest then (case a of [] \<Rightarrow> False | _ # a' \<Rightarrow> PatternMatchImpl p a')
      else if c = c_star then
        (let q = dropWhile (\<lambda>x. x = c_star) p
         in if q = [] then True else list_ex (\<lambda>a'. PatternMatchImpl q a') (tails a))
      else if c = c_lbracket then
        (case MatchCharClass p (case a of [] \<Rightarrow> 0 | x # _ \<Rightarrow> x) of
           None \<Rightarrow> False
         | Some (hit, p') \<Rightarrow> (case a of [] \<Rightarrow> False | _ # a' \<Rightarrow> hit \<and> PatternMatchImpl p' a'))
      else if c = c_lbrace then MatchBraces (\<lambda>q. PatternMatchImpl q a) p
      else (case a of [] \<Rightarrow> False | x # a' \<Rightarrow> c = x \<and> PatternMatchImpl p a'))"
  by pat_completeness auto
termination
  by (relation "measure (\<lambda>(p, a). length p)")
    (auto simp: less_Suc_eq_le length_dropWhile_le dest: MatchCharClass_length intro: less_imp_le)

declare PatternMatchImpl.simps(2) [simp del]

definition OscPatternMatch :: "bytes option \<Rightarrow> bytes option \<Rightarrow> bool" where
  "OscPatternMatch pattern address =
     (case (pattern, address) of (Some p, Some a) \<Rightarrow> PatternMatchImpl p a | _ \<Rightarrow> False)"

section \<open>What a pattern denotes\<close>

datatype glob_tok = Lit byte | AnyChar | AnySeq | ByteClass bool "(byte \<times> byte) list"

function class_items :: "bytes \<Rightarrow> ((byte \<times> byte) list \<times> bytes) option" where
  "class_items [] = None"
| "class_items (c1 # p) =
     (if c1 = c_rbracket then Some ([], p)
      else case range_at p of
        Some (c2, p') \<Rightarrow> map_option (\<lambda>(items, r). ((c1, c2) # items, r)) (class_items p')
      | None \<Rightarrow> map_option (\<lambda>(items, r). ((c1, c1) # items, r)) (class_items p))"
  by pat_completeness auto
termination
  by (relation "measure length") (auto dest: range_at_length)

definition in_items :: "(byte \<times> byte) list \<Rightarrow> byte \<Rightarrow> bool" where
  "in_items items ch \<longleftrightarrow> (\<exists>(lo, hi) \<in> set items. sint lo \<le> sint ch \<and> sint ch \<le> sint hi)"

definition glob_class :: "bytes \<Rightarrow> (glob_tok \<times> bytes) option" where
  "glob_class p =
     (case p of
        c # p' \<Rightarrow>
          if c = c_bang then map_option (\<lambda>(items, r). (ByteClass True items, r)) (class_items p')
          else map_option (\<lambda>(items, r). (ByteClass False items, r)) (class_items p)
      | [] \<Rightarrow> None)"

lemma class_loop_items:
  "class_loop ch m p =
     (case class_items p of
        Some (items, r) \<Rightarrow> (m \<or> in_items items ch, c_rbracket # r)
      | None \<Rightarrow> class_loop ch m p)
   \<and> (class_items p = None \<longrightarrow> snd (class_loop ch m p) = [])"
proof (induction p arbitrary: m rule: class_items.induct)
  case (2 c1 p)
  have eq: "sint c1 \<le> sint ch \<and> sint ch \<le> sint c1 \<longleftrightarrow> ch = c1"
    by (metis order_antisym order_refl signed_word_eqI)
  show ?case
  proof (cases "c1 = c_rbracket")
    case False
    show ?thesis
    proof (cases "range_at p")
      case None
      from 2(1) [OF False None, of "m \<or> ch = c1"] False None eq show ?thesis
        by (auto simp: in_items_def split: option.splits)
    next
      case (Some cp)
      obtain c2 p' where cp: "cp = (c2, p')" by force
      from 2(2) [OF False Some cp [symmetric], of "m \<or> sint c1 \<le> sint ch \<and> sint ch \<le> sint c2"] False Some cp
      show ?thesis by (auto simp: in_items_def split: option.splits)
    qed
  qed (simp add: in_items_def)
qed simp

lemma MatchCharClass_items:
  "MatchCharClass p ch =
     (case glob_class p of
        Some (ByteClass neg items, r) \<Rightarrow> Some (in_items items ch \<noteq> neg, r)
      | _ \<Rightarrow> None)"
proof (cases p)
  case Nil
  then show ?thesis by (simp add: MatchCharClass_def glob_class_def)
next
  case (Cons c q)
  define body where "body = (if c = c_bang then q else p)"
  have loop: "MatchCharClass p ch =
      (case snd (class_loop ch False body) of [] \<Rightarrow> None
       | d # r \<Rightarrow> if d \<noteq> c_rbracket then None
                 else Some (fst (class_loop ch False body) \<noteq> (c = c_bang), r))"
    by (simp add: Cons MatchCharClass_def body_def Let_def split: prod.splits list.splits)
  have spec: "glob_class p = map_option (\<lambda>(items, r). (ByteClass (c = c_bang) items, r)) (class_items body)"
    by (simp add: Cons glob_class_def body_def)
  show ?thesis
    using class_loop_items [of ch False body] unfolding loop spec
    by (cases "class_items body") auto
qed

lemma glob_class_length: "glob_class p = Some (t, r) \<Longrightarrow> length r < length p"
  using MatchCharClass_length MatchCharClass_items [of p]
  by (fastforce simp: glob_class_def split: list.splits if_splits)

function glob_parse :: "bytes \<Rightarrow> glob_tok list option" where
  "glob_parse [] = Some []"
| "glob_parse (c # p) =
     (if c = c_quest then map_option ((#) AnyChar) (glob_parse p)
      else if c = c_star then map_option ((#) AnySeq) (glob_parse p)
      else if c = c_lbracket then
        (case glob_class p of None \<Rightarrow> None | Some (t, r) \<Rightarrow> map_option ((#) t) (glob_parse r))
      else map_option ((#) (Lit c)) (glob_parse p))"
  by pat_completeness auto
termination
  by (relation "measure length") (auto dest: glob_class_length)

inductive glob :: "glob_tok list \<Rightarrow> bytes \<Rightarrow> bool" where
  glob_Nil: "glob [] []"
| glob_Lit: "glob ts a \<Longrightarrow> glob (Lit c # ts) (c # a)"
| glob_Any: "glob ts a \<Longrightarrow> glob (AnyChar # ts) (x # a)"
| glob_Class: "glob ts a \<Longrightarrow> in_items items x \<noteq> neg \<Longrightarrow> glob (ByteClass neg items # ts) (x # a)"
| glob_Seq: "glob ts a \<Longrightarrow> glob (AnySeq # ts) (u @ a)"

inductive_simps glob_Nil_iff [simp]: "glob [] a"
inductive_simps glob_Lit_iff [simp]: "glob (Lit c # ts) a"
inductive_simps glob_Any_iff [simp]: "glob (AnyChar # ts) a"
inductive_simps glob_Class_iff [simp]: "glob (ByteClass neg items # ts) a"
inductive_simps glob_Seq_iff: "glob (AnySeq # ts) a"

lemma tails_iff: "a' \<in> set (tails a) \<longleftrightarrow> a' \<noteq> [] \<and> (\<exists>u. a = u @ a')"
  by (induction a) (auto simp: Cons_eq_append_conv)

lemma glob_Seq_Seq: "glob (AnySeq # AnySeq # ts) a \<longleftrightarrow> glob (AnySeq # ts) a"
proof
  assume "glob (AnySeq # AnySeq # ts) a"
  then show "glob (AnySeq # ts) a" by (auto simp: glob_Seq_iff) (metis append.assoc)
next
  assume "glob (AnySeq # ts) a"
  then show "glob (AnySeq # AnySeq # ts) a" using glob_Seq [of _ _ "[]"] by simp
qed

lemma glob_parse_stars:
  "(\<exists>ts. glob_parse p = Some ts \<and> glob (AnySeq # ts) a) \<longleftrightarrow>
   (\<exists>ts. glob_parse (dropWhile (\<lambda>x. x = c_star) p) = Some ts \<and> glob (AnySeq # ts) a)"
  by (induction p) (auto simp: glob_Seq_Seq)

text \<open>A pattern that starts with neither a star nor the end of the string needs a byte to match.\<close>

lemma glob_parse_nonempty:
  "glob_parse (c # p) = Some ts \<Longrightarrow> c \<noteq> c_star \<Longrightarrow> \<not> glob ts []"
  by (auto simp: glob_class_def split: if_splits option.splits list.splits)

lemma range_at_set: "range_at p = Some (c2, p') \<Longrightarrow> set p' \<subseteq> set p"
  by (auto simp: range_at_def split: list.splits if_splits)

lemma class_items_set: "class_items p = Some (items, r) \<Longrightarrow> set r \<subseteq> set p"
proof (induction "length p" arbitrary: p items rule: less_induct)
  case less
  show ?case
  proof (cases p)
    case (Cons c q)
    have tail: "set r \<subseteq> set q" if "class_items q' = Some (is, r)" "length q' \<le> length q" "set q' \<subseteq> set q"
      for q' "is"
      using less(1) [of q' "is"] that Cons by auto
    show ?thesis
    proof (cases "range_at q")
      case None
      then show ?thesis using less(2) Cons tail [of q] by (auto split: if_splits)
    next
      case (Some cr)
      then show ?thesis
        using less(2) Cons tail [of "snd cr"] range_at_set [of q "fst cr" "snd cr"]
          range_at_length [of q "fst cr" "snd cr"]
        by (auto split: if_splits prod.splits)
    qed
  qed (use less(2) in simp)
qed

lemma glob_class_suffix: "glob_class p = Some (t, r) \<Longrightarrow> set r \<subseteq> set p"
  using class_items_set [of p _ r] class_items_set [of "tl p" _ r]
  by (auto simp: glob_class_def split: list.splits if_splits)

lemma PatternMatchImpl_glob:
  "c_lbrace \<notin> set p \<Longrightarrow> PatternMatchImpl p a \<longleftrightarrow> (\<exists>ts. glob_parse p = Some ts \<and> glob ts a)"
proof (induction p a rule: PatternMatchImpl.induct)
  case (2 c p a)
  consider (quest) "c = c_quest" | (star) "c = c_star" | (cls) "c = c_lbracket"
    | (lit) "c \<notin> {c_quest, c_star, c_lbracket, c_lbrace}"
    using 2(6) by force
  then show ?case
  proof cases
    case quest
    with 2 show ?thesis by (cases a) (auto simp: PatternMatchImpl.simps(2))
  next
    case star
    define q where "q = dropWhile (\<lambda>x. x = c_star) p"
    have code: "PatternMatchImpl (c # p) a \<longleftrightarrow> q = [] \<or> (\<exists>a' \<in> set (tails a). PatternMatchImpl q a')"
      using star by (simp add: PatternMatchImpl.simps(2) q_def [symmetric] Let_def list_ex_iff)
    have spec: "(\<exists>ts. glob_parse (c # p) = Some ts \<and> glob ts a) \<longleftrightarrow>
        (\<exists>ts. glob_parse q = Some ts \<and> glob (AnySeq # ts) a)"
      using star glob_parse_stars [of p a] by (auto simp: q_def)
    show ?thesis
    proof (cases "q = []")
      case True
      then show ?thesis using glob_Seq [OF glob_Nil, of a] unfolding code spec by simp
    next
      case False
      then have hd: "hd q \<noteq> c_star" unfolding q_def by (rule hd_dropWhile)
      have IH: "PatternMatchImpl q a' \<longleftrightarrow> (\<exists>ts. glob_parse q = Some ts \<and> glob ts a')"
        if "a' \<in> set (tails a)" for a'
        using 2(2) [OF _ star q_def False that] 2(6) star set_dropWhileD [of c_lbrace _ p]
        by (auto simp: q_def)
      have "glob (AnySeq # ts) a \<longleftrightarrow> (\<exists>a' \<in> set (tails a). glob ts a')" if "glob_parse q = Some ts" for ts
        using glob_parse_nonempty [of "hd q" "tl q" ts] that False hd
        by (auto simp: glob_Seq_iff tails_iff) blast
      with False IH show ?thesis unfolding code spec by blast
    qed
  next
    case cls
    show ?thesis
    proof (cases a)
      case (Cons x a')
      show ?thesis
      proof (cases "glob_class p")
        case None
        then show ?thesis using cls by (simp add: PatternMatchImpl.simps(2) MatchCharClass_items Cons)
      next
        case (Some tr)
        then obtain neg items r where tr: "tr = (ByteClass neg items, r)"
          by (auto simp: glob_class_def split: list.splits if_splits)
        have "c_lbrace \<notin> set r" using glob_class_suffix [of p] Some tr 2(6) by auto
        moreover have "MatchCharClass p x = Some (in_items items x \<noteq> neg, r)"
          using Some tr by (simp add: MatchCharClass_items)
        ultimately show ?thesis
          using 2(3) cls Some tr by (auto simp: PatternMatchImpl.simps(2) MatchCharClass_items Cons)
      qed
    qed (use cls in \<open>auto simp: PatternMatchImpl.simps(2) glob_class_def split: option.splits list.splits\<close>)
  next
    case lit
    with 2 show ?thesis by (cases a) (auto simp: PatternMatchImpl.simps(2))
  qed
qed simp

lemma find_close_flat: "c_lbrace \<notin> set s \<Longrightarrow> c_rbrace \<notin> set s \<Longrightarrow> find_close (Suc d) (s @ r) = find_close (Suc d) r"
  by (induction s) auto

lemma MatchAlternates_skip:
  "c_comma \<notin> set s \<Longrightarrow> c_rbrace \<notin> set s \<Longrightarrow>
   MatchAlternates f seg (s @ p) rest = MatchAlternates f (seg @ s) p rest"
  by (induction s arbitrary: seg) auto

fun brace_body :: "bytes list \<Rightarrow> bytes" where
  "brace_body [] = []"
| "brace_body [s] = s @ [c_rbrace]"
| "brace_body (s # ss) = s @ [c_comma] @ brace_body ss"

definition flat_alt :: "bytes \<Rightarrow> bytes \<Rightarrow> bool" where
  "flat_alt rest s \<longleftrightarrow> {c_comma, c_lbrace, c_rbrace} \<inter> set s = {} \<and> length s < 255 \<and> length s + length rest < 256"

lemma find_close_body:
  "ss \<noteq> [] \<Longrightarrow> \<forall>s \<in> set ss. flat_alt rest s \<Longrightarrow> find_close 1 (brace_body ss @ rest) = rest"
  by (induction ss rule: brace_body.induct) (auto simp: flat_alt_def find_close_flat)

lemma MatchAlternates_body:
  "ss \<noteq> [] \<Longrightarrow> \<forall>s \<in> set ss. flat_alt rest s \<Longrightarrow>
   MatchAlternates f [] (brace_body ss @ rest) rest \<longleftrightarrow> (\<exists>s \<in> set ss. f (s @ rest))"
  by (induction ss rule: brace_body.induct) (auto simp: flat_alt_def MatchAlternates_skip)

section \<open>Properties\<close>

text \<open>C8. The recursive matcher decides exactly the declarative meaning of the pattern: for every
  pattern without brace groups and every address, \<open>OscPatternMatch\<close> answers true iff the pattern
  parses into literals, question marks, stars and (negated) byte classes whose concatenation denotes
  the address. A malformed class matches nothing.\<close>

theorem OscPatternMatch_denotes:
  assumes "c_lbrace \<notin> set p"
  shows "OscPatternMatch (Some p) (Some a) \<longleftrightarrow> (\<exists>ts. glob_parse p = Some ts \<and> glob ts a)"
  using PatternMatchImpl_glob [OF assms] by (simp add: OscPatternMatch_def)

theorem OscPatternMatch_denotes_witness:
  "c_lbrace \<notin> set (str ''/a*/[x-z]?'') \<and>
   OscPatternMatch (Some (str ''/a*/[x-z]?'')) (Some (str ''/avatar/p/y1'')) \<and>
   (\<exists>ts. glob_parse (str ''/a*/[x-z]?'') = Some ts \<and> glob ts (str ''/avatar/p/y1''))"
proof -
  have no: "c_lbrace \<notin> set (str ''/a*/[x-z]?'')" by code_simp
  have run: "OscPatternMatch (Some (str ''/a*/[x-z]?'')) (Some (str ''/avatar/p/y1''))" by code_simp
  show ?thesis using OscPatternMatch_denotes [OF no, of "str ''/avatar/p/y1''"] no run by blast
qed

text \<open>A brace group is the union of its alternatives: as long as every alternative together with
  the rest of the pattern fits the 256-byte scratch buffer, a pattern \<open>{s1,...,sn}rest\<close> matches an
  address iff one of the patterns \<open>si rest\<close> does.\<close>

theorem OscPatternMatch_braces:
  assumes "ss \<noteq> []" and "\<forall>s \<in> set ss. flat_alt rest s"
  shows "OscPatternMatch (Some (c_lbrace # brace_body ss @ rest)) (Some a) \<longleftrightarrow>
         (\<exists>s \<in> set ss. OscPatternMatch (Some (s @ rest)) (Some a))"
  using find_close_body [OF assms] MatchAlternates_body [OF assms, of "\<lambda>q. PatternMatchImpl q a"]
  by (simp add: OscPatternMatch_def PatternMatchImpl.simps(2) MatchBraces_def)

theorem OscPatternMatch_braces_witness:
  "brace_body [str ''eye'', str ''lip''] = str ''eye,lip}'' \<and>
   list_all (flat_alt (str ''/*'')) [str ''eye'', str ''lip''] \<and>
   OscPatternMatch (Some (c_lbrace # brace_body [str ''eye'', str ''lip''] @ str ''/*'')) (Some (str ''lip/x''))"
proof -
  have fits: "\<forall>s \<in> set [str ''eye'', str ''lip'']. flat_alt (str ''/*'') s" by code_simp
  have "OscPatternMatch (Some (str ''lip'' @ str ''/*'')) (Some (str ''lip/x''))" by code_simp
  then have "OscPatternMatch (Some (c_lbrace # brace_body [str ''eye'', str ''lip''] @ str ''/*'')) (Some (str ''lip/x''))"
    by (subst OscPatternMatch_braces [OF _ fits]) auto
  moreover have "brace_body [str ''eye'', str ''lip''] = str ''eye,lip}''" by code_simp
  ultimately show ?thesis using fits unfolding list_all_iff by blast
qed

text \<open>A star in front of a brace group never stands for the whole rest of the address: the loop
  behind a star only tries non-empty remainders, so \<open>/a*{b,}\<close> refuses \<open>/a\<close> although its second
  alternative \<open>/a*\<close> accepts it.\<close>

theorem star_skips_empty_remainder:
  "\<not> OscPatternMatch (Some (str ''/a*{b,}'')) (Some (str ''/a'')) \<and>
   OscPatternMatch (Some (str ''/a*'')) (Some (str ''/a''))"
  by code_simp

end
