(* ===== verification/Seqlock.thy ===== *)
theory Seqlock
  imports Prelude
begin

text \<open>
  The sequence lock that guards every shared-memory snapshot of \<open>core/src/common/Protocol.h\<close>
  (\<open>InputHealthSnapshotShmem\<close>, \<open>FaceTrackingFrameShmem\<close>, \<open>OscRouterStatsShmem\<close>, \<open>PerfStatsShmem\<close>): one
  writer and one reader in different processes, interleaved one memory cell at a time. The machine
  is sequentially consistent, which the release/acquire accesses of the sources give on the x86-64
  targets the program is built for.
\<close>

section \<open>Slots and the writer's program\<close>

text \<open>A memory cell: one byte of a byte array, or one aligned 64-bit member.\<close>

datatype cell = CB byte | CW u64

type_synonym image = "cell list"

text \<open>
  The body of a write between the two generation stores: cell index and the value stored there,
  computed from the memory at that moment (\<open>sampleIndex += 1\<close> reads before it writes).
\<close>

type_synonym cell_write = "nat \<times> (image \<Rightarrow> cell)"

definition put_cell :: "cell_write \<Rightarrow> image \<Rightarrow> image" where
  "put_cell w im = im[fst w := snd w im]"

definition put_cells :: "cell_write list \<Rightarrow> image \<Rightarrow> image" where
  "put_cells ws im = fold put_cell ws im"

record seq_slot =
  generation :: u64
  body :: image

definition slot_write :: "cell_write list \<Rightarrow> seq_slot \<Rightarrow> seq_slot" where
  "slot_write ws s =
     (let prev = generation s;
          s1 = s\<lparr>generation := prev + 1\<rparr>;
          s2 = s1\<lparr>body := put_cells ws (body s1)\<rparr>
      in s2\<lparr>generation := prev + 2\<rparr>)"

text \<open>
  The retry loop of every reader on what it observes: per attempt the first load of the generation,
  the copied body and the second load.
\<close>

fun try_read :: "(u64 \<times> image \<times> u64) list \<Rightarrow> image option" where
  "try_read [] = None"
| "try_read ((g1, out, g2) # obs) =
     (if g1 AND 1 \<noteq> 0 then try_read obs
      else if g1 = g2 then Some out
      else try_read obs)"

definition slot_read :: "nat \<Rightarrow> seq_slot \<Rightarrow> image option" where
  "slot_read max_retries s = try_read (replicate max_retries (generation s, body s, generation s))"

lemma length_put_cells [simp]: "length (put_cells ws im) = length im"
  by (induction ws arbitrary: im) (simp_all add: put_cells_def put_cell_def)

lemma put_cells_Nil [simp]: "put_cells [] im = im"
  by (simp add: put_cells_def)

lemma put_cells_Cons: "put_cells (w # ws) im = put_cells ws (put_cell w im)"
  by (simp add: put_cells_def)

lemma put_cells_append: "put_cells (vs @ ws) im = put_cells ws (put_cells vs im)"
  by (simp add: put_cells_def)

lemma length_put_cell [simp]: "length (put_cell w im) = length im"
  by (simp add: put_cell_def)

text \<open>The low bit of a generation is its parity.\<close>

lemma and_one_even: "(g::u64) AND 1 = 0 \<longleftrightarrow> even g"
  by (simp add: and_one_eq even_iff_mod_2_eq_zero)

lemma slot_read_even: "generation s AND 1 = 0 \<Longrightarrow> 0 < n \<Longrightarrow> slot_read n s = Some (body s)"
  by (cases n) (simp_all add: slot_read_def)

lemma slot_read_odd: "generation s AND 1 \<noteq> 0 \<Longrightarrow> slot_read n s = None"
  by (induction n) (simp_all add: slot_read_def)

lemma generation_slot_write [simp]: "generation (slot_write ws s) = generation s + 2"
  by (simp add: slot_write_def Let_def)

lemma body_slot_write [simp]: "body (slot_write ws s) = put_cells ws (body s)"
  by (simp add: slot_write_def Let_def)

section \<open>Writer and reader interleaved\<close>

datatype reader =
    RStart nat              \<comment> \<open>attempts left\<close>
  | RCopy nat u64 image     \<comment> \<open>attempts left after this one, \<open>g1\<close>, cells copied so far\<close>
  | RDone image             \<comment> \<open>\<open>return true\<close>\<close>
  | RFailed                 \<comment> \<open>\<open>return false\<close>\<close>

text \<open>
  \<open>m_gen\<close> and \<open>m_img\<close> are the shared slot. \<open>m_wr\<close> is the writer inside a write: the \<open>prev\<close> it loaded, the
  request it is writing and the cells still to store. \<open>m_log\<close> (completed writes) and \<open>m_from\<close> (how many
  were complete when the reader last loaded \<open>g1\<close>) only record history.
\<close>

record 'a seqmem =
  m_gen :: u64
  m_img :: image
  m_wr :: "(u64 \<times> 'a \<times> cell_write list) option"
  m_rd :: reader
  m_log :: "'a list"
  m_from :: nat

inductive seq_step :: "('a \<Rightarrow> cell_write list) \<Rightarrow> 'a seqmem \<Rightarrow> 'a seqmem \<Rightarrow> bool"
  for prog :: "'a \<Rightarrow> cell_write list" where
  W_begin: "m_wr s = None \<Longrightarrow>
     seq_step prog s (s\<lparr>m_gen := m_gen s + 1, m_wr := Some (m_gen s, a, prog a)\<rparr>)"
| W_cell: "m_wr s = Some (prev, a, w # ws) \<Longrightarrow>
     seq_step prog s (s\<lparr>m_img := put_cell w (m_img s), m_wr := Some (prev, a, ws)\<rparr>)"
| W_end: "m_wr s = Some (prev, a, []) \<Longrightarrow>
     seq_step prog s (s\<lparr>m_gen := prev + 2, m_wr := None, m_log := m_log s @ [a]\<rparr>)"
| R_exhausted: "m_rd s = RStart 0 \<Longrightarrow> seq_step prog s (s\<lparr>m_rd := RFailed\<rparr>)"
| R_odd: "m_rd s = RStart (Suc n) \<Longrightarrow> m_gen s AND 1 \<noteq> 0 \<Longrightarrow> seq_step prog s (s\<lparr>m_rd := RStart n\<rparr>)"
| R_load: "m_rd s = RStart (Suc n) \<Longrightarrow> m_gen s AND 1 = 0 \<Longrightarrow>
     seq_step prog s (s\<lparr>m_rd := RCopy n (m_gen s) [], m_from := length (m_log s)\<rparr>)"
| R_cell: "m_rd s = RCopy n g1 acc \<Longrightarrow> length acc < length (m_img s) \<Longrightarrow>
     seq_step prog s (s\<lparr>m_rd := RCopy n g1 (acc @ [m_img s ! length acc])\<rparr>)"
| R_accept: "m_rd s = RCopy n g1 acc \<Longrightarrow> length acc = length (m_img s) \<Longrightarrow> g1 = m_gen s \<Longrightarrow>
     seq_step prog s (s\<lparr>m_rd := RDone acc\<rparr>)"
| R_retry: "m_rd s = RCopy n g1 acc \<Longrightarrow> length acc = length (m_img s) \<Longrightarrow> g1 \<noteq> m_gen s \<Longrightarrow>
     seq_step prog s (s\<lparr>m_rd := RStart n\<rparr>)"
| R_again: "m_rd s = RDone acc \<or> m_rd s = RFailed \<Longrightarrow> seq_step prog s (s\<lparr>m_rd := RStart n\<rparr>)"

text \<open>
  A writer and a reader attach to a slot that is at rest with any generation and contents: \<open>Create\<close> keeps those of an existing segment, and a
  writer that died inside a write has left an odd generation behind.
\<close>

definition seq_init :: "u64 \<Rightarrow> image \<Rightarrow> nat \<Rightarrow> 'a seqmem" where
  "seq_init g im n = \<lparr>m_gen = g, m_img = im, m_wr = None, m_rd = RStart n, m_log = [], m_from = 0\<rparr>"

definition seq_reach :: "('a \<Rightarrow> cell_write list) \<Rightarrow> u64 \<Rightarrow> image \<Rightarrow> nat \<Rightarrow> 'a seqmem \<Rightarrow> bool" where
  "seq_reach prog g im n s \<longleftrightarrow> (seq_step prog)\<^sup>*\<^sup>* (seq_init g im n) s"

text \<open>The memory image after the first \<open>k\<close> completed writes.\<close>

definition image_at :: "('a \<Rightarrow> cell_write list) \<Rightarrow> image \<Rightarrow> 'a list \<Rightarrow> nat \<Rightarrow> image" where
  "image_at prog im log k = fold (\<lambda>a. put_cells (prog a)) (take k log) im"

definition rd_ok :: "('a \<Rightarrow> cell_write list) \<Rightarrow> u64 \<Rightarrow> image \<Rightarrow> 'a seqmem \<Rightarrow> bool" where
  "rd_ok prog g im s =
     (case m_rd s of
        RCopy n g1 acc \<Rightarrow>
          m_from s \<le> length (m_log s) \<and> g1 = g + word_of_nat (2 * m_from s) \<and>
          (m_from s = length (m_log s) \<and> m_wr s = None \<longrightarrow> acc = take (length acc) (m_img s))
      | RDone acc \<Rightarrow>
          length (m_log s) < 2 ^ 63 \<longrightarrow>
          (\<exists>k. m_from s \<le> k \<and> k \<le> length (m_log s) \<and> acc = image_at prog im (m_log s) k)
      | _ \<Rightarrow> True)"

definition seq_inv :: "('a \<Rightarrow> cell_write list) \<Rightarrow> u64 \<Rightarrow> image \<Rightarrow> 'a seqmem \<Rightarrow> bool" where
  "seq_inv prog g im s \<longleftrightarrow>
     (case m_wr s of
        None \<Rightarrow> m_gen s = g + word_of_nat (2 * length (m_log s)) \<and>
                m_img s = image_at prog im (m_log s) (length (m_log s))
      | Some (prev, a, ws) \<Rightarrow>
          prev = g + word_of_nat (2 * length (m_log s)) \<and> m_gen s = prev + 1 \<and>
          put_cells ws (m_img s) = image_at prog im (m_log s @ [a]) (Suc (length (m_log s)))) \<and>
     rd_ok prog g im s"

lemma image_at_snoc: "k \<le> length log \<Longrightarrow> image_at prog im (log @ [a]) k = image_at prog im log k"
  by (simp add: image_at_def)

lemma image_at_Suc:
  "image_at prog im (log @ [a]) (Suc (length log)) = put_cells (prog a) (image_at prog im log (length log))"
  by (simp add: image_at_def)

lemma length_image_at [simp]: "length (image_at prog im log k) = length im"
proof -
  have "length (fold (\<lambda>a. put_cells (prog a)) as im) = length im" for as
    by (induction as arbitrary: im) simp_all
  then show ?thesis by (simp add: image_at_def)
qed

text \<open>Generations are injective until the counter wraps, which takes \<open>2^63\<close> writes.\<close>

lemma gen_inj:
  assumes "word_of_nat (2 * i) = (word_of_nat (2 * j + b) :: u64)" "i \<le> j" "j < 2 ^ 63" "b \<le> 1"
  shows "i = j \<and> b = 0"
proof -
  have "2 * i < 2 ^ 64" "2 * j + b < 2 ^ 64" using assms by simp_all
  then have "2 * i = 2 * j + b"
    using word_of_nat_inj [OF assms(1)] by simp
  with assms(2,4) show ?thesis by linarith
qed

section \<open>The protocol is safe\<close>

lemma rd_ok_writer:
  assumes "rd_ok prog g im s" "m_rd t = m_rd s" "m_from t = m_from s" "m_log t = m_log s" "m_wr t \<noteq> None"
  shows "rd_ok prog g im t"
  using assms by (auto simp: rd_ok_def split: reader.splits)

lemma rd_ok_end:
  assumes "rd_ok prog g im s" "m_rd t = m_rd s" "m_from t = m_from s" "m_log t = m_log s @ [a]"
  shows "rd_ok prog g im t"
  using assms by (auto simp: rd_ok_def image_at_snoc le_SucI split: reader.splits)

lemma seq_inv_step:
  assumes "seq_step prog s t" and "seq_inv prog g im s" and "even g"
  shows "seq_inv prog g im t"
  using assms
proof (cases rule: seq_step.cases)
  case (W_begin a)
  then show ?thesis using assms(2)
    by (auto simp: seq_inv_def image_at_Suc intro: rd_ok_writer [of prog g im s])
next
  case (W_cell prev a w ws)
  then show ?thesis using assms(2)
    by (auto simp: seq_inv_def put_cells_Cons intro: rd_ok_writer [of prog g im s])
next
  case (W_end prev a)
  then show ?thesis using assms(2)
    by (auto simp: seq_inv_def algebra_simps intro: rd_ok_end [of prog g im s])
next
  case (R_load n)
  then show ?thesis using assms(2)
    using assms(3) by (auto simp: seq_inv_def rd_ok_def and_one_even split: option.splits)
next
  case (R_cell n g1 acc)
  then show ?thesis using assms(2)
    by (auto simp: seq_inv_def rd_ok_def take_Suc_conv_app_nth split: option.splits)
next
  case (R_accept n g1 acc)
  have copy: "m_from s \<le> length (m_log s)" "m_gen s = g + word_of_nat (2 * m_from s)"
      "m_from s = length (m_log s) \<and> m_wr s = None \<longrightarrow> acc = m_img s"
    using assms(2) R_accept by (auto simp: seq_inv_def rd_ok_def)
  define b where "b = (if m_wr s = None then 0 else 1 :: nat)"
  have "m_gen s = g + word_of_nat (2 * length (m_log s) + b)"
    using assms(2) by (auto simp: seq_inv_def b_def split: option.splits)
  then have "m_from s = length (m_log s) \<and> m_wr s = None" if "length (m_log s) < 2 ^ 63"
    using gen_inj [of "m_from s" "length (m_log s)" b] copy(1,2) that
    by (metis b_def le_numeral_extra(4) zero_le_one zero_neq_one add_left_cancel)
  then show ?thesis
    using assms(2) R_accept copy by (auto simp: seq_inv_def rd_ok_def split: option.splits)
qed (use assms(2) in \<open>auto simp: seq_inv_def rd_ok_def split: option.splits\<close>)

lemma seq_reach_inv: "even g \<Longrightarrow> seq_reach prog g im n s \<Longrightarrow> seq_inv prog g im s"
  unfolding seq_reach_def
proof (rotate_tac, induction rule: rtranclp_induct)
  case base
  show ?case by (simp add: seq_init_def seq_inv_def rd_ok_def image_at_def)
next
  case (step t u)
  then show ?case using seq_inv_step by blast
qed

text \<open>The writer of the machine, left alone, does what \<open>slot_write\<close> does.\<close>

lemma W_cells_run:
  "m_wr s = Some (prev, a, ws @ vs) \<Longrightarrow>
   (seq_step prog)\<^sup>*\<^sup>* s (s\<lparr>m_img := put_cells ws (m_img s), m_wr := Some (prev, a, vs)\<rparr>)"
proof (induction ws arbitrary: s)
  case (Cons w ws)
  let ?t = "s\<lparr>m_img := put_cell w (m_img s), m_wr := Some (prev, a, ws @ vs)\<rparr>"
  have "seq_step prog s ?t" by (rule W_cell) (use Cons.prems in simp)
  moreover have "(seq_step prog)\<^sup>*\<^sup>* ?t (?t\<lparr>m_img := put_cells ws (m_img ?t), m_wr := Some (prev, a, vs)\<rparr>)"
    by (rule Cons.IH) simp
  ultimately show ?case by (simp add: put_cells_Cons converse_rtranclp_into_rtranclp)
next
  case Nil
  then have "s\<lparr>m_wr := Some (prev, a, vs)\<rparr> = s" by (cases s) simp
  then show ?case by simp
qed

lemma slot_write_run:
  assumes "m_wr s = None" and t: "slot_write (prog a) \<lparr>generation = m_gen s, body = m_img s\<rparr> = t"
  shows "(seq_step prog)\<^sup>*\<^sup>* s
    (s\<lparr>m_gen := generation t, m_img := body t, m_wr := None, m_log := m_log s @ [a]\<rparr>)"
proof -
  define s1 where "s1 = s\<lparr>m_gen := m_gen s + 1, m_wr := Some (m_gen s, a, prog a)\<rparr>"
  define s2 where "s2 = s1\<lparr>m_img := put_cells (prog a) (m_img s1), m_wr := Some (m_gen s, a, [])\<rparr>"
  define s3 where "s3 = s2\<lparr>m_gen := m_gen s + 2, m_wr := None, m_log := m_log s2 @ [a]\<rparr>"
  have 1: "seq_step prog s s1" unfolding s1_def using assms(1) by (rule W_begin)
  have 2: "(seq_step prog)\<^sup>*\<^sup>* s1 s2" unfolding s2_def by (rule W_cells_run) (simp add: s1_def)
  have 3: "seq_step prog s2 s3" unfolding s3_def by (rule W_end) (simp add: s2_def)
  have "s3 = s\<lparr>m_gen := generation t, m_img := body t, m_wr := None, m_log := m_log s @ [a]\<rparr>"
    by (simp add: s1_def s2_def s3_def flip: t)
  then show ?thesis
    using rtranclp.rtrancl_into_rtrancl [OF converse_rtranclp_into_rtranclp [OF 1 2] 3] by simp
qed

text \<open>A reader that meets no writer returns the slot as it is.\<close>

lemma R_cells_run:
  "m_rd s = RCopy n g1 acc \<Longrightarrow> acc @ rest = m_img s \<Longrightarrow>
   (seq_step prog)\<^sup>*\<^sup>* s (s\<lparr>m_rd := RCopy n g1 (m_img s)\<rparr>)"
proof (induction rest arbitrary: s acc)
  case Nil
  then have "s\<lparr>m_rd := RCopy n g1 (m_img s)\<rparr> = s" by (cases s) simp
  then show ?case by simp
next
  case (Cons c rest)
  define t where "t = s\<lparr>m_rd := RCopy n g1 (acc @ [m_img s ! length acc])\<rparr>"
  have "length acc < length (m_img s)" "m_img s ! length acc = c"
    using Cons.prems(2) by (metis length_append length_Cons less_add_Suc1 add_Suc_right, metis nth_append_length)
  then have "seq_step prog s t" "m_rd t = RCopy n g1 (acc @ [c])" "(acc @ [c]) @ rest = m_img t"
    unfolding t_def using Cons.prems by (auto intro: R_cell)
  moreover from this(2,3) have "(seq_step prog)\<^sup>*\<^sup>* t (t\<lparr>m_rd := RCopy n g1 (m_img t)\<rparr>)"
    by (rule Cons.IH)
  ultimately show ?case by (simp add: t_def converse_rtranclp_into_rtranclp)
qed

lemma slot_read_run:
  assumes "m_rd s = RStart (Suc n)" and "m_gen s AND 1 = 0"
  shows "(seq_step prog)\<^sup>*\<^sup>* s (s\<lparr>m_rd := RDone (m_img s), m_from := length (m_log s)\<rparr>)"
proof -
  define s1 where "s1 = s\<lparr>m_rd := RCopy n (m_gen s) [], m_from := length (m_log s)\<rparr>"
  define s2 where "s2 = s1\<lparr>m_rd := RCopy n (m_gen s) (m_img s1)\<rparr>"
  have 1: "seq_step prog s s1" unfolding s1_def using assms by (rule R_load)
  have 2: "(seq_step prog)\<^sup>*\<^sup>* s1 s2"
    unfolding s2_def by (rule R_cells_run [where acc = "[]" and rest = "m_img s1"]) (simp_all add: s1_def)
  have 3: "seq_step prog s2 (s2\<lparr>m_rd := RDone (m_img s1)\<rparr>)"
    by (rule R_accept [where n = n]) (simp_all add: s2_def s1_def)
  have "s2\<lparr>m_rd := RDone (m_img s1)\<rparr> = s\<lparr>m_rd := RDone (m_img s), m_from := length (m_log s)\<rparr>"
    by (simp add: s1_def s2_def)
  then show ?thesis
    using rtranclp.rtrancl_into_rtrancl [OF converse_rtranclp_into_rtranclp [OF 1 2] 3] by simp
qed

text \<open>
  From an odd generation at rest the parities are exchanged: inside a write the generation is even, and a reader that copies the slot there
  accepts what has been written so far.
\<close>

lemma odd_accepts_partial:
  assumes "g AND 1 \<noteq> 0" and "prog a = ws @ vs"
  shows "\<exists>s. seq_reach prog g im (Suc n) s \<and> m_log s = [] \<and> (\<exists>prev. m_wr s = Some (prev, a, vs)) \<and> m_rd s = RDone (put_cells ws im)"
proof -
  define s0 where "s0 = (seq_init g im (Suc n) :: 'a seqmem)"
  define s1 where "s1 = s0\<lparr>m_gen := m_gen s0 + 1, m_wr := Some (m_gen s0, a, prog a)\<rparr>"
  define s2 where "s2 = s1\<lparr>m_img := put_cells ws (m_img s1), m_wr := Some (m_gen s0, a, vs)\<rparr>"
  have 1: "seq_step prog s0 s1" unfolding s1_def by (rule W_begin) (simp add: s0_def seq_init_def)
  have 2: "(seq_step prog)\<^sup>*\<^sup>* s1 s2" unfolding s2_def by (rule W_cells_run) (simp add: s1_def assms(2))
  have "even (m_gen s2)" using assms(1) by (simp add: s2_def s1_def s0_def seq_init_def and_one_even)
  then have 3: "(seq_step prog)\<^sup>*\<^sup>* s2 (s2\<lparr>m_rd := RDone (m_img s2), m_from := length (m_log s2)\<rparr>)"
    by (intro slot_read_run [where n = n]) (simp_all add: and_one_even s2_def s1_def s0_def seq_init_def)
  have "seq_reach prog g im (Suc n) (s2\<lparr>m_rd := RDone (m_img s2), m_from := length (m_log s2)\<rparr>)"
    unfolding seq_reach_def s0_def [symmetric] using rtranclp_trans [OF converse_rtranclp_into_rtranclp [OF 1 2] 3] .
  moreover have "m_log s2 = []" "m_wr s2 = Some (m_gen s0, a, vs)" "m_img s2 = put_cells ws im"
    by (simp_all add: s2_def s1_def s0_def seq_init_def)
  ultimately show ?thesis by force
qed

text \<open>One write, then one read, from a new segment.\<close>

definition seq_demo :: "('a \<Rightarrow> cell_write list) \<Rightarrow> image \<Rightarrow> 'a \<Rightarrow> 'a seqmem" where
  "seq_demo prog im a =
     \<lparr>m_gen = 2, m_img = put_cells (prog a) im, m_wr = None, m_rd = RDone (put_cells (prog a) im),
      m_log = [a], m_from = 1\<rparr>"

lemma seq_demo_reach: "seq_reach prog 0 im 8 (seq_demo prog im a)"
proof -
  define s where "s = (seq_init 0 im 8 :: 'a seqmem)"
  define t where "t = s\<lparr>m_gen := 2, m_img := put_cells (prog a) im, m_wr := None, m_log := [a]\<rparr>"
  have "(seq_step prog)\<^sup>*\<^sup>* s t"
    using slot_write_run [of s prog a, OF _ refl] by (simp add: t_def s_def seq_init_def)
  moreover have "(seq_step prog)\<^sup>*\<^sup>* t (seq_demo prog im a)"
    using slot_read_run [of t 7 prog] by (simp add: t_def s_def seq_init_def seq_demo_def)
  ultimately show ?thesis unfolding seq_reach_def s_def by (rule rtranclp_trans)
qed

section \<open>The interface of a snapshot\<close>

text \<open>
  What a snapshot class promises to the lock: how a request is laid out in cells (\<open>prog\<close>), what a body
  of \<open>cells\<close> cells means (\<open>view\<close>), and what a completed write does to that meaning (\<open>upd\<close>). From an even generation a clean read
  then returns the meaning of the slot after some completed write that is at least as recent as
  the start of the accepted attempt.
\<close>

locale snapshot_layout =
  fixes cells :: nat
    and ok :: "'a \<Rightarrow> bool"
    and prog :: "'a \<Rightarrow> cell_write list"
    and view :: "image \<Rightarrow> 'b"
    and upd :: "'b \<Rightarrow> 'a \<Rightarrow> 'b"
  assumes view_write: "length im = cells \<Longrightarrow> ok a \<Longrightarrow> view (put_cells (prog a) im) = upd (view im) a"
begin

lemma view_image_at:
  assumes "length im = cells" "\<forall>a \<in> set log. ok a"
  shows "view (image_at prog im log k) = foldl upd (view im) (take k log)"
proof -
  have "view (fold (\<lambda>a. put_cells (prog a)) as im) = foldl upd (view im) as" if "\<forall>a \<in> set as. ok a" for as
    using assms(1) that by (induction as arbitrary: im) (simp_all add: view_write)
  with assms(2) show ?thesis by (auto simp: image_at_def dest: in_set_takeD)
qed

lemma clean_read:
  assumes "seq_reach prog g im n s" and "g AND 1 = 0" and "length im = cells" and "m_rd s = RDone out"
    and "\<forall>a \<in> set (m_log s). ok a" and "length (m_log s) < 2 ^ 63"
  shows "\<exists>k. m_from s \<le> k \<and> k \<le> length (m_log s) \<and> view out = foldl upd (view im) (take k (m_log s))"
  using seq_reach_inv [OF _ assms(1)] assms(2-6) by (auto simp: seq_inv_def rd_ok_def view_image_at and_one_even)

lemma read_after_write:
  assumes "length (body s) = cells" and "generation s AND 1 = 0" and "0 < n" and "ok a"
  shows "map_option view (slot_read n (slot_write (prog a) s)) = Some (upd (view (body s)) a)"
  using assms by (simp add: slot_read_even view_write and_one_even)

end

section \<open>Layout of a body\<close>

text \<open>A block copy: the values \<open>vs\<close> stored one after the other from cell \<open>off\<close> on.\<close>

definition copy_prog :: "nat \<Rightarrow> cell list \<Rightarrow> cell_write list" where
  "copy_prog off vs = zip [off..<off + length vs] (map (\<lambda>v im. v) vs)"

fun cb :: "cell \<Rightarrow> byte" where
  "cb (CB b) = b"
| "cb (CW w) = 0"

fun cw :: "cell \<Rightarrow> u64" where
  "cw (CW w) = w"
| "cw (CB b) = 0"

lemma put_cells_copy:
  "off + length vs \<le> length im \<Longrightarrow>
   put_cells (copy_prog off vs) im = take off im @ vs @ drop (off + length vs) im"
proof (induction vs arbitrary: off im)
  case (Cons v vs)
  have "copy_prog off (v # vs) = (off, \<lambda>im. v) # copy_prog (Suc off) vs"
    by (simp add: copy_prog_def upt_conv_Cons del: upt_Suc)
  with Cons show ?case
    by (simp add: put_cells_Cons put_cell_def take_Suc_conv_app_nth nth_append drop_update_cancel)
qed (simp add: copy_prog_def)

text \<open>\<open>CopyStrField\<close>: the bytes of the source up to the size of the field, then a NUL.\<close>

definition CopyStrField :: "nat \<Rightarrow> nat \<Rightarrow> bytes option \<Rightarrow> cell_write list" where
  "CopyStrField off dst_size src =
     (case src of
        None \<Rightarrow> copy_prog off [CB 0]
      | Some s \<Rightarrow> copy_prog off (map CB (copy_str dst_size s @ [0])))"

lemma map_cb_CB [simp]: "map cb (map CB bs) = bs"
  by (induction bs) simp_all

lemma cb_comp_CB [simp]: "cb \<circ> CB = id"
  by (simp add: fun_eq_iff)

text \<open>A writer that dies between the two generation stores, having stored the first \<open>k\<close> cells.\<close>

definition slot_crash :: "nat \<Rightarrow> cell_write list \<Rightarrow> seq_slot \<Rightarrow> seq_slot" where
  "slot_crash k ws s = s\<lparr>generation := generation s + 1, body := put_cells (take k ws) (body s)\<rparr>"

lemma slot_crash_inverts:
  assumes "generation s AND 1 = 0"
  shows "slot_read n ((slot_write ws ^^ m) (slot_crash k vs s)) = None"
proof -
  have "odd (generation ((slot_write ws ^^ m) (slot_crash k vs s)))" for m
    using assms by (induction m) (simp_all add: slot_crash_def and_one_even)
  then show ?thesis by (simp add: slot_read_odd and_one_even)
qed

end
