(* ===== verification/Snapshots.thy ===== *)
theory Snapshots
  imports Seqlock
begin

text \<open>
  The snapshot segments of \<open>core/src/common/Protocol.h\<close> that are guarded by sequence locks: the OSC
  router statistics, the input-health slot table and the driver performance sample. Each class is
  the layout of its body, its writer and its reader; the layouts are interpretations of
  \<open>snapshot_layout\<close>, which gives every class the guarantee of a clean read.
\<close>

section \<open>Creating and opening a segment\<close>

text \<open>
  What the operating system answers to \<open>CreateFileMappingA\<close>/\<open>OpenFileMappingA\<close> and \<open>MapViewOfFile\<close>; a mapped
  segment has contents, all zero when it is new.
\<close>

datatype 'd os_mapping = NoMapping | NoView | Mapped 'd

datatype shm_error = OpenFailed | MapFailed | MagicMismatch u32 | VersionMismatch u32

record shm_header =
  magic :: u32
  shmem_version :: u32

definition shm_stamp :: "u32 \<Rightarrow> u32 \<Rightarrow> 'z shm_header_scheme \<Rightarrow> 'z shm_header_scheme" where
  "shm_stamp mg ver d = d\<lparr>magic := mg, shmem_version := ver\<rparr>"

text \<open>\<open>Create\<close>: \<open>pData\<close> afterwards (\<open>None\<close> when it returned false), for the \<open>reset\<close> a class applies.\<close>

definition shm_Create ::
  "('z shm_header_scheme \<Rightarrow> 'z shm_header_scheme) \<Rightarrow> 'z shm_header_scheme os_mapping \<Rightarrow> 'z shm_header_scheme option" where
  "shm_Create reset m = (case m of Mapped d \<Rightarrow> Some (reset d) | _ \<Rightarrow> None)"

definition shm_Open ::
  "u32 \<Rightarrow> u32 \<Rightarrow> 'z shm_header_scheme os_mapping \<Rightarrow> shm_error + 'z shm_header_scheme" where
  "shm_Open mg ver m =
     (case m of
        NoMapping \<Rightarrow> Inl OpenFailed
      | NoView \<Rightarrow> Inl MapFailed
      | Mapped d \<Rightarrow>
          if magic d \<noteq> mg then Inl (MagicMismatch (magic d))
          else if shmem_version d \<noteq> ver then Inl (VersionMismatch (shmem_version d))
          else Inr d)"

section \<open>OscRouterStatsShmem\<close>

text \<open>
  Body of an \<open>OscRouterRouteSlot\<close>: cells 0-63 \<open>address_pattern\<close>, 64-95 \<open>subscriber_id\<close>, 96 \<open>match_count\<close>,
  97 \<open>drop_count\<close>, 98 \<open>last_match_tick\<close>, 99 \<open>active\<close>.
\<close>

record route_row =
  rr_pattern :: bytes
  rr_label :: bytes
  rr_match :: u64
  rr_drop :: u64
  rr_tick :: u64
  rr_active :: byte

definition route_cells :: nat where "route_cells = 100"

type_synonym route_args = "bytes option \<times> bytes option \<times> u64 \<times> u64 \<times> u64 \<times> bool"

definition route_prog :: "route_args \<Rightarrow> cell_write list" where
  "route_prog a =
     (case a of (pattern, subscriber_id, match_count, drop_count, last_match_tick, active) \<Rightarrow>
        CopyStrField 0 64 pattern @
        CopyStrField 64 32 subscriber_id @
        [(96, \<lambda>im. CW match_count), (97, \<lambda>im. CW drop_count), (98, \<lambda>im. CW last_match_tick),
         (99, \<lambda>im. CB (if active then 1 else 0))])"

definition route_view :: "image \<Rightarrow> route_row" where
  "route_view im =
     \<lparr>rr_pattern = cstr (map cb (take 64 im)), rr_label = cstr (map cb (take 32 (drop 64 im))),
      rr_match = cw (im ! 96), rr_drop = cw (im ! 97), rr_tick = cw (im ! 98), rr_active = cb (im ! 99)\<rparr>"

definition route_upd :: "route_row \<Rightarrow> route_args \<Rightarrow> route_row" where
  "route_upd old a =
     (case a of (pattern, subscriber_id, match_count, drop_count, last_match_tick, active) \<Rightarrow>
        \<lparr>rr_pattern = (case pattern of None \<Rightarrow> [] | Some s \<Rightarrow> copy_str 64 s),
         rr_label = (case subscriber_id of None \<Rightarrow> [] | Some s \<Rightarrow> copy_str 32 s),
         rr_match = match_count, rr_drop = drop_count, rr_tick = last_match_tick,
         rr_active = (if active then 1 else 0)\<rparr>)"

record stats_data = shm_header +
  packets_sent :: u64
  bytes_sent :: u64
  packets_dropped :: u64
  routes :: "seq_slot list"

definition OscStats_Create :: "stats_data os_mapping \<Rightarrow> stats_data option" where
  "OscStats_Create = shm_Create (shm_stamp 0xC5C7057C 1)"

definition OscStats_Open :: "stats_data os_mapping \<Rightarrow> shm_error + stats_data" where
  "OscStats_Open = shm_Open 0xC5C7057C 1"

text \<open>The remaining operations take \<open>pData\<close>, \<open>None\<close> when no segment is mapped.\<close>

definition AddSent :: "u64 \<Rightarrow> stats_data option \<Rightarrow> stats_data option" where
  "AddSent n pd = map_option (\<lambda>d. d\<lparr>packets_sent := packets_sent d + 1, bytes_sent := bytes_sent d + n\<rparr>) pd"

definition AddDropped :: "stats_data option \<Rightarrow> stats_data option" where
  "AddDropped pd = map_option (\<lambda>d. d\<lparr>packets_dropped := packets_dropped d + 1\<rparr>) pd"

definition WriteRoute :: "nat \<Rightarrow> route_args \<Rightarrow> stats_data option \<Rightarrow> stats_data option" where
  "WriteRoute index a pd =
     (case pd of
        None \<Rightarrow> None
      | Some d \<Rightarrow>
          if index \<ge> 32 then Some d
          else Some (d\<lparr>routes := upd_list index (slot_write (route_prog a)) (routes d)\<rparr>))"

record OscRouterStats =
  st_packets_sent :: u64
  st_bytes_sent :: u64
  st_packets_dropped :: u64
  st_active_routes :: u32

definition ReadGlobalStats :: "stats_data option \<Rightarrow> OscRouterStats option" where
  "ReadGlobalStats pd =
     map_option (\<lambda>d.
       \<lparr>st_packets_sent = packets_sent d, st_bytes_sent = bytes_sent d,
        st_packets_dropped = packets_dropped d,
        st_active_routes = word_of_nat (length (filter (\<lambda>s. rr_active (route_view (body s)) \<noteq> 0) (routes d)))\<rparr>) pd"

definition TryReadRoute :: "nat \<Rightarrow> nat \<Rightarrow> stats_data option \<Rightarrow> image option" where
  "TryReadRoute index max_retries pd =
     (case pd of
        None \<Rightarrow> None
      | Some d \<Rightarrow> if index \<ge> 32 then None else slot_read max_retries (routes d ! index))"

definition str_field :: "nat \<Rightarrow> bytes option \<Rightarrow> bytes" where
  "str_field n src = (case src of None \<Rightarrow> [] | Some s \<Rightarrow> copy_str n s)"

lemma length_str_field: "0 < n \<Longrightarrow> length (str_field n src) < n"
  using length_copy_str [of n "the src"] by (cases src) (auto simp: str_field_def)

lemma is_cstr_str_field [simp]: "is_cstr (str_field n src)"
  by (simp add: str_field_def split: option.split)

lemma CopyStrField_put:
  assumes "off + n \<le> length im" "0 < n"
  shows "put_cells (CopyStrField off n src) im =
    take off im @ map CB (str_field n src) @ CB 0 # drop (off + Suc (length (str_field n src))) im"
proof -
  have "CopyStrField off n src = copy_prog off (map CB (str_field n src @ [0]))"
    by (simp add: CopyStrField_def str_field_def split: option.split)
  then show ?thesis
    using assms length_str_field [OF assms(2), of src] put_cells_copy [of off "map CB (str_field n src @ [0])" im]
    by simp
qed

lemma cstr_field: "0 < n \<Longrightarrow> cstr (map cb (take n (map CB (str_field n src) @ CB 0 # rest))) = str_field n src"
  using length_str_field [of n src]
  by (cases "n - length (str_field n src)") (simp_all add: cstr_terminated o_def)

lemma route_view_write:
  assumes "length im = route_cells"
  shows "route_view (put_cells (route_prog a) im) = route_upd (route_view im) a"
proof -
  obtain p l m d t act where a: "a = (p, l, m, d, t, act)" by (metis prod_cases6)
  let ?im1 = "put_cells (CopyStrField 0 64 p) im"
  let ?im2 = "put_cells (CopyStrField 64 32 l) ?im1"
  have len: "length ?im1 = 100" "length ?im2 = 100" using assms by (simp_all add: route_cells_def)
  have 1: "cstr (map cb (take 64 ?im1)) = str_field 64 p"
    using CopyStrField_put [of 0 64 im p] assms cstr_field [of 64 p] by (simp add: route_cells_def)
  have 2: "take 64 ?im2 = take 64 ?im1"
    using CopyStrField_put [of 64 32 ?im1 l] len by simp
  have 3: "cstr (map cb (take 32 (drop 64 ?im2))) = str_field 32 l"
    using CopyStrField_put [of 64 32 ?im1 l] len cstr_field [of 32 l] by simp
  have "put_cells (route_prog a) im =
      ?im2[96 := CW m, 97 := CW d, 98 := CW t, 99 := CB (if act then 1 else 0)]"
    by (simp add: a route_prog_def put_cells_append put_cells_Cons put_cell_def)
  then show ?thesis
    using 1 2 3 len by (simp add: route_view_def route_upd_def a str_field_def drop_update_swap)
qed

interpretation route_slot: snapshot_layout route_cells "\<lambda>_. True" route_prog route_view route_upd
  by unfold_locales (rule route_view_write)

section \<open>InputHealthSnapshotShmem\<close>

text \<open>
  The body is copied as a whole and never touched member by member, so it is its 808 bytes
  (\<open>sizeof(InputHealthSnapshotBody)\<close>).
\<close>

definition ih_size :: nat where "ih_size = 808"

record ih_data = shm_header +
  slot_count :: u32
  publish_tick :: u64
  ih_slots :: "seq_slot list"

definition InputHealth_Create :: "ih_data os_mapping \<Rightarrow> ih_data option" where
  "InputHealth_Create = shm_Create (\<lambda>d. (shm_stamp 0x494E4848 3 d)\<lparr>slot_count := 256\<rparr>)"

definition InputHealth_Open :: "ih_data os_mapping \<Rightarrow> shm_error + ih_data" where
  "InputHealth_Open = shm_Open 0x494E4848 3"

definition SlotCount :: "ih_data option \<Rightarrow> u32" where
  "SlotCount pd = (case pd of None \<Rightarrow> 0 | Some d \<Rightarrow> slot_count d)"

definition BumpPublishTick :: "ih_data option \<Rightarrow> ih_data option" where
  "BumpPublishTick pd = map_option (\<lambda>d. d\<lparr>publish_tick := publish_tick d + 1\<rparr>) pd"

definition LoadPublishTick :: "ih_data option \<Rightarrow> u64" where
  "LoadPublishTick pd = (case pd of None \<Rightarrow> 0 | Some d \<Rightarrow> publish_tick d)"

text \<open>\<open>SlotForWrite\<close> returns the slot by its index; \<open>None\<close> is the null pointer.\<close>

definition SlotForWrite :: "u32 \<Rightarrow> ih_data option \<Rightarrow> nat option" where
  "SlotForWrite index pd =
     (case pd of None \<Rightarrow> None | Some d \<Rightarrow> if index \<ge> slot_count d then None else Some (unat index))"

definition body_prog :: "bytes \<Rightarrow> cell_write list" where
  "body_prog b = copy_prog 0 (map CB b)"

definition body_view :: "image \<Rightarrow> bytes" where
  "body_view im = map cb im"

definition WriteSlot :: "u32 \<Rightarrow> bytes \<Rightarrow> ih_data option \<Rightarrow> ih_data option" where
  "WriteSlot index b pd =
     (case SlotForWrite index pd of
        None \<Rightarrow> pd
      | Some i \<Rightarrow> map_option (\<lambda>d. d\<lparr>ih_slots := upd_list i (slot_write (body_prog b)) (ih_slots d)\<rparr>) pd)"

definition TryReadSlot :: "u32 \<Rightarrow> nat \<Rightarrow> ih_data option \<Rightarrow> bytes option" where
  "TryReadSlot index max_retries pd =
     (case pd of
        None \<Rightarrow> None
      | Some d \<Rightarrow>
          if index \<ge> slot_count d then None
          else map_option body_view (slot_read max_retries (ih_slots d ! unat index)))"

lemma body_view_write:
  "length im = length b \<Longrightarrow> body_view (put_cells (body_prog b) im) = b"
  by (simp add: body_view_def body_prog_def put_cells_copy)

interpretation ih_slot: snapshot_layout ih_size "\<lambda>b. length b = ih_size" body_prog body_view "\<lambda>_ b. b"
  by unfold_locales (simp add: body_view_write)

section \<open>PerfStatsShmem\<close>

text \<open>
  Cells 0-2 \<open>sampleIndex\<close>, \<open>sampleTickMs\<close>, \<open>intervalMs\<close>; 3-66 the 64 bytes of \<open>process\<close>; 67-1090 the sixteen
  64-byte module slots.
\<close>

record perf_sample =
  sampleIndex :: u64
  sampleTickMs :: u64
  intervalMs :: u64
  ps_process :: bytes
  ps_modules :: bytes

type_synonym perf_args = "bytes \<times> bytes \<times> u64 \<times> u64"

definition perf_cells :: nat where "perf_cells = 3 + 64 + 16 * 64"

definition perf_ok :: "perf_args \<Rightarrow> bool" where
  "perf_ok a = (case a of (process, modules, interval, tick) \<Rightarrow> length process = 64 \<and> length modules = 16 * 64)"

definition perf_prog :: "perf_args \<Rightarrow> cell_write list" where
  "perf_prog a =
     (case a of (process, modules, interval, tick) \<Rightarrow>
        [(0, \<lambda>im. CW (cw (im ! 0) + 1)), (1, \<lambda>im. CW tick), (2, \<lambda>im. CW interval)] @
        copy_prog 3 (map CB process) @
        copy_prog 67 (map CB modules))"

definition perf_view :: "image \<Rightarrow> perf_sample" where
  "perf_view im =
     \<lparr>sampleIndex = cw (im ! 0), sampleTickMs = cw (im ! 1), intervalMs = cw (im ! 2),
      ps_process = map cb (take 64 (drop 3 im)), ps_modules = map cb (drop 67 im)\<rparr>"

definition perf_upd :: "perf_sample \<Rightarrow> perf_args \<Rightarrow> perf_sample" where
  "perf_upd old a =
     (case a of (process, modules, interval, tick) \<Rightarrow>
        \<lparr>sampleIndex = sampleIndex old + 1, sampleTickMs = tick, intervalMs = interval,
         ps_process = process, ps_modules = modules\<rparr>)"

record perf_data = shm_header +
  pf_slot :: seq_slot

definition PerfStats_Create :: "perf_data os_mapping \<Rightarrow> perf_data option" where
  "PerfStats_Create =
     shm_Create (\<lambda>d. (shm_stamp 0x50455246 1 d)
       \<lparr>pf_slot := \<lparr>generation = 0, body = replicate 3 (CW 0) @ replicate (64 + 16 * 64) (CB 0)\<rparr>\<rparr>)"

definition PerfStats_Open :: "perf_data os_mapping \<Rightarrow> shm_error + perf_data" where
  "PerfStats_Open = shm_Open 0x50455246 1"

definition PerfStats_Publish :: "perf_args \<Rightarrow> perf_data option \<Rightarrow> perf_data option" where
  "PerfStats_Publish a pd = map_option (\<lambda>d. d\<lparr>pf_slot := slot_write (perf_prog a) (pf_slot d)\<rparr>) pd"

definition PerfStats_TryRead :: "nat \<Rightarrow> perf_data option \<Rightarrow> perf_sample option" where
  "PerfStats_TryRead max_retries pd =
     (case pd of None \<Rightarrow> None | Some d \<Rightarrow> map_option perf_view (slot_read max_retries (pf_slot d)))"

lemma perf_view_write:
  assumes "length im = perf_cells" "perf_ok a"
  shows "perf_view (put_cells (perf_prog a) im) = perf_upd (perf_view im) a"
proof -
  obtain p m i t where a: "a = (p, m, i, t)" by (metis prod_cases4)
  have len: "length p = 64" "length m = 1024" "length im = 1091"
    using assms by (simp_all add: a perf_ok_def perf_cells_def)
  let ?im0 = "im[0 := CW (cw (im ! 0) + 1), 1 := CW t, 2 := CW i]"
  have "put_cells (perf_prog a) im = take 3 ?im0 @ map CB p @ map CB m"
    using len by (simp add: a perf_prog_def put_cells_append put_cells_Cons put_cell_def put_cells_copy)
  then show ?thesis
    using len by (simp add: perf_view_def perf_upd_def a nth_append)
qed

interpretation perf_slot: snapshot_layout perf_cells perf_ok perf_prog perf_view perf_upd
  by unfold_locales (rule perf_view_write)

section \<open>Properties\<close>

lemma route_torn:
  assumes "length im = route_cells"
  shows "\<exists>a ws vs. route_prog a = ws @ vs \<and> route_view (put_cells ws im) \<noteq> route_view im \<and>
    route_view (put_cells ws im) \<noteq> route_upd (route_view im) a"
proof -
  define m d where "m = rr_match (route_view im) + 1" and "d = rr_drop (route_view im) + 1"
  define ws where "ws = CopyStrField 0 64 None @ CopyStrField 64 32 None @ [(96, \<lambda>im. CW m)]"
  define a :: route_args where "a = (None, None, m, d, 0, False)"
  have "route_prog a = ws @ [(97, \<lambda>im. CW d), (98, \<lambda>im. CW 0), (99, \<lambda>im. CB 0)]" by (simp add: a_def ws_def route_prog_def)
  moreover have "put_cells ws im ! 96 = CW m" "put_cells ws im ! 97 = im ! 97"
    using assms by (simp_all add: ws_def route_cells_def CopyStrField_def copy_prog_def put_cells_append put_cells_Cons put_cell_def)
  then have "rr_match (route_view (put_cells ws im)) = m" "rr_drop (route_view (put_cells ws im)) \<noteq> d"
    by (simp_all add: route_view_def d_def)
  moreover have "rr_match (route_view im) \<noteq> m" "rr_drop (route_upd (route_view im) a) = d" by (simp_all add: m_def a_def route_upd_def)
  ultimately show ?thesis by metis
qed

text \<open>C9. When the reader of the router statistics can be trusted. If the generation of the slot is even when driver and overlay attach to it (a
  new segment, or one whose last writer completed), then in every interleaving of the driver storing route rows cell by
  cell with the overlay's \<open>TryReadRoute\<close> loop a row that is returned is the slot after exactly \<open>k\<close> completed \<open>WriteRoute\<close> calls, where \<open>k\<close> is no older than the writes
  that were complete when the accepted attempt began; the bound is the wrap of the 64-bit generation. If it is odd (\<open>Create\<close> keeps
  what a driver that died inside \<open>WriteRoute\<close> left), there is an interleaving in which the first read returns a torn row: neither the old row nor the
  row being written.\<close>

theorem TryReadRoute_torn_iff_odd:
  assumes "length im = route_cells"
  shows "if g AND 1 = 0
    then \<forall>n s out. seq_reach route_prog g im n s \<longrightarrow> m_rd s = RDone out \<longrightarrow> length (m_log s) < 2 ^ 63 \<longrightarrow>
           (\<exists>k. m_from s \<le> k \<and> k \<le> length (m_log s) \<and> route_view out = foldl route_upd (route_view im) (take k (m_log s)))
    else \<exists>s a prev ws out. seq_reach route_prog g im 8 s \<and> m_log s = [] \<and> m_wr s = Some (prev, a, ws) \<and> m_rd s = RDone out \<and>
           route_view out \<noteq> route_view im \<and> route_view out \<noteq> route_upd (route_view im) a"
proof (cases "g AND 1 = 0")
  case True
  then show ?thesis using route_slot.clean_read [OF _ True assms] by simp
next
  case False
  obtain a ws vs where p: "route_prog a = ws @ vs" and t: "route_view (put_cells ws im) \<noteq> route_view im"
      "route_view (put_cells ws im) \<noteq> route_upd (route_view im) a" using route_torn [OF assms] by blast
  obtain s prev where s: "seq_reach route_prog g im (Suc 7) s" "m_log s = []" "m_wr s = Some (prev, a, vs)" "m_rd s = RDone (put_cells ws im)"
    using odd_accepts_partial [of g route_prog a ws vs im 7] False p by blast
  have "\<exists>s a prev ws out. seq_reach route_prog g im 8 s \<and> m_log s = [] \<and> m_wr s = Some (prev, a, ws) \<and> m_rd s = RDone out \<and>
      route_view out \<noteq> route_view im \<and> route_view out \<noteq> route_upd (route_view im) a"
    using s t by (intro exI [of _ s] exI [of _ a] exI [of _ prev] exI [of _ vs] exI [of _ "put_cells ws im"]) simp
  then show ?thesis using False by (simp only: if_False)
qed

theorem TryReadRoute_torn_iff_odd_witness:
  "let im = replicate 100 (CB 0); a = (Some (str ''/avatar/*''), Some (str ''overlay''), 5, 1, 77, True);
       s = seq_demo route_prog im a
   in seq_reach route_prog 0 im 8 s \<and> length im = route_cells \<and>
      (\<exists>k \<ge> 1. k \<le> 1 \<and> route_view (put_cells (route_prog a) im) = foldl route_upd (route_view im) (take k [a])) \<and>
      (\<exists>s out. seq_reach route_prog 5 im 8 s \<and> m_log s = [] \<and> m_rd s = RDone out \<and> route_view out \<noteq> route_view im)"
proof -
  define im where "im = replicate 100 (CB 0)"
  define a :: route_args where "a = (Some (str ''/avatar/*''), Some (str ''overlay''), 5, 1, 77, True)"
  have len: "length im = route_cells" by (simp add: im_def route_cells_def)
  have "\<exists>s out. seq_reach route_prog 5 im 8 s \<and> m_log s = [] \<and> m_rd s = RDone out \<and> route_view out \<noteq> route_view im"
    using TryReadRoute_torn_iff_odd [OF len, of 5] by (auto simp: and_one_even)
  then show ?thesis
    using TryReadRoute_torn_iff_odd [OF len, of 0] seq_demo_reach [of route_prog im a] len
    unfolding Let_def im_def [symmetric] a_def [symmetric] by (force simp: seq_demo_def)
qed

text \<open>The performance sample is published whole: a clean \<open>TryRead\<close> yields the process block, the sixteen
  module slots, the interval and the tick of one and the same \<open>Publish\<close>, and \<open>sampleIndex\<close> counts the
  publishes up to it.\<close>

theorem PerfStats_never_torn:
  assumes "seq_reach perf_prog 0 im n s" and "length im = perf_cells" and "m_rd s = RDone out"
    and "\<forall>a \<in> set (m_log s). perf_ok a" and "length (m_log s) < 2 ^ 63" and "m_from s > 0"
  shows "\<exists>k. m_from s \<le> k \<and> k \<le> length (m_log s) \<and>
             (case m_log s ! (k - 1) of (process, modules, interval, tick) \<Rightarrow>
                perf_view out =
                  \<lparr>sampleIndex = sampleIndex (perf_view im) + word_of_nat k, sampleTickMs = tick,
                   intervalMs = interval, ps_process = process, ps_modules = modules\<rparr>)"
proof -
  obtain k where k: "m_from s \<le> k" "k \<le> length (m_log s)"
      "perf_view out = foldl perf_upd (perf_view im) (take k (m_log s))"
    using perf_slot.clean_read [OF assms(1) _ assms(2-5)] by auto
  have idx: "sampleIndex (foldl perf_upd p as) = sampleIndex p + word_of_nat (length as)" for p as
    by (induction as rule: rev_induct) (auto simp: perf_upd_def split: prod.splits)
  from k(1) assms(6) obtain j where j: "k = Suc j" by (cases k) auto
  then have "take k (m_log s) = take j (m_log s) @ [m_log s ! j]"
    using k(2) by (simp add: take_Suc_conv_app_nth)
  then have "perf_view out = perf_upd (foldl perf_upd (perf_view im) (take j (m_log s))) (m_log s ! j)"
    using k(3) by simp
  then show ?thesis
    using k(1,2) j by (intro exI [of _ k]) (auto simp: perf_upd_def idx min_def split: prod.splits)
qed

theorem PerfStats_never_torn_witness:
  "let im = replicate 3 (CW 0) @ replicate 1088 (CB 0); a = (replicate 64 7, replicate 1024 9, 1000, 123456)
   in perf_ok a \<and> length im = perf_cells \<and>
      (\<exists>k \<ge> 1. k \<le> 1 \<and> sampleIndex (perf_view (put_cells (perf_prog a) im)) =
                   sampleIndex (perf_view im) + word_of_nat k)"
proof -
  define im where "im = replicate 3 (CW 0) @ replicate 1088 (CB 0)"
  define a :: perf_args where "a = (replicate 64 7, replicate 1024 9, 1000, 123456)"
  have len: "length im = perf_cells" "perf_ok a" by (simp_all add: im_def a_def perf_cells_def perf_ok_def)
  let ?s = "seq_demo perf_prog im a"
  have s: "m_rd ?s = RDone (put_cells (perf_prog a) im)" "\<forall>a \<in> set (m_log ?s). perf_ok a"
      "length (m_log ?s) < 2 ^ 63" "0 < m_from ?s" "m_log ?s = [a]" "m_from ?s = 1"
    using len(2) by (simp_all add: seq_demo_def)
  obtain k p m i t where k: "1 \<le> k" "k \<le> 1" and "perf_view (put_cells (perf_prog a) im) =
      \<lparr>sampleIndex = sampleIndex (perf_view im) + word_of_nat k, sampleTickMs = t,
       intervalMs = i, ps_process = p, ps_modules = m\<rparr>"
    using PerfStats_never_torn [OF seq_demo_reach len(1) s(1-4)] unfolding s(5,6)
    by (cases a) fastforce
  then have "sampleIndex (perf_view (put_cells (perf_prog a) im)) = sampleIndex (perf_view im) + word_of_nat k"
    by simp
  with k len show ?thesis unfolding Let_def im_def [symmetric] a_def [symmetric] by blast
qed

text \<open>A driver that dies between the two generation stores of \<open>WriteSlot\<close> leaves the slot unreadable for
  good while the segment lives on: \<open>Create\<close> keeps the odd generation, every later \<open>WriteSlot\<close> moves it
  from odd to odd, and \<open>TryReadSlot\<close> refuses the slot after every one of them.\<close>

theorem WriteSlot_after_crash:
  assumes "length (ih_slots d) = 256" and "i < 256" and "generation (ih_slots d ! unat i) AND 1 = 0"
    and "d' = d\<lparr>ih_slots := upd_list (unat i) (slot_crash k (body_prog b)) (ih_slots d)\<rparr>"
  shows "TryReadSlot i n ((WriteSlot i b' ^^ m) (InputHealth_Create (Mapped d'))) = None"
proof -
  have i: "unat i < 256" using assms(2) by unat_arith
  have run: "(WriteSlot i b' ^^ m) (InputHealth_Create (Mapped d')) =
      Some ((shm_stamp 0x494E4848 3 d')\<lparr>slot_count := 256,
        ih_slots := upd_list (unat i) (slot_write (body_prog b') ^^ m) (ih_slots d')\<rparr>)" for m
  proof (induction m)
    case 0
    then show ?case
      by (simp add: InputHealth_Create_def shm_Create_def upd_list_def shm_stamp_def)
  next
    case (Suc m)
    then show ?case
      using assms(1,2) i by (simp add: WriteSlot_def SlotForWrite_def upd_list_def assms(4))
  qed
  have "ih_slots d' ! unat i = slot_crash k (body_prog b) (ih_slots d ! unat i)"
    using assms(1,4) i by (simp add: nth_upd_list)
  then show ?thesis
    using slot_crash_inverts [OF assms(3), where n = n and ws = "body_prog b'" and m = m and k = k and vs = "body_prog b"] assms(1,2,4) i
    unfolding run by (simp add: TryReadSlot_def nth_upd_list)
qed

theorem WriteSlot_after_crash_witness:
  "let d = \<lparr>magic = 0, shmem_version = 0, slot_count = 256, publish_tick = 9,
            ih_slots = replicate 256 \<lparr>generation = 4, body = replicate 808 (CB 0)\<rparr>\<rparr>;
       d' = d\<lparr>ih_slots := upd_list 3 (slot_crash 10 (body_prog (replicate 808 1))) (ih_slots d)\<rparr>
   in TryReadSlot 3 8 (WriteSlot 3 (replicate 808 2) (InputHealth_Create (Mapped d'))) = None"
  using WriteSlot_after_crash [of "\<lparr>magic = 0, shmem_version = 0, slot_count = 256, publish_tick = 9,
      ih_slots = replicate 256 \<lparr>generation = 4, body = replicate 808 (CB 0)\<rparr>\<rparr>" 3 _ 10 "replicate 808 1"
      8 1 "replicate 808 2"]
  by (simp add: Let_def)

end
