(* ===== verification/RouteTable.thy ===== *)
theory RouteTable
  imports OscPattern Snapshots
begin

text \<open>
  The route table of the OSC router (\<open>modules/oscrouter/src/driver/RouteTable.h\<close> and \<open>RouteTable.cpp\<close>): 32
  entries, each a subscriber's pattern with its counters. The table refines a finite map from
  subscriber ids to routes; what a client may rely on is the interface \<open>route_store\<close>, and the table
  is its interpretation.
\<close>

section \<open>The table\<close>

text \<open>
  Patterns and labels are kept as the C strings the \<open>char\<close> arrays hold. Each method runs under the
  table's mutex or, for \<open>Dispatch\<close> and \<open>BumpDropCount\<close>, on the send worker alone; here each is one
  step. The counters are atomics and wrap at 64 bits.
\<close>

record RouteEntry =
  subscriber_id :: u32
  re_pattern :: bytes
  subscriber_label :: bytes
  match_count :: u64
  drop_count :: u64
  last_match_tick :: u64
  active :: bool

definition kMaxRoutes :: nat where "kMaxRoutes = 32"

text \<open>
  A new table: the counters and \<open>active\<close> have initialisers, the other members hold whatever the
  memory held.
\<close>

definition RouteTable_new :: "RouteEntry list \<Rightarrow> RouteEntry list" where
  "RouteTable_new raw =
     map (\<lambda>e. e\<lparr>match_count := 0, drop_count := 0, last_match_tick := 0, active := False\<rparr>) raw"

definition FindSlot :: "u32 \<Rightarrow> RouteEntry list \<Rightarrow> nat option" where
  "FindSlot sid es = first_index (\<lambda>e. active e \<and> subscriber_id e = sid) es"

definition FindFreeSlot :: "RouteEntry list \<Rightarrow> nat option" where
  "FindFreeSlot es = first_index (\<lambda>e. \<not> active e) es"

definition fill_entry :: "u32 \<Rightarrow> bytes \<Rightarrow> bytes \<Rightarrow> RouteEntry \<Rightarrow> RouteEntry" where
  "fill_entry sid pattern label e =
     e\<lparr>subscriber_id := sid, re_pattern := copy_str 64 pattern, subscriber_label := copy_str 32 label,
       match_count := 0, drop_count := 0, last_match_tick := 0, active := True\<rparr>"

definition Subscribe :: "u32 \<Rightarrow> bytes \<Rightarrow> bytes \<Rightarrow> RouteEntry list \<Rightarrow> RouteEntry list \<times> bool" where
  "Subscribe sid pattern label es =
     (case (case FindSlot sid es of Some i \<Rightarrow> Some i | None \<Rightarrow> FindFreeSlot es) of
        None \<Rightarrow> (es, False)
      | Some slot \<Rightarrow> (upd_list slot (fill_entry sid pattern label) es, True))"

definition Unsubscribe :: "u32 \<Rightarrow> RouteEntry list \<Rightarrow> RouteEntry list" where
  "Unsubscribe sid es =
     (case FindSlot sid es of
        Some slot \<Rightarrow> upd_list slot (\<lambda>e. e\<lparr>active := False\<rparr>) es
      | None \<Rightarrow> es)"

definition entry_matches :: "bytes \<Rightarrow> RouteEntry \<Rightarrow> bool" where
  "entry_matches address e \<longleftrightarrow> active e \<and> OscPatternMatch (Some (re_pattern e)) (Some address)"

text \<open>The loop over the entries; the second component is \<open>matched_out\<close>.\<close>

fun Dispatch :: "bytes \<Rightarrow> u64 \<Rightarrow> RouteEntry list \<Rightarrow> RouteEntry list \<times> bool" where
  "Dispatch address qpc_tick [] = ([], False)"
| "Dispatch address qpc_tick (e # es) =
     (let (es', matched_out) = Dispatch address qpc_tick es
      in if entry_matches address e
         then (e\<lparr>match_count := match_count e + 1, last_match_tick := qpc_tick\<rparr> # es', True)
         else (e # es', matched_out))"

definition BumpDropCount :: "bytes \<Rightarrow> RouteEntry list \<Rightarrow> RouteEntry list" where
  "BumpDropCount address es =
     map (\<lambda>e. if entry_matches address e then e\<lparr>drop_count := drop_count e + 1\<rparr> else e) es"

definition ActiveCount :: "RouteEntry list \<Rightarrow> u32" where
  "ActiveCount es = foldl (\<lambda>n e. if active e then n + 1 else n) 0 es"

text \<open>
  The snapshot of an entry. For an inactive entry the members of \<open>Snap\<close> other than \<open>active\<close> are never
  assigned: \<open>junk\<close> is what the stack held, and its counters are passed on.
\<close>

definition snap_args :: "(u64 \<times> u64 \<times> u64) \<Rightarrow> RouteEntry \<Rightarrow> route_args" where
  "snap_args junk e =
     (if active e
      then (Some (re_pattern e), Some (subscriber_label e), match_count e, drop_count e, last_match_tick e, True)
      else (Some [], Some [], fst junk, fst (snd junk), snd (snd junk), False))"

definition PublishToShmem ::
  "(nat \<Rightarrow> u64 \<times> u64 \<times> u64) \<Rightarrow> RouteEntry list \<Rightarrow> stats_data option \<Rightarrow> stats_data option" where
  "PublishToShmem junk es pd =
     fold (\<lambda>i. WriteRoute i (snap_args (junk i) (es ! i))) [0..<kMaxRoutes] pd"

section \<open>What the table stands for\<close>

record route =
  rt_pattern :: bytes
  rt_label :: bytes
  rt_match :: u64
  rt_drop :: u64
  rt_tick :: u64

type_synonym routes_map = "u32 \<Rightarrow> route option"

definition route_of :: "RouteEntry \<Rightarrow> route" where
  "route_of e =
     \<lparr>rt_pattern = re_pattern e, rt_label = subscriber_label e, rt_match = match_count e,
      rt_drop = drop_count e, rt_tick = last_match_tick e\<rparr>"

definition routes_abs :: "RouteEntry list \<Rightarrow> routes_map" where
  "routes_abs es sid = map_option (\<lambda>i. route_of (es ! i)) (FindSlot sid es)"

definition active_ids :: "RouteEntry list \<Rightarrow> u32 list" where
  "active_ids es = map subscriber_id (filter active es)"

definition entry_ok :: "RouteEntry \<Rightarrow> bool" where
  "entry_ok e \<longleftrightarrow> (active e \<longrightarrow> is_cstr (re_pattern e) \<and> length (re_pattern e) < 64 \<and>
                             is_cstr (subscriber_label e) \<and> length (subscriber_label e) < 32)"

definition table_inv :: "RouteEntry list \<Rightarrow> bool" where
  "table_inv es \<longleftrightarrow> length es = kMaxRoutes \<and> distinct (active_ids es) \<and> (\<forall>e \<in> set es. entry_ok e)"

definition spec_subscribe :: "u32 \<Rightarrow> bytes \<Rightarrow> bytes \<Rightarrow> routes_map \<Rightarrow> routes_map \<times> bool" where
  "spec_subscribe sid pattern label m =
     (if sid \<in> dom m \<or> card (dom m) < kMaxRoutes
      then (m(sid \<mapsto> \<lparr>rt_pattern = copy_str 64 pattern, rt_label = copy_str 32 label,
                     rt_match = 0, rt_drop = 0, rt_tick = 0\<rparr>), True)
      else (m, False))"

definition route_hit :: "bytes \<Rightarrow> route \<Rightarrow> bool" where
  "route_hit address r \<longleftrightarrow> OscPatternMatch (Some (rt_pattern r)) (Some address)"

definition spec_dispatch :: "bytes \<Rightarrow> u64 \<Rightarrow> routes_map \<Rightarrow> routes_map" where
  "spec_dispatch address t m =
     (\<lambda>sid. map_option (\<lambda>r. if route_hit address r then r\<lparr>rt_match := rt_match r + 1, rt_tick := t\<rparr> else r) (m sid))"

definition spec_drop :: "bytes \<Rightarrow> routes_map \<Rightarrow> routes_map" where
  "spec_drop address m =
     (\<lambda>sid. map_option (\<lambda>r. if route_hit address r then r\<lparr>rt_drop := rt_drop r + 1\<rparr> else r) (m sid))"

subsection \<open>The linear search is a lookup\<close>

definition assoc :: "RouteEntry list \<Rightarrow> (u32 \<times> route) list" where
  "assoc es = map (\<lambda>e. (subscriber_id e, route_of e)) (filter active es)"

lemma assoc_append [simp]: "assoc (xs @ ys) = assoc xs @ assoc ys"
  by (simp add: assoc_def)

lemma assoc_Cons: "assoc (e # es) = (if active e then (subscriber_id e, route_of e) # assoc es else assoc es)"
  by (simp add: assoc_def)

lemma assoc_Nil [simp]: "assoc [] = []"
  by (simp add: assoc_def)

lemma active_ids_simps [simp]:
  "active_ids [] = []"
  "active_ids (xs @ ys) = active_ids xs @ active_ids ys"
  "active_ids (e # es) = (if active e then subscriber_id e # active_ids es else active_ids es)"
  by (simp_all add: active_ids_def)

lemma fst_assoc [simp]: "map fst (assoc es) = active_ids es"
  by (simp add: assoc_def active_ids_def)

lemma routes_abs_map_of: "routes_abs es = map_of (assoc es)"
proof
  fix sid
  show "routes_abs es sid = map_of (assoc es) sid"
  proof (induction es)
    case (Cons e es)
    then show ?case
      by (auto simp: routes_abs_def FindSlot_def assoc_Cons option.map_comp o_def)
  qed (simp add: routes_abs_def FindSlot_def assoc_def)
qed

lemma dom_routes_abs: "dom (routes_abs es) = set (active_ids es)"
  by (simp add: routes_abs_map_of dom_map_of_conv_image_fst flip: fst_assoc)

lemma FindSlot_split:
  assumes "FindSlot sid es = Some i"
  obtains xs e ys where "es = xs @ e # ys" "length xs = i" "active e" "subscriber_id e = sid"
    "sid \<notin> fst ` set (assoc xs)"
proof
  show "es = take i es @ es ! i # drop (Suc i) es"
    using assms by (auto simp: FindSlot_def first_index_Some id_take_nth_drop)
  show "sid \<notin> fst ` set (assoc (take i es))"
    using assms by (fastforce simp: FindSlot_def first_index_Some assoc_def in_set_conv_nth)
qed (use assms in \<open>auto simp: FindSlot_def first_index_Some\<close>)

lemma FindFreeSlot_split:
  assumes "FindFreeSlot es = Some i"
  obtains xs e ys where "es = xs @ e # ys" "length xs = i" "\<not> active e"
proof
  show "es = take i es @ es ! i # drop (Suc i) es"
    using assms by (auto simp: FindFreeSlot_def first_index_Some id_take_nth_drop)
qed (use assms in \<open>auto simp: FindFreeSlot_def first_index_Some\<close>)

lemma upd_list_split [simp]: "length xs = i \<Longrightarrow> upd_list i f (xs @ e # ys) = xs @ f e # ys"
  by (auto simp: upd_list_def)

lemma map_of_mid:
  "k \<notin> fst ` set xs \<Longrightarrow> m(k \<mapsto> v) ++ map_of xs = (m ++ map_of xs)(k \<mapsto> v)"
  by (simp add: map_add_upd_left dom_map_of_conv_image_fst)

lemma FindSlot_None: "FindSlot sid es = None \<longleftrightarrow> sid \<notin> set (active_ids es)"
  by (auto simp: FindSlot_def active_ids_def)

lemma FindFreeSlot_None:
  assumes "length es = kMaxRoutes" "distinct (active_ids es)"
  shows "FindFreeSlot es = None \<longleftrightarrow> \<not> card (dom (routes_abs es)) < kMaxRoutes"
proof -
  have "card (dom (routes_abs es)) = length (filter active es)"
    using distinct_card [OF assms(2)] by (simp add: dom_routes_abs) (simp add: active_ids_def)
  moreover have "FindFreeSlot es = None \<longleftrightarrow> length (filter active es) = length es"
    by (metis (no_types, lifting) FindFreeSlot_def filter_id_conv first_index_None length_filter_less less_irrefl)
  ultimately show ?thesis using assms(1) length_filter_le [of active es] by auto
qed

subsection \<open>The operations refine the map\<close>

lemma RouteTable_new_inv: "length raw = kMaxRoutes \<Longrightarrow> table_inv (RouteTable_new raw)"
  by (auto simp: table_inv_def RouteTable_new_def active_ids_def entry_ok_def filter_map o_def)

lemma RouteTable_new_abs: "routes_abs (RouteTable_new raw) = Map.empty"
  by (simp add: routes_abs_map_of assoc_def RouteTable_new_def filter_map o_def)

lemma Subscribe_cases:
  assumes "table_inv es"
  obtains (full) "Subscribe sid p l es = (es, False)" "sid \<notin> dom (routes_abs es)"
      "\<not> card (dom (routes_abs es)) < kMaxRoutes"
  | (fill) xs e ys where "es = xs @ e # ys" "Subscribe sid p l es = (xs @ fill_entry sid p l e # ys, True)"
      "sid \<notin> set (active_ids xs)" "sid \<notin> set (active_ids ys)" "active e \<Longrightarrow> subscriber_id e = sid"
      "sid \<in> dom (routes_abs es) \<or> card (dom (routes_abs es)) < kMaxRoutes"
proof (cases "FindSlot sid es")
  case (Some i)
  from FindSlot_split [OF Some] obtain xs e ys where es: "es = xs @ e # ys" "length xs = i" "active e"
      "subscriber_id e = sid" by metis
  have "distinct (active_ids (xs @ e # ys))" using assms es by (simp add: table_inv_def)
  with es Some show ?thesis
    by (intro fill [of xs e ys]) (auto simp: Subscribe_def dom_routes_abs active_ids_def)
next
  case None
  then have new: "sid \<notin> set (active_ids es)" by (simp add: FindSlot_None)
  show ?thesis
  proof (cases "FindFreeSlot es")
    case None2: None
    then show ?thesis
      using full None new assms by (simp add: Subscribe_def dom_routes_abs table_inv_def FindFreeSlot_None)
  next
    case (Some i)
    from FindFreeSlot_split [OF Some] obtain xs e ys where es: "es = xs @ e # ys" "length xs = i" "\<not> active e"
      by metis
    have "card (dom (routes_abs es)) < kMaxRoutes"
      using assms FindFreeSlot_None [of es] Some by (simp add: table_inv_def)
    with es None Some new show ?thesis
      by (intro fill [of xs e ys]) (auto simp: Subscribe_def active_ids_def)
  qed
qed

lemma fst_set_assoc: "fst ` set (assoc es) = set (active_ids es)"
  by (simp flip: fst_assoc)

lemma Subscribe_refines:
  assumes "table_inv es"
  shows "(routes_abs (fst (Subscribe sid p l es)), snd (Subscribe sid p l es)) =
         spec_subscribe sid p l (routes_abs es)"
  using assms
proof (cases rule: Subscribe_cases [where sid = sid and p = p and l = l])
  case full
  then show ?thesis by (simp add: spec_subscribe_def)
next
  case (fill xs e ys)
  have "routes_abs es = map_of (assoc xs @ assoc [e] @ assoc ys)"
    by (simp add: fill(1) routes_abs_map_of assoc_Cons)
  moreover have "map_of (assoc xs @ (sid, r) # assoc ys) = (map_of (assoc xs @ assoc [e] @ assoc ys))(sid \<mapsto> r)" for r
    using fill(3,5) by (auto simp: map_of_mid fst_set_assoc assoc_Cons assoc_def [of "[]"])
  ultimately show ?thesis
    using fill(2,6)
    by (simp add: spec_subscribe_def routes_abs_map_of assoc_Cons fill_entry_def route_of_def)
qed

lemma Subscribe_inv [inv_intros]:
  assumes "table_inv es"
  shows "table_inv (fst (Subscribe sid p l es))"
  using assms
proof (cases rule: Subscribe_cases [where sid = sid and p = p and l = l])
  case (fill xs e ys)
  have "distinct (active_ids (xs @ fill_entry sid p l e # ys))"
    using assms fill(1,3,4) by (auto simp: table_inv_def fill_entry_def split: if_splits)
  moreover have "entry_ok (fill_entry sid p l e)"
    using length_copy_str [of 64 p] length_copy_str [of 32 l] by (simp add: entry_ok_def fill_entry_def)
  ultimately show ?thesis using assms fill by (auto simp: table_inv_def)
qed (use assms in simp)

lemma Unsubscribe_refines:
  assumes "table_inv es"
  shows "routes_abs (Unsubscribe sid es) = (routes_abs es)(sid := None)" and "table_inv (Unsubscribe sid es)"
proof -
  have "routes_abs (Unsubscribe sid es) = (routes_abs es)(sid := None) \<and> table_inv (Unsubscribe sid es)"
  proof (cases "FindSlot sid es")
    case None
    then have "Unsubscribe sid es = es" "routes_abs es sid = None"
      by (simp_all add: Unsubscribe_def routes_abs_def del: first_index_None)
    then show ?thesis using assms by (simp add: fun_upd_idem)
  next
    case (Some i)
    from FindSlot_split [OF Some] obtain xs e ys where es: "es = xs @ e # ys" "length xs = i" "active e"
        "subscriber_id e = sid" by metis
    have d: "distinct (active_ids (xs @ e # ys))" using assms es by (simp add: table_inv_def)
    then have keys: "sid \<notin> fst ` set (assoc xs)" "sid \<notin> fst ` set (assoc ys)"
      using es by (auto simp: fst_set_assoc active_ids_def)
    have U: "Unsubscribe sid es = xs @ e\<lparr>active := False\<rparr> # ys" using Some es by (simp add: Unsubscribe_def)
    have "map_of (assoc xs @ assoc ys) sid = None"
      using keys by (auto simp: map_of_eq_None_iff map_add_def split: option.split)
    then have "routes_abs (Unsubscribe sid es) = (routes_abs es)(sid := None)"
      unfolding U unfolding es(1) routes_abs_map_of using es(3,4) keys(1)
      by (auto simp: assoc_Cons map_of_mid fun_eq_iff)
    moreover have "table_inv (Unsubscribe sid es)"
      using assms d unfolding U unfolding es(1) by (auto simp: table_inv_def entry_ok_def split: if_splits)
    ultimately show ?thesis by simp
  qed
  then show "routes_abs (Unsubscribe sid es) = (routes_abs es)(sid := None)" "table_inv (Unsubscribe sid es)"
    by simp_all
qed

definition bump_match :: "bytes \<Rightarrow> u64 \<Rightarrow> RouteEntry \<Rightarrow> RouteEntry" where
  "bump_match a t e =
     (if entry_matches a e then e\<lparr>match_count := match_count e + 1, last_match_tick := t\<rparr> else e)"

lemma Dispatch_map: "Dispatch a t es = (map (bump_match a t) es, \<exists>e \<in> set es. entry_matches a e)"
  by (induction es) (auto simp: bump_match_def Let_def)

text \<open>A change of counters alone keeps ids, patterns and activity, so it maps over the routes.\<close>

lemma map_entries_refine:
  assumes "\<And>e. active (f e) = active e" "\<And>e. subscriber_id (f e) = subscriber_id e"
    "\<And>e. active e \<Longrightarrow> route_of (f e) = g (route_of e)"
  shows "routes_abs (map f es) = (\<lambda>sid. map_option g (routes_abs es sid))"
proof -
  have "assoc (map f es) = map (\<lambda>(k, r). (k, g r)) (assoc es)"
    using assms by (induction es) (auto simp: assoc_Cons)
  then show ?thesis by (simp add: routes_abs_map_of map_of_map fun_eq_iff)
qed

lemma map_entries_inv:
  assumes "\<And>e. active (f e) = active e" "\<And>e. subscriber_id (f e) = subscriber_id e"
    "\<And>e. re_pattern (f e) = re_pattern e" "\<And>e. subscriber_label (f e) = subscriber_label e"
  shows "table_inv es \<Longrightarrow> table_inv (map f es)"
proof -
  have "active_ids (map f es) = active_ids es" using assms by (induction es) auto
  then show "table_inv es \<Longrightarrow> table_inv (map f es)"
    using assms by (auto simp: table_inv_def entry_ok_def)
qed

lemma Dispatch_refines: "routes_abs (fst (Dispatch a t es)) = spec_dispatch a t (routes_abs es)"
  unfolding Dispatch_map fst_conv spec_dispatch_def
  by (rule map_entries_refine) (simp_all add: bump_match_def route_of_def entry_matches_def route_hit_def)

lemma Dispatch_inv [inv_intros]: "table_inv es \<Longrightarrow> table_inv (fst (Dispatch a t es))"
  unfolding Dispatch_map fst_conv by (rule map_entries_inv) (simp_all add: bump_match_def)

lemma BumpDropCount_refines: "routes_abs (BumpDropCount a es) = spec_drop a (routes_abs es)"
  unfolding BumpDropCount_def spec_drop_def
  by (rule map_entries_refine) (simp_all add: route_of_def entry_matches_def route_hit_def)

lemma BumpDropCount_inv [inv_intros]: "table_inv es \<Longrightarrow> table_inv (BumpDropCount a es)"
  unfolding BumpDropCount_def by (rule map_entries_inv) simp_all

lemma Dispatch_matched:
  assumes "table_inv es"
  shows "snd (Dispatch a t es) \<longleftrightarrow> (\<exists>sid r. routes_abs es sid = Some r \<and> route_hit a r)"
proof -
  have "(\<exists>sid r. routes_abs es sid = Some r \<and> route_hit a r) \<longleftrightarrow> (\<exists>(sid, r) \<in> set (assoc es). route_hit a r)"
    using assms by (auto simp: routes_abs_map_of table_inv_def simp flip: fst_assoc dest: map_of_SomeD)
  then show ?thesis
    by (auto simp: Dispatch_map assoc_def entry_matches_def route_hit_def route_of_def)
qed

section \<open>The interface of a route store\<close>

datatype route_op =
    OpSubscribe u32 bytes bytes
  | OpUnsubscribe u32
  | OpDispatch bytes u64
  | OpDrop bytes

text \<open>One operation of the table, and the same on the map of routes.\<close>

fun table_op :: "route_op \<Rightarrow> RouteEntry list \<Rightarrow> RouteEntry list" where
  "table_op (OpSubscribe s p l) es = fst (Subscribe s p l es)"
| "table_op (OpUnsubscribe s) es = Unsubscribe s es"
| "table_op (OpDispatch a t) es = fst (Dispatch a t es)"
| "table_op (OpDrop a) es = BumpDropCount a es"

fun map_op :: "route_op \<Rightarrow> routes_map \<Rightarrow> routes_map" where
  "map_op (OpSubscribe s p l) m = fst (spec_subscribe s p l m)"
| "map_op (OpUnsubscribe s) m = m(s := None)"
| "map_op (OpDispatch a t) m = spec_dispatch a t m"
| "map_op (OpDrop a) m = spec_drop a m"

text \<open>An operation that leaves the subscription of \<open>s\<close> alone.\<close>

fun spares :: "u32 \<Rightarrow> route_op \<Rightarrow> bool" where
  "spares s (OpSubscribe s' p l) \<longleftrightarrow> s' \<noteq> s"
| "spares s (OpUnsubscribe s') \<longleftrightarrow> s' \<noteq> s"
| "spares s _ \<longleftrightarrow> True"

fun hits :: "bytes \<Rightarrow> route_op \<Rightarrow> bool" where
  "hits pat (OpDispatch a t) \<longleftrightarrow> OscPatternMatch (Some pat) (Some a)"
| "hits pat _ \<longleftrightarrow> False"

fun drops :: "bytes \<Rightarrow> route_op \<Rightarrow> bool" where
  "drops pat (OpDrop a) \<longleftrightarrow> OscPatternMatch (Some pat) (Some a)"
| "drops pat _ \<longleftrightarrow> False"

lemma spec_subscribe_other: "s \<noteq> s' \<Longrightarrow> fst (spec_subscribe s' p l m) s = m s"
  by (simp add: spec_subscribe_def)

locale route_store =
  fixes inv :: "'t \<Rightarrow> bool"
    and view :: "'t \<Rightarrow> routes_map"
    and exec :: "route_op \<Rightarrow> 't \<Rightarrow> 't"
  assumes inv_exec: "inv t \<Longrightarrow> inv (exec op t)"
    and view_exec: "inv t \<Longrightarrow> view (exec op t) = map_op op (view t)"
begin

lemma run: "inv t \<Longrightarrow> inv (fold exec ops t) \<and> view (fold exec ops t) = fold map_op ops (view t)"
  by (induction ops arbitrary: t) (simp_all add: inv_exec view_exec)

text \<open>From one subscription to the next, the counters of a route count exactly its matches.\<close>

lemma counters:
  assumes "inv t" and "view t s = Some r" and "\<forall>op \<in> set ops. spares s op"
  shows "\<exists>r'. view (fold exec ops t) s = Some r' \<and> rt_pattern r' = rt_pattern r \<and>
    rt_match r' = rt_match r + word_of_nat (length (filter (hits (rt_pattern r)) ops)) \<and>
    rt_drop r' = rt_drop r + word_of_nat (length (filter (drops (rt_pattern r)) ops))"
  using assms
proof (induction ops arbitrary: t r)
  case (Cons op ops)
  obtain r1 where r1: "view (exec op t) s = Some r1" "rt_pattern r1 = rt_pattern r"
      "rt_match r1 = rt_match r + (if hits (rt_pattern r) op then 1 else 0)"
      "rt_drop r1 = rt_drop r + (if drops (rt_pattern r) op then 1 else 0)"
    using Cons.prems
    by (cases op) (auto simp: view_exec spec_subscribe_other spec_dispatch_def spec_drop_def route_hit_def)
  from Cons.IH [OF inv_exec [OF Cons.prems(1), of op] r1(1)] Cons.prems(3) r1(2-4) show ?case
    by (auto simp: add.assoc)
qed simp

end

interpretation table: route_store table_inv routes_abs table_op
proof
  fix t op
  assume "table_inv t"
  then show "table_inv (table_op op t)" "routes_abs (table_op op t) = map_op op (routes_abs t)"
    using Subscribe_refines [of t]
    by (cases op; force simp: Unsubscribe_refines Dispatch_refines BumpDropCount_refines prod_eq_iff
        intro: inv_intros)+
qed

subsection \<open>Publishing the table\<close>

definition stats_ok :: "stats_data \<Rightarrow> bool" where
  "stats_ok d \<longleftrightarrow> length (routes d) = 32 \<and> (\<forall>s \<in> set (routes d). length (body s) = route_cells)"

lemma publish_prefix:
  assumes "stats_ok d" "n \<le> 32"
  shows "fold (\<lambda>i. WriteRoute i (args i)) [0..<n] (Some d) =
    Some (d\<lparr>routes := map (\<lambda>i. slot_write (route_prog (args i)) (routes d ! i)) [0..<n] @ drop n (routes d)\<rparr>)"
  using assms(2)
proof (induction n)
  case (Suc n)
  have l: "length (routes d) = 32" using assms(1) by (simp add: stats_ok_def)
  have "drop n (routes d) = routes d ! n # drop (Suc n) (routes d)" using Suc.prems l by (simp add: Cons_nth_drop_Suc)
  then show ?case using Suc l by (simp add: WriteRoute_def upd_list_def nth_append list_update_append)
qed simp

section \<open>Properties\<close>

text \<open>C6. The 32-entry table implements a finite map from subscriber ids to routes: after any sequence of
  \<open>Subscribe\<close>, \<open>Unsubscribe\<close>, \<open>Dispatch\<close> and \<open>BumpDropCount\<close> calls on a new table, looking ids up in it
  gives what the same operations do to the empty map, and the table invariant (distinct active
  ids, terminated patterns and labels) holds.\<close>

theorem RouteTable_refines_map:
  assumes "length raw = kMaxRoutes"
  shows "table_inv (fold table_op ops (RouteTable_new raw)) \<and>
         routes_abs (fold table_op ops (RouteTable_new raw)) = fold map_op ops Map.empty"
  using table.run [OF RouteTable_new_inv [OF assms]] by (simp add: RouteTable_new_abs)

definition demo_raw :: "RouteEntry list" where
  "demo_raw = replicate 32 \<lparr>subscriber_id = 9, re_pattern = [1, 0, 7], subscriber_label = [], match_count = 3,
     drop_count = 3, last_match_tick = 3, active = True\<rparr>"

theorem RouteTable_refines_map_witness:
  "length demo_raw = kMaxRoutes \<and>
   rt_pattern (the (routes_abs (fold table_op [OpSubscribe 9 (str ''/a/*'') (str ''ui'')] (RouteTable_new demo_raw)) 9)) =
     str ''/a/*''"
proof -
  have len: "length demo_raw = kMaxRoutes" by (simp add: demo_raw_def kMaxRoutes_def)
  have c: "copy_str 64 (str ''/a/*'') = str ''/a/*''" by code_simp
  show ?thesis
    using RouteTable_refines_map [OF len, of "[OpSubscribe 9 (str ''/a/*'') (str ''ui'')]"] len
    by (simp add: spec_subscribe_def kMaxRoutes_def c)
qed

text \<open>C7. The counters of a route are exact. From the moment a subscription is accepted until the subscriber
  subscribes or unsubscribes again, its \<open>match_count\<close> is the number of dispatched addresses its
  pattern matches and its \<open>drop_count\<close> the number of dropped ones, modulo the 64 bits of the counters,
  no matter what happens to other subscribers.\<close>

theorem route_counters_exact:
  assumes "table_inv es" and "Subscribe sid pat label es = (es', True)" and "\<forall>op \<in> set ops. spares sid op"
  shows "\<exists>r. routes_abs (fold table_op ops es') sid = Some r \<and> rt_pattern r = copy_str 64 pat \<and>
             rt_match r = word_of_nat (length (filter (hits (copy_str 64 pat)) ops)) \<and>
             rt_drop r = word_of_nat (length (filter (drops (copy_str 64 pat)) ops))"
proof -
  have inv: "table_inv es'" using Subscribe_inv [OF assms(1), of sid pat label] assms(2) by simp
  have "routes_abs es' sid = Some \<lparr>rt_pattern = copy_str 64 pat, rt_label = copy_str 32 label,
      rt_match = 0, rt_drop = 0, rt_tick = 0\<rparr>"
    using Subscribe_refines [OF assms(1), of sid pat label] assms(2)
    by (auto simp: spec_subscribe_def split: if_splits)
  from table.counters [OF inv this assms(3)] show ?thesis by simp
qed

theorem route_counters_exact_witness:
  "\<exists>r. routes_abs (fold table_op [OpDispatch (str ''/a/x'') 5, OpSubscribe 4 (str ''*'') [], OpDispatch (str ''/b'') 6]
         (fst (Subscribe 9 (str ''/a/*'') (str ''ui'') (RouteTable_new demo_raw)))) 9 = Some r \<and> rt_match r = 1"
proof -
  have inv: "table_inv (RouteTable_new demo_raw)"
    by (rule RouteTable_new_inv) (simp add: demo_raw_def kMaxRoutes_def)
  have sub: "Subscribe 9 (str ''/a/*'') (str ''ui'') (RouteTable_new demo_raw) =
      (fst (Subscribe 9 (str ''/a/*'') (str ''ui'') (RouteTable_new demo_raw)), True)"
    using Subscribe_refines [OF inv, of 9 "str ''/a/*''" "str ''ui''"]
    by (simp add: RouteTable_new_abs spec_subscribe_def kMaxRoutes_def prod_eq_iff)
  have hit: "length (filter (hits (copy_str 64 (str ''/a/*'')))
      [OpDispatch (str ''/a/x'') 5, OpSubscribe 4 (str ''*'') [], OpDispatch (str ''/b'') 6]) = 1"
    by code_simp
  show ?thesis
    using route_counters_exact [OF inv sub, of "[OpDispatch (str ''/a/x'') 5, OpSubscribe 4 (str ''*'') [],
      OpDispatch (str ''/b'') 6]"] unfolding hit by auto
qed

text \<open>\<open>Subscribe\<close> fails exactly when all 32 entries are in use and none of them belongs to the subscriber,
  and then it changes nothing.\<close>

theorem Subscribe_fails_iff_full:
  "Subscribe sid pat label es = (es, False) \<longleftrightarrow> (\<forall>e \<in> set es. active e \<and> subscriber_id e \<noteq> sid)"
proof -
  have "(\<forall>e \<in> set es. active e \<and> subscriber_id e \<noteq> sid) \<longleftrightarrow> FindSlot sid es = None \<and> FindFreeSlot es = None"
    by (auto simp: FindSlot_def FindFreeSlot_def)
  then show ?thesis by (auto simp: Subscribe_def split: option.splits)
qed

theorem Subscribe_fails_iff_full_witness:
  "let es = map (\<lambda>i. fill_entry (word_of_nat i) (str ''/x'') [] (demo_raw ! 0)) [0..<32]
   in list_all (\<lambda>e. active e \<and> subscriber_id e \<noteq> 77) es \<and> Subscribe 77 (str ''/y'') [] es = (es, False)"
proof -
  define es where "es = map (\<lambda>i. fill_entry (word_of_nat i) (str ''/x'') [] (demo_raw ! 0)) [0..<32]"
  have "\<forall>e \<in> set es. active e \<and> subscriber_id e \<noteq> 77" unfolding es_def demo_raw_def by code_simp
  then show ?thesis
    using Subscribe_fails_iff_full [of 77 "str ''/y''" "[]" es] unfolding es_def [symmetric] Let_def by (simp add: list_all_iff)
qed

text \<open>C13. What the overlay reads is what the table holds: after \<open>PublishToShmem\<close> into a segment, \<open>TryReadRoute\<close> succeeds on exactly the rows whose generation was even
  before, and there the row of an active entry shows the entry's pattern, label and counters. A row whose generation is odd, because a driver died while
  writing it, is refused after every publish.\<close>

theorem PublishToShmem_readable:
  assumes "table_inv es" and "stats_ok d" and "i < 32" and "0 < n"
  shows "case TryReadRoute i n (PublishToShmem junk es (Some d)) of
           None \<Rightarrow> generation (routes d ! i) AND 1 \<noteq> 0
         | Some im \<Rightarrow> generation (routes d ! i) AND 1 = 0 \<and>
             (active (es ! i) \<longrightarrow>
                route_view im = \<lparr>rr_pattern = re_pattern (es ! i), rr_label = subscriber_label (es ! i),
                  rr_match = match_count (es ! i), rr_drop = drop_count (es ! i),
                  rr_tick = last_match_tick (es ! i), rr_active = 1\<rparr>)"
proof -
  define a s where "a = snap_args (junk i) (es ! i)" and "s = routes d ! i"
  have "length (routes d) = 32" "s \<in> set (routes d)" using assms(2,3) by (auto simp: stats_ok_def s_def)
  then have s: "length (body s) = route_cells" using assms(2) by (simp add: stats_ok_def)
  have r: "TryReadRoute i n (PublishToShmem junk es (Some d)) = slot_read n (slot_write (route_prog a) s)"
    using publish_prefix [OF assms(2), of 32] assms(3) by (simp add: PublishToShmem_def kMaxRoutes_def TryReadRoute_def nth_append a_def s_def)
  have e: "entry_ok (es ! i)" using assms(1,3) by (simp add: table_inv_def kMaxRoutes_def)
  show ?thesis
  proof (cases "generation s AND 1 = 0")
    case True
    then obtain im where im: "slot_read n (slot_write (route_prog a) s) = Some im" "route_view im = route_upd (route_view (body s)) a"
      using route_slot.read_after_write [OF s True assms(4), of a] by auto
    then show ?thesis using True e unfolding r s_def [symmetric]
      by (auto simp: a_def snap_args_def route_upd_def entry_ok_def copy_str_id)
  next
    case False
    then have "slot_read n (slot_write (route_prog a) s) = None" by (intro slot_read_odd) (simp add: and_one_even)
    then show ?thesis using False unfolding r s_def [symmetric] by simp
  qed
qed

theorem PublishToShmem_readable_witness:
  "let es = fst (Subscribe 9 (str ''/a/*'') (str ''ui'') (RouteTable_new demo_raw));
       d = \<lparr>magic = 0, shmem_version = 0, packets_sent = 0, bytes_sent = 0, packets_dropped = 0,
            routes = replicate 31 \<lparr>generation = 6, body = replicate 100 (CB 0)\<rparr> @ [\<lparr>generation = 5, body = replicate 100 (CB 0)\<rparr>]\<rparr>
   in table_inv es \<and> stats_ok d \<and> active (es ! 0) \<and>
      (\<exists>im. TryReadRoute 0 8 (PublishToShmem (\<lambda>i. (0, 0, 0)) es (Some d)) = Some im \<and>
            rr_pattern (route_view im) = re_pattern (es ! 0)) \<and>
      TryReadRoute 31 8 (PublishToShmem (\<lambda>i. (0, 0, 0)) es (Some d)) = None"
proof -
  define es where "es = fst (Subscribe 9 (str ''/a/*'') (str ''ui'') (RouteTable_new demo_raw))"
  define d where "d = \<lparr>magic = 0, shmem_version = 0, packets_sent = 0, bytes_sent = 0, packets_dropped = 0,
      routes = replicate 31 \<lparr>generation = 6, body = replicate 100 (CB 0)\<rparr> @ [\<lparr>generation = 5, body = replicate 100 (CB 0)\<rparr>]\<rparr>"
  have inv: "table_inv es" unfolding es_def
    by (rule Subscribe_inv, rule RouteTable_new_inv) (simp add: demo_raw_def kMaxRoutes_def)
  have act: "active (es ! 0)" unfolding es_def by code_simp
  have ok: "stats_ok d" by (auto simp: d_def stats_ok_def route_cells_def)
  have g: "generation (routes d ! 0) AND 1 = 0" "generation (routes d ! 31) AND 1 \<noteq> 0" by (simp_all add: d_def nth_append and_one_even)
  have "TryReadRoute 31 8 (PublishToShmem (\<lambda>i. (0, 0, 0)) es (Some d)) = None"
    using PublishToShmem_readable [OF inv ok, of 31 8 "\<lambda>i. (0, 0, 0)"] g(2) by (simp split: option.splits)
  then show ?thesis
    using PublishToShmem_readable [OF inv ok, of 0 8 "\<lambda>i. (0, 0, 0)"] inv ok act g(1)
    unfolding es_def [symmetric] d_def [symmetric] Let_def by (auto split: option.splits)
qed

end
