(* ===== verification/SendQueue.thy ===== *)
theory SendQueue
  imports Prelude
begin

text \<open>
  The bounded send queue of \<open>OscRouter\<close> (\<open>queue_\<close>, \<open>qHead_\<close>, \<open>qTail_\<close>, \<open>qCount_\<close> in
  \<open>modules/oscrouter/src/driver/OscRouter.h\<close>): a ring of 1024 entries of at most 512 bytes. It refines a
  list; the interface \<open>bounded_queue\<close> states what its clients rely on.
\<close>

section \<open>The interface of a bounded queue\<close>

datatype 'x queue_op = Enq 'x | Deq

text \<open>
  Operations run in sequence: the elements accepted, the elements handed out, the final queue.
\<close>

fun queue_run ::
  "('x \<Rightarrow> 'q \<Rightarrow> 'q \<times> bool) \<Rightarrow> ('q \<Rightarrow> 'x option \<times> 'q) \<Rightarrow> 'x queue_op list \<Rightarrow> 'q \<Rightarrow> 'x list \<times> 'x list \<times> 'q" where
  "queue_run enq deq [] q = ([], [], q)"
| "queue_run enq deq (Enq x # ops) q =
     (let (q', ok) = enq x q; (acc, out, q'') = queue_run enq deq ops q'
      in (if ok then x # acc else acc, out, q''))"
| "queue_run enq deq (Deq # ops) q =
     (let (y, q') = deq q; (acc, out, q'') = queue_run enq deq ops q'
      in (acc, case y of None \<Rightarrow> out | Some x \<Rightarrow> x # out, q''))"

locale bounded_queue =
  fixes inv :: "'q \<Rightarrow> bool"
    and contents :: "'q \<Rightarrow> 'x list"
    and fits :: "'x \<Rightarrow> bool"
    and cap :: nat
    and enq :: "'x \<Rightarrow> 'q \<Rightarrow> 'q \<times> bool"
    and deq :: "'q \<Rightarrow> 'x option \<times> 'q"
  assumes enq_inv: "inv q \<Longrightarrow> inv (fst (enq x q))"
    and enq_ok: "inv q \<Longrightarrow> snd (enq x q) \<longleftrightarrow> length (contents q) < cap \<and> fits x"
    and enq_contents: "inv q \<Longrightarrow> contents (fst (enq x q)) = (if snd (enq x q) then contents q @ [x] else contents q)"
    and deq_inv: "inv q \<Longrightarrow> inv (snd (deq q))"
    and deq_contents: "inv q \<Longrightarrow>
      (case fst (deq q) of None \<Rightarrow> contents q = [] \<and> snd (deq q) = q
       | Some x \<Rightarrow> contents q = x # contents (snd (deq q)))"
begin

text \<open>Nothing is lost, duplicated or reordered.\<close>

lemma fifo:
  assumes "inv q" and "queue_run enq deq ops q = (acc, out, q')"
  shows "inv q' \<and> contents q @ acc = out @ contents q'"
  using assms
proof (induction ops arbitrary: q acc out q')
  case (Cons op ops)
  show ?case
  proof (cases op)
    case (Enq x)
    obtain q1 ok where e: "enq x q = (q1, ok)" by force
    obtain acc' out' q'' where r: "queue_run enq deq ops q1 = (acc', out', q'')" by (metis prod_cases3)
    from Cons.prems(2) Enq e r have "acc = (if ok then x # acc' else acc')" "out = out'" "q' = q''" by auto
    then show ?thesis
      using Cons.IH [OF _ r] enq_inv [OF Cons.prems(1), of x] enq_contents [OF Cons.prems(1), of x] e
      by (auto split: if_splits)
  next
    case Deq
    obtain y q1 where d: "deq q = (y, q1)" by force
    obtain acc' out' q'' where r: "queue_run enq deq ops q1 = (acc', out', q'')" by (metis prod_cases3)
    from Cons.prems(2) Deq d r have "acc = acc'" "out = (case y of None \<Rightarrow> out' | Some x \<Rightarrow> x # out')" "q' = q''"
      by auto
    then show ?thesis
      using Cons.IH [OF _ r] deq_inv [OF Cons.prems(1)] deq_contents [OF Cons.prems(1)] d
      by (auto split: option.splits)
  qed
qed simp

text \<open>A burst that fits is accepted whole.\<close>

lemma enq_all:
  assumes "inv q" and "\<forall>x \<in> set xs. fits x" and "length (contents q) + length xs \<le> cap"
  shows "inv (fold (\<lambda>x q. fst (enq x q)) xs q) \<and>
    contents (fold (\<lambda>x q. fst (enq x q)) xs q) = contents q @ xs"
  using assms
proof (induction xs arbitrary: q)
  case (Cons x xs)
  then have "snd (enq x q)" using enq_ok by auto
  then show ?case
    using Cons.IH [of "fst (enq x q)"] Cons.prems enq_inv enq_contents by auto
qed simp

end

section \<open>The ring\<close>

definition kSendQueueEntryMaxSize :: nat where "kSendQueueEntryMaxSize = 512"
definition kSendQueueCapacity :: nat where "kSendQueueCapacity = 1024"

text \<open>An entry is \<open>data[0 .. size)\<close>.\<close>

record send_queue =
  q_entries :: "bytes list"
  qHead :: nat
  qTail :: nat
  qCount :: nat

definition queue_new :: send_queue where
  "queue_new = \<lparr>q_entries = replicate kSendQueueCapacity [], qHead = 0, qTail = 0, qCount = 0\<rparr>"

definition EnqueueLocked :: "bytes \<Rightarrow> send_queue \<Rightarrow> send_queue \<times> bool" where
  "EnqueueLocked data q =
     (if qCount q \<ge> kSendQueueCapacity then (q, False)
      else if length data > kSendQueueEntryMaxSize then (q, False)
      else (q\<lparr>q_entries := (q_entries q)[qTail q := data],
              qTail := (qTail q + 1) mod kSendQueueCapacity,
              qCount := qCount q + 1\<rparr>, True))"

text \<open>The critical section of the send worker: \<open>None\<close> when the queue is empty.\<close>

definition DequeueLocked :: "send_queue \<Rightarrow> bytes option \<times> send_queue" where
  "DequeueLocked q =
     (if qCount q = 0 then (None, q)
      else (Some (q_entries q ! qHead q),
            q\<lparr>qHead := (qHead q + 1) mod kSendQueueCapacity, qCount := qCount q - 1\<rparr>))"

definition queue_abs :: "send_queue \<Rightarrow> bytes list" where
  "queue_abs q = map (\<lambda>i. q_entries q ! ((qHead q + i) mod kSendQueueCapacity)) [0..<qCount q]"

definition queue_inv :: "send_queue \<Rightarrow> bool" where
  "queue_inv q \<longleftrightarrow> length (q_entries q) = kSendQueueCapacity \<and> qHead q < kSendQueueCapacity \<and>
     qCount q \<le> kSendQueueCapacity \<and> qTail q = (qHead q + qCount q) mod kSendQueueCapacity"

definition entry_fits :: "bytes \<Rightarrow> bool" where
  "entry_fits x \<longleftrightarrow> length x \<le> kSendQueueEntryMaxSize"

lemma queue_new_inv: "queue_inv queue_new" "queue_abs queue_new = []"
  by (simp_all add: queue_inv_def queue_new_def queue_abs_def kSendQueueCapacity_def)

lemma length_queue_abs [simp]: "length (queue_abs q) = qCount q"
  by (simp add: queue_abs_def)

lemma ring_index_neq:
  assumes "(i::nat) < n" "n < c"
  shows "(h + i) mod c \<noteq> (h + n) mod c"
proof
  assume "(h + i) mod c = (h + n) mod c"
  then obtain k where "h + n = h + i + c * k" using assms by (metis add_le_cancel_left less_imp_le mod_eq_nat2E)
  then have "n = i + c * k" by simp
  with assms show False by (cases k) auto
qed

lemma enqueue_inv: "queue_inv q \<Longrightarrow> queue_inv (fst (EnqueueLocked x q))"
  by (auto simp: queue_inv_def EnqueueLocked_def mod_Suc_eq kSendQueueCapacity_def mod_simps)

lemma enqueue_abs:
  assumes "queue_inv q" "snd (EnqueueLocked x q)"
  shows "queue_abs (fst (EnqueueLocked x q)) = queue_abs q @ [x]"
proof -
  have n: "qCount q < kSendQueueCapacity" "qTail q = (qHead q + qCount q) mod kSendQueueCapacity"
      "length (q_entries q) = kSendQueueCapacity"
    using assms by (auto simp: queue_inv_def EnqueueLocked_def split: if_splits)
  then have "(q_entries q)[qTail q := x] ! ((qHead q + i) mod kSendQueueCapacity) =
      q_entries q ! ((qHead q + i) mod kSendQueueCapacity)" if "i < qCount q" for i
    using ring_index_neq [OF that n(1), of "qHead q"] by simp
  with n assms(2) show ?thesis
    by (simp add: queue_abs_def EnqueueLocked_def kSendQueueCapacity_def split: if_splits)
qed

lemma dequeue_abs:
  assumes "queue_inv q" "qCount q = Suc n"
  shows "queue_abs q = q_entries q ! qHead q # queue_abs (snd (DequeueLocked q))"
proof -
  have "qHead q < kSendQueueCapacity" using assms by (simp add: queue_inv_def)
  moreover have "(Suc (qHead q) mod kSendQueueCapacity + i) mod kSendQueueCapacity =
      (qHead q + Suc i) mod kSendQueueCapacity" for i
    by (simp add: mod_simps)
  ultimately show ?thesis
    using assms(2) by (simp add: queue_abs_def DequeueLocked_def upt_conv_Cons map_Suc_upt [symmetric] del: upt_Suc)
qed

lemma dequeue_inv: "queue_inv q \<Longrightarrow> queue_inv (snd (DequeueLocked q))"
  by (cases "qCount q") (auto simp: queue_inv_def DequeueLocked_def mod_simps kSendQueueCapacity_def)

interpretation sendq: bounded_queue queue_inv queue_abs entry_fits kSendQueueCapacity EnqueueLocked DequeueLocked
proof
  fix q x
  assume inv: "queue_inv q"
  show "queue_inv (fst (EnqueueLocked x q))" "queue_inv (snd (DequeueLocked q))"
    using inv by (rule enqueue_inv, rule dequeue_inv)
  show "snd (EnqueueLocked x q) \<longleftrightarrow> length (queue_abs q) < kSendQueueCapacity \<and> entry_fits x"
    by (auto simp: EnqueueLocked_def entry_fits_def)
  show "queue_abs (fst (EnqueueLocked x q)) = (if snd (EnqueueLocked x q) then queue_abs q @ [x] else queue_abs q)"
    using enqueue_abs [OF inv, of x] by (auto simp: EnqueueLocked_def)
  show "case fst (DequeueLocked q) of None \<Rightarrow> queue_abs q = [] \<and> snd (DequeueLocked q) = q
      | Some y \<Rightarrow> queue_abs q = y # queue_abs (snd (DequeueLocked q))"
    using dequeue_abs [OF inv] by (cases "qCount q") (auto simp: DequeueLocked_def queue_abs_def)
qed

section \<open>Properties\<close>

text \<open>C10. The ring is a first-in first-out queue of at most 1024 packets of at most 512 bytes: whatever sequence
  of \<open>EnqueueLocked\<close> calls and worker pops runs on it, the packets accepted so far are exactly the
  packets handed out followed by the packets still queued, in order, and a packet is refused only
  when the ring is full or the packet too long.\<close>

theorem send_queue_fifo:
  assumes "queue_run EnqueueLocked DequeueLocked ops queue_new = (acc, out, q')"
  shows "acc = out @ queue_abs q' \<and>
         (snd (EnqueueLocked x q') \<longleftrightarrow> length acc - length out < 1024 \<and> length x \<le> 512)"
  using sendq.fifo [OF queue_new_inv(1) assms] sendq.enq_ok [of q' x]
  by (auto simp: queue_new_inv entry_fits_def kSendQueueCapacity_def kSendQueueEntryMaxSize_def)

theorem send_queue_fifo_witness:
  "queue_run EnqueueLocked DequeueLocked [Enq [1], Enq [2, 2], Deq, Enq [3]] queue_new =
     ([[1], [2, 2], [3]], [[1]], snd (snd (queue_run EnqueueLocked DequeueLocked [Enq [1], Enq [2, 2], Deq, Enq [3]] queue_new))) \<and>
   queue_abs (snd (snd (queue_run EnqueueLocked DequeueLocked [Enq [1], Enq [2, 2], Deq, Enq [3]] queue_new))) = [[2, 2], [3]]"
proof -
  have run: "queue_run EnqueueLocked DequeueLocked [Enq [1], Enq [2, 2], Deq, Enq [3]] queue_new =
      ([[1], [2, 2], [3]], [[1]], snd (snd (queue_run EnqueueLocked DequeueLocked [Enq [1], Enq [2, 2], Deq, Enq [3]] queue_new)))"
    by (simp add: EnqueueLocked_def DequeueLocked_def queue_new_def kSendQueueCapacity_def kSendQueueEntryMaxSize_def)
  from send_queue_fifo [OF run, of "[]"] run show ?thesis by simp
qed

end
