(* ===== verification/OscRouter.thy ===== *)
theory OscRouter
  imports OscWire RouteTable SendQueue "HOL-Library.Sublist"
begin

text \<open>
  The router module (\<open>modules/oscrouter/src/driver/OscRouter.cpp\<close>, \<open>UdpSender.cpp\<close>,
  \<open>RouterPublishApi.cpp\<close>): publishing from other driver modules, the five IPC requests, the send worker,
  the publish pipe and the life cycle. Each thread is a sequence of the critical sections and atomic
  updates it performs, so the steps of \<open>router_step\<close> interleave as the threads do.
\<close>

section \<open>State\<close>

text \<open>
  \<open>sock\<close> is the open UDP socket with the port it targets; \<open>inflight\<close> is the send worker's local
  \<open>entry\<close> between the pop and the send; \<open>registered\<close> says that \<open>g_activeRouter\<close> points here. \<open>accepted\<close>
  and \<open>wire\<close> record the packets queued and the datagrams sent since start-up.
\<close>

record router =
  sendPort :: u16
  pendingSendPort :: u16
  routeTable :: "RouteEntry list"
  sock :: "u16 option"
  queue :: send_queue
  droppedCount :: u64
  packetsSent :: u64
  bytesSent :: u64
  packetsQueued :: u64
  oversizedPackets :: u64
  unmatchedRoutes :: u64
  sendFailures :: u64
  socketClosedDrops :: u64
  pubPipeFrames :: u64
  pubPipeInvalidFrames :: u64
  pubPipeQueueDrops :: u64
  pubPipeReadBreaks :: u64
  stop :: bool
  statsShmem :: "stats_data option"
  shmemReady :: bool
  registered :: bool
  inflight :: "bytes option"
  accepted :: "bytes list"
  wire :: "bytes list"

definition router_new :: "RouteEntry list \<Rightarrow> router" where
  "router_new raw =
     \<lparr>sendPort = 9000, pendingSendPort = 0, routeTable = RouteTable_new raw, sock = None, queue = queue_new,
      droppedCount = 0, packetsSent = 0, bytesSent = 0, packetsQueued = 0, oversizedPackets = 0,
      unmatchedRoutes = 0, sendFailures = 0, socketClosedDrops = 0, pubPipeFrames = 0,
      pubPipeInvalidFrames = 0, pubPipeQueueDrops = 0, pubPipeReadBreaks = 0, stop = True,
      statsShmem = None, shmemReady = False, registered = False, inflight = None, accepted = [], wire = []\<rparr>"

section \<open>Life cycle\<close>

text \<open>\<open>UdpSender::Open\<close> closes the old socket first; \<open>ok\<close> is whether the new one could be set up.\<close>

definition UdpSender_Open :: "bool \<Rightarrow> u16 \<Rightarrow> router \<Rightarrow> router" where
  "UdpSender_Open ok port r = r\<lparr>sock := (if ok then Some port else None)\<rparr>"

definition UdpSender_Close :: "router \<Rightarrow> router" where
  "UdpSender_Close r = r\<lparr>sock := None\<rparr>"

definition Init :: "stats_data os_mapping \<Rightarrow> bool \<Rightarrow> router \<Rightarrow> router" where
  "Init seg open_ok r =
     (let shm = OscStats_Create seg;
          r1 = r\<lparr>statsShmem := shm, shmemReady := (shm \<noteq> None)\<rparr>;
          r2 = UdpSender_Open open_ok (sendPort r1) r1
      in r2\<lparr>stop := False, registered := True\<rparr>)"

text \<open>\<open>Shutdown\<close> raises the flag, waits for the two workers to end and closes the socket and the segment; a second call only unregisters.\<close>

definition Shutdown_begin :: "router \<Rightarrow> router" where
  "Shutdown_begin r = r\<lparr>stop := True, registered := False\<rparr>"

definition Shutdown_end :: "router \<Rightarrow> router" where
  "Shutdown_end r = (UdpSender_Close r)\<lparr>statsShmem := None, shmemReady := False\<rparr>"

definition Shutdown :: "router \<Rightarrow> router" where
  "Shutdown r = (if stop r then r\<lparr>registered := False\<rparr> else Shutdown_end (Shutdown_begin r))"

section \<open>Publishing\<close>

text \<open>The tail of every enqueue attempt that failed under the queue lock.\<close>

definition count_drop :: "bytes option \<Rightarrow> router \<Rightarrow> router" where
  "count_drop address r =
     r\<lparr>droppedCount := droppedCount r + 1,
       routeTable := (case address of Some a \<Rightarrow> BumpDropCount a (routeTable r) | None \<Rightarrow> routeTable r),
       statsShmem := (if shmemReady r then AddDropped (statsShmem r) else statsShmem r)\<rparr>"

definition count_queued :: "send_queue \<Rightarrow> bytes \<Rightarrow> router \<Rightarrow> router" where
  "count_queued q data r = r\<lparr>queue := q, packetsQueued := packetsQueued r + 1, accepted := accepted r @ [data]\<rparr>"

text \<open>\<open>args\<close> are the bytes \<open>args[0 .. arg_len)\<close>; none when the pointer is null or the length 0.\<close>

definition build_packet :: "bytes \<Rightarrow> bytes \<Rightarrow> bytes \<Rightarrow> osc_packet" where
  "build_packet address typetag args =
     (let pkt = Begin kSendQueueEntryMaxSize address typetag OscPacket
      in if length args > 0 then WriteRawArgs kSendQueueEntryMaxSize args pkt else pkt)"

definition BuildAndEnqueue :: "bytes \<Rightarrow> bytes \<Rightarrow> bytes \<Rightarrow> router \<Rightarrow> router \<times> bool" where
  "BuildAndEnqueue address typetag args r =
     (let pkt = build_packet address typetag args
      in if \<not> pk_ok pkt then (r\<lparr>oversizedPackets := oversizedPackets r + 1\<rparr>, False)
         else
           let (q, queued) = EnqueueLocked (pk_buf pkt) (queue r)
           in if \<not> queued then (count_drop (Some address) r, False)
              else (count_queued q (pk_buf pkt) r, True))"

definition PublishOsc :: "bytes \<Rightarrow> bytes \<Rightarrow> bytes \<Rightarrow> router \<Rightarrow> router \<times> bool" where
  "PublishOsc address typetag args r =
     (if stop r then (r, False) else BuildAndEnqueue address typetag args r)"

text \<open>\<open>RouterPublishApi\<close>: the entry point of the other modules.\<close>

definition api_PublishOsc :: "bytes \<Rightarrow> bytes \<Rightarrow> bytes \<Rightarrow> router \<Rightarrow> router \<times> bool" where
  "api_PublishOsc address typetag args r =
     (if \<not> registered r then (r, False) else PublishOsc address typetag args r)"

section \<open>IPC requests\<close>

text \<open>
  The request structures with their \<open>char\<close> arrays as the bytes received; \<open>beyond\<close> is the memory that
  follows \<open>arg_bytes\<close>, from which \<open>HandlePublish\<close> reads when \<open>arg_len\<close> exceeds 32.
\<close>

record OscPublish =
  op_address :: bytes
  op_typetag :: bytes
  op_arg_len :: byte
  op_arg_bytes :: bytes
  op_beyond :: bytes

datatype osc_request =
    RequestOscRouteSubscribe u32 byte bytes  \<comment> \<open>\<open>subscriber_id\<close>, \<open>enabled\<close>, \<open>pattern[64]\<close>\<close>
  | RequestOscRouteUnsubscribe u32
  | RequestOscPublish OscPublish
  | RequestOscGetStats
  | RequestSetOscRouterConfig u16
  | RequestOther

datatype osc_response = ResponseSuccess | ResponseInvalid | ResponseOscRouterStats OscRouterStats

definition sub_label :: "u32 \<Rightarrow> bytes" where
  "sub_label sid = copy_str 32 (str ''sub-'' @ dec (unat sid))"

definition HandleSubscribe :: "u32 \<Rightarrow> bytes \<Rightarrow> router \<Rightarrow> router \<times> osc_response" where
  "HandleSubscribe sid pattern r =
     (let (es, ok) = Subscribe sid pattern (sub_label sid) (routeTable r)
      in (r\<lparr>routeTable := es\<rparr>, if ok then ResponseSuccess else ResponseInvalid))"

definition HandleUnsubscribe :: "u32 \<Rightarrow> router \<Rightarrow> router \<times> osc_response" where
  "HandleUnsubscribe sid r = (r\<lparr>routeTable := Unsubscribe sid (routeTable r)\<rparr>, ResponseSuccess)"

definition publish_args :: "OscPublish \<Rightarrow> bytes" where
  "publish_args p = take (unat (op_arg_len p)) (op_arg_bytes p @ op_beyond p)"

definition HandlePublish :: "OscPublish \<Rightarrow> router \<Rightarrow> router \<times> osc_response" where
  "HandlePublish p r =
     (let (r', ok) = BuildAndEnqueue (cstr (op_address p)) (cstr (op_typetag p)) (publish_args p) r
      in (r', if ok then ResponseSuccess else ResponseInvalid))"

definition HandleGetStats :: "router \<Rightarrow> router \<times> osc_response" where
  "HandleGetStats r =
     (r, ResponseOscRouterStats
       (case ReadGlobalStats (statsShmem r) of
          Some st \<Rightarrow> st
        | None \<Rightarrow> \<lparr>st_packets_sent = 0, st_bytes_sent = 0, st_packets_dropped = 0,
                   st_active_routes = ActiveCount (routeTable r)\<rparr>))"

definition HandleSetConfig :: "u16 \<Rightarrow> router \<Rightarrow> router \<times> osc_response" where
  "HandleSetConfig port r =
     (if port = 0 then (r, ResponseInvalid) else (r\<lparr>pendingSendPort := port\<rparr>, ResponseSuccess))"

text \<open>\<open>None\<close> is the return value false: a request this module does not handle.\<close>

fun HandleRequest :: "osc_request \<Rightarrow> router \<Rightarrow> router \<times> osc_response option" where
  "HandleRequest (RequestOscRouteSubscribe sid en pat) r = apsnd Some (HandleSubscribe sid pat r)"
| "HandleRequest (RequestOscRouteUnsubscribe sid) r = apsnd Some (HandleUnsubscribe sid r)"
| "HandleRequest (RequestOscPublish p) r = apsnd Some (HandlePublish p r)"
| "HandleRequest RequestOscGetStats r = apsnd Some (HandleGetStats r)"
| "HandleRequest (RequestSetOscRouterConfig port) r = apsnd Some (HandleSetConfig port r)"
| "HandleRequest RequestOther r = (r, None)"

section \<open>Send worker\<close>

text \<open>The head of the loop: a pending port change; \<open>ok\<close> is the outcome of \<open>sender_.Open\<close>.\<close>

definition worker_reopen :: "bool \<Rightarrow> router \<Rightarrow> router" where
  "worker_reopen ok r =
     (let newPort = pendingSendPort r;
          r1 = r\<lparr>pendingSendPort := 0\<rparr>
      in if newPort \<noteq> 0 \<and> newPort \<noteq> sendPort r1
         then let r2 = UdpSender_Open ok newPort (UdpSender_Close r1)
              in if ok then r2\<lparr>sendPort := newPort\<rparr> else r2
         else r1)"

definition worker_pop :: "router \<Rightarrow> router" where
  "worker_pop r =
     (case DequeueLocked (queue r) of
        (None, q) \<Rightarrow> r
      | (Some e, q) \<Rightarrow> r\<lparr>queue := q, inflight := Some e\<rparr>)"

text \<open>
  The send of the popped entry: \<open>sent\<close> is what \<open>sendto\<close> answers (negative on failure), \<open>tick\<close> the
  performance counter.
\<close>

definition worker_sent :: "bytes \<Rightarrow> int \<Rightarrow> u64 \<Rightarrow> router \<Rightarrow> router" where
  "worker_sent e sent tick r =
     (let r1 = r\<lparr>packetsSent := packetsSent r + 1, bytesSent := bytesSent r + word_of_int sent,
                 statsShmem := (if shmemReady r then AddSent (word_of_int sent) (statsShmem r) else statsShmem r),
                 wire := wire r @ [e]\<rparr>;
          msg = OscParseMessage e
      in if msg_valid msg
         then let (es, matched) = Dispatch (the (msg_address msg)) tick (routeTable r1)
              in r1\<lparr>routeTable := es, unmatchedRoutes := (if matched then unmatchedRoutes r1 else unmatchedRoutes r1 + 1)\<rparr>
         else r1)"

definition worker_send :: "int \<Rightarrow> u64 \<Rightarrow> router \<Rightarrow> router" where
  "worker_send sent tick r =
     (case inflight r of
        None \<Rightarrow> r
      | Some e \<Rightarrow>
          let r1 = r\<lparr>inflight := None\<rparr>
          in if sock r1 \<noteq> None \<and> length e > 0
             then if sent > 0 then worker_sent e sent tick r1
                  else r1\<lparr>sendFailures := sendFailures r1 + 1\<rparr>
             else if sock r1 = None then r1\<lparr>socketClosedDrops := socketClosedDrops r1 + 1\<rparr>
             else r1)"

definition worker_stats :: "(nat \<Rightarrow> u64 \<times> u64 \<times> u64) \<Rightarrow> router \<Rightarrow> router" where
  "worker_stats junk r =
     (if shmemReady r then r\<lparr>statsShmem := PublishToShmem junk (routeTable r) (statsShmem r)\<rparr> else r)"

section \<open>Publish pipe\<close>

datatype PipeReadResult = PipeOk | PipeDisconnected | PipeCanceled | PipeFailed

text \<open>
  One client connection is the bytes it sends and how the stream ends; \<open>ReadPipeExactInterruptible\<close>
  returns \<open>n\<close> bytes or that end. A cancelled read is the only one not counted as a break.
\<close>

definition read_exact :: "nat \<Rightarrow> bytes \<Rightarrow> (bytes \<times> bytes) option" where
  "read_exact n s = (if n \<le> length s then Some (take n s, drop n s) else None)"

definition read_break :: "PipeReadResult \<Rightarrow> router \<Rightarrow> router" where
  "read_break e r = (if e = PipeCanceled then r else r\<lparr>pubPipeReadBreaks := pubPipeReadBreaks r + 1\<rparr>)"

definition from_le32 :: "bytes \<Rightarrow> u32" where
  "from_le32 b = ucast (b ! 0) OR push_bit 8 (ucast (b ! 1)) OR push_bit 16 (ucast (b ! 2)) OR
                 push_bit 24 (ucast (b ! 3))"

definition pub_frame :: "bytes \<Rightarrow> router \<Rightarrow> router" where
  "pub_frame frame r =
     (let msg = OscParseMessage frame;
          r1 = (if msg_valid msg then r else r\<lparr>pubPipeInvalidFrames := pubPipeInvalidFrames r + 1\<rparr>);
          (q, ok) = EnqueueLocked frame (queue r1)
      in if \<not> ok
         then let r2 = count_drop (if msg_valid msg then msg_address msg else None) r1
              in r2\<lparr>pubPipeQueueDrops := pubPipeQueueDrops r2 + 1\<rparr>
         else let r2 = count_queued q frame r1
              in r2\<lparr>pubPipeFrames := pubPipeFrames r2 + 1\<rparr>)"

function pub_frames :: "bytes \<Rightarrow> PipeReadResult \<Rightarrow> router \<Rightarrow> router" where
  "pub_frames s e r =
     (if stop r then r
      else case read_exact 4 s of
        None \<Rightarrow> read_break e r
      | Some (lenBuf, s1) \<Rightarrow>
          let frameLen = unat (from_le32 lenBuf)
          in if frameLen = 0 \<or> frameLen > kSendQueueEntryMaxSize
             then r\<lparr>pubPipeInvalidFrames := pubPipeInvalidFrames r + 1\<rparr>
             else case read_exact frameLen s1 of
               None \<Rightarrow> read_break e r
             | Some (frame, s2) \<Rightarrow> pub_frames s2 e (pub_frame frame r))"
  by pat_completeness auto
termination
  by (relation "measure (\<lambda>(s, e, r). length s)") (auto simp: read_exact_def split: if_splits)

declare pub_frames.simps [simp del]

definition pub_session :: "bytes \<Rightarrow> PipeReadResult \<Rightarrow> router \<Rightarrow> router" where
  "pub_session s e r =
     (case read_exact 32 s of None \<Rightarrow> read_break e r | Some (source_id, s1) \<Rightarrow> pub_frames s1 e r)"

section \<open>The threads interleaved\<close>

text \<open>
  A publisher, a request or a pipe frame that passed its test of the stop flag before the flag was raised takes effect after it; these steps therefore
  do not depend on the flag. The second half of \<open>Shutdown\<close> runs when the workers have ended, with nothing in the send worker's hand.
\<close>

inductive router_step :: "router \<Rightarrow> router \<Rightarrow> bool" where
  S_publish: "router_step r (fst (api_PublishOsc address typetag args r))"
| S_enqueue: "router_step r (fst (BuildAndEnqueue address typetag args r))"
| S_request: "router_step r (fst (HandleRequest req r))"
| S_pipe: "0 < length frame \<Longrightarrow> length frame \<le> kSendQueueEntryMaxSize \<Longrightarrow>
     router_step r (pub_frame frame r)"
| S_reopen: "\<not> stop r \<Longrightarrow> inflight r = None \<Longrightarrow> router_step r (worker_reopen ok r)"
| S_pop: "\<not> stop r \<Longrightarrow> inflight r = None \<Longrightarrow> router_step r (worker_pop r)"
| S_send: "router_step r (worker_send sent tick r)"
| S_stats: "inflight r = None \<Longrightarrow> router_step r (worker_stats junk r)"
| S_shutdown: "router_step r (Shutdown_begin r)"
| S_closed: "stop r \<Longrightarrow> inflight r = None \<Longrightarrow> router_step r (Shutdown_end r)"

inductive_cases router_stepE: "router_step r r'"

definition router_reach :: "router \<Rightarrow> bool" where
  "router_reach r \<longleftrightarrow>
     (\<exists>raw seg ok. length raw = kMaxRoutes \<and> router_step\<^sup>*\<^sup>* (Init seg ok (router_new raw)) r)"

section \<open>Invariant\<close>

definition in_hand :: "router \<Rightarrow> bytes list" where
  "in_hand r = (case inflight r of None \<Rightarrow> [] | Some e \<Rightarrow> [e])"

text \<open>
  Every accepted packet is still queued, in the worker's hand, or dealt with; the datagrams sent
  are among those dealt with, in order; and the counters add up.
\<close>

definition flow_inv :: "router \<Rightarrow> bool" where
  "flow_inv r \<longleftrightarrow>
     queue_inv (queue r) \<and>
     (\<forall>e \<in> set (in_hand r @ queue_abs (queue r)). e \<noteq> []) \<and>
     (\<exists>handled. accepted r = handled @ in_hand r @ queue_abs (queue r) \<and> subseq (wire r) handled) \<and>
     packetsSent r = word_of_nat (length (wire r)) \<and>
     packetsQueued r = packetsSent r + sendFailures r + socketClosedDrops r +
       word_of_nat (length (in_hand r) + qCount (queue r))"

definition router_inv :: "router \<Rightarrow> bool" where
  "router_inv r \<longleftrightarrow> flow_inv r \<and> table_inv (routeTable r)"

definition same_flow :: "router \<Rightarrow> router \<Rightarrow> bool" where
  "same_flow r r' \<longleftrightarrow> queue r' = queue r \<and> inflight r' = inflight r \<and> accepted r' = accepted r \<and> wire r' = wire r \<and>
     packetsSent r' = packetsSent r \<and> packetsQueued r' = packetsQueued r \<and>
     sendFailures r' = sendFailures r \<and> socketClosedDrops r' = socketClosedDrops r"

lemma same_flow_inv: "same_flow r r' \<Longrightarrow> flow_inv r \<Longrightarrow> flow_inv r'"
  by (simp add: same_flow_def flow_inv_def in_hand_def)

lemma count_drop_inv [inv_intros]: "router_inv r \<Longrightarrow> router_inv (count_drop a r)"
  using same_flow_inv [of r "count_drop a r"]
  by (auto simp: router_inv_def same_flow_def count_drop_def BumpDropCount_inv split: option.split)

lemma count_queued_inv:
  assumes "router_inv r" "EnqueueLocked d (queue r) = (q, True)" "d \<noteq> []"
  shows "router_inv (count_queued q d r)"
proof -
  have q: "queue_inv q" "queue_abs q = queue_abs (queue r) @ [d]"
    using sendq.enq_inv [of "queue r" d] sendq.enq_contents [of "queue r" d] assms(1,2)
    by (auto simp: router_inv_def flow_inv_def)
  then have "qCount q = Suc (qCount (queue r))" by (metis length_append_singleton length_queue_abs)
  with q assms(1,3) show ?thesis
    by (auto simp: router_inv_def flow_inv_def count_queued_def in_hand_def algebra_simps)
qed

lemma build_packet_ok:
  "pk_ok (build_packet a t args) \<longleftrightarrow> length (osc_msg a t args) \<le> kSendQueueEntryMaxSize"
  by (auto simp: build_packet_def Let_def WriteRawArgs_def Append_ok Begin_ok Begin_buf osc_msg_def)

lemma build_packet_buf: "pk_ok (build_packet a t args) \<Longrightarrow> pk_buf (build_packet a t args) = osc_msg a t args"
  by (auto simp: build_packet_def Let_def WriteRawArgs_def Append_ok Append_buf Begin_buf osc_msg_def)

lemma osc_msg_nonempty [simp]: "osc_msg a t args \<noteq> []"
  by (simp add: osc_msg_def osc_str_def)

lemma BuildAndEnqueue_inv [inv_intros]:
  assumes "router_inv r"
  shows "router_inv (fst (BuildAndEnqueue a t args r))"
proof (cases "pk_ok (build_packet a t args)")
  case False
  have "router_inv (r\<lparr>oversizedPackets := oversizedPackets r + 1\<rparr>)"
    using assms same_flow_inv [of r "r\<lparr>oversizedPackets := oversizedPackets r + 1\<rparr>"]
    by (simp add: router_inv_def same_flow_def)
  with False show ?thesis by (simp add: BuildAndEnqueue_def Let_def)
next
  case True
  obtain q ok where e: "EnqueueLocked (pk_buf (build_packet a t args)) (queue r) = (q, ok)" by force
  show ?thesis
    using True e assms count_queued_inv [OF assms, of "pk_buf (build_packet a t args)" q]
    by (cases ok) (auto simp: BuildAndEnqueue_def Let_def build_packet_buf intro: inv_intros)
qed

lemma api_PublishOsc_inv [inv_intros]: "router_inv r \<Longrightarrow> router_inv (fst (api_PublishOsc a t args r))"
  by (auto simp: api_PublishOsc_def PublishOsc_def intro: inv_intros)

lemma HandleRequest_inv [inv_intros]:
  assumes "router_inv r"
  shows "router_inv (fst (HandleRequest req r))"
proof (cases req)
  case (RequestOscRouteSubscribe sid en pat)
  have "router_inv (r\<lparr>routeTable := fst (Subscribe sid pat (sub_label sid) (routeTable r))\<rparr>)"
    using assms same_flow_inv [of r "r\<lparr>routeTable := fst (Subscribe sid pat (sub_label sid) (routeTable r))\<rparr>"]
    by (simp add: router_inv_def same_flow_def Subscribe_inv)
  with RequestOscRouteSubscribe show ?thesis by (simp add: HandleSubscribe_def case_prod_beta)
next
  case (RequestOscRouteUnsubscribe sid)
  then show ?thesis
    using assms same_flow_inv [of r "r\<lparr>routeTable := Unsubscribe sid (routeTable r)\<rparr>"]
    by (simp add: router_inv_def same_flow_def HandleUnsubscribe_def Unsubscribe_refines)
next
  case (RequestOscPublish p)
  with assms show ?thesis
    using BuildAndEnqueue_inv [OF assms, of "cstr (op_address p)" "cstr (op_typetag p)" "publish_args p"]
    by (auto simp: HandlePublish_def split: prod.split)
next
  case (RequestSetOscRouterConfig port)
  then show ?thesis
    using assms same_flow_inv [of r "r\<lparr>pendingSendPort := port\<rparr>"]
    by (auto simp: router_inv_def same_flow_def HandleSetConfig_def)
qed (use assms in \<open>simp_all add: HandleGetStats_def\<close>)

lemma pub_frame_inv [inv_intros]:
  assumes "router_inv r" "frame \<noteq> []"
  shows "router_inv (pub_frame frame r)"
proof -
  define r1 where "r1 = (if msg_valid (OscParseMessage frame) then r
    else r\<lparr>pubPipeInvalidFrames := pubPipeInvalidFrames r + 1\<rparr>)"
  have r1: "router_inv r1" "queue r1 = queue r"
    using assms(1) same_flow_inv [of r r1] by (auto simp: r1_def router_inv_def same_flow_def)
  have upd: "router_inv (x\<lparr>pubPipeFrames := n\<rparr>)" "router_inv (x\<lparr>pubPipeQueueDrops := n\<rparr>)" if "router_inv x" for x n
    using that same_flow_inv [of x "x\<lparr>pubPipeFrames := n\<rparr>"] same_flow_inv [of x "x\<lparr>pubPipeQueueDrops := n\<rparr>"]
    by (simp_all add: router_inv_def same_flow_def)
  obtain q ok where e: "EnqueueLocked frame (queue r1) = (q, ok)" by force
  then show ?thesis
    using count_queued_inv [OF r1(1), of frame q] count_drop_inv [OF r1(1)] assms(2) upd
    by (cases ok) (simp_all add: pub_frame_def Let_def r1_def [symmetric])
qed

lemma worker_reopen_inv [inv_intros]: "router_inv r \<Longrightarrow> router_inv (worker_reopen ok r)"
  using same_flow_inv [of r "worker_reopen ok r"]
  by (auto simp: router_inv_def same_flow_def worker_reopen_def Let_def UdpSender_Open_def UdpSender_Close_def)

lemma Shutdown_inv [inv_intros]: "router_inv r \<Longrightarrow> router_inv (Shutdown_begin r)" "router_inv r \<Longrightarrow> router_inv (Shutdown_end r)"
  using same_flow_inv [of r "Shutdown_begin r"] same_flow_inv [of r "Shutdown_end r"]
  by (simp_all add: router_inv_def same_flow_def Shutdown_begin_def Shutdown_end_def UdpSender_Close_def)

lemma worker_stats_inv [inv_intros]: "router_inv r \<Longrightarrow> router_inv (worker_stats junk r)"
  using same_flow_inv [of r "worker_stats junk r"]
  by (auto simp: router_inv_def same_flow_def worker_stats_def)

lemma worker_pop_inv [inv_intros]:
  assumes "router_inv r" "inflight r = None"
  shows "router_inv (worker_pop r)"
proof (cases "DequeueLocked (queue r)")
  case (Pair y q)
  have q: "queue_inv (queue r)" using assms(1) by (simp add: router_inv_def flow_inv_def)
  show ?thesis
  proof (cases y)
    case None
    then show ?thesis using Pair assms(1) by (simp add: worker_pop_def)
  next
    case (Some e)
    have "queue_abs (queue r) = e # queue_abs q" "queue_inv q"
      using sendq.deq_contents [OF q] sendq.deq_inv [OF q] Pair Some by auto
    moreover from this(1) have "qCount (queue r) = Suc (qCount q)" by (metis length_Cons length_queue_abs)
    ultimately show ?thesis
      using Pair Some assms by (auto simp: worker_pop_def router_inv_def flow_inv_def in_hand_def algebra_simps)
  qed
qed

lemma worker_sent_fields:
  "queue (worker_sent e sent tick r) = queue r"
  "inflight (worker_sent e sent tick r) = inflight r"
  "accepted (worker_sent e sent tick r) = accepted r"
  "wire (worker_sent e sent tick r) = wire r @ [e]"
  "packetsSent (worker_sent e sent tick r) = packetsSent r + 1"
  "packetsQueued (worker_sent e sent tick r) = packetsQueued r"
  "sendFailures (worker_sent e sent tick r) = sendFailures r"
  "socketClosedDrops (worker_sent e sent tick r) = socketClosedDrops r"
  "table_inv (routeTable r) \<Longrightarrow> table_inv (routeTable (worker_sent e sent tick r))"
  by (simp_all add: worker_sent_def Let_def case_prod_beta Dispatch_inv)

lemma worker_send_inv [inv_intros]:
  assumes "router_inv r"
  shows "router_inv (worker_send sent tick r)"
proof (cases "inflight r")
  case None
  then show ?thesis using assms by (simp add: worker_send_def)
next
  case (Some e)
  obtain handled where h: "accepted r = handled @ [e] @ queue_abs (queue r)" "subseq (wire r) handled" "e \<noteq> []"
    using assms Some by (auto simp: router_inv_def flow_inv_def in_hand_def)
  have "subseq (wire r) (handled @ [e])" "subseq (wire r @ [e]) (handled @ [e])"
    using h(2) by (auto intro: subseq_append_le_same_iff [THEN iffD1] list_emb_append_mono subseq_order.trans)
  then show ?thesis
    using assms Some h(1,3)
    by (cases "sock r"; cases "0 < sent")
      (auto simp: worker_send_def Let_def router_inv_def flow_inv_def in_hand_def worker_sent_fields algebra_simps
        intro!: exI [of _ "handled @ [e]"])
qed

lemma router_step_inv: "router_step r r' \<Longrightarrow> router_inv r \<Longrightarrow> router_inv r'"
  by (induction rule: router_step.induct) (auto intro: inv_intros)

lemma Init_inv: "length raw = kMaxRoutes \<Longrightarrow> router_inv (Init seg ok (router_new raw))"
  by (simp add: Init_def Let_def UdpSender_Open_def router_new_def router_inv_def flow_inv_def in_hand_def
      queue_new_inv RouteTable_new_inv) (simp add: queue_new_def)

lemma router_reach_inv:
  assumes "router_reach r"
  shows "router_inv r"
proof -
  obtain raw seg ok where "length raw = kMaxRoutes" "router_step\<^sup>*\<^sup>* (Init seg ok (router_new raw)) r"
    using assms by (auto simp: router_reach_def)
  from this(2) Init_inv [OF this(1), of seg ok] show ?thesis
    by (induction rule: rtranclp_induct) (auto intro: router_step_inv)
qed

section \<open>The publish pipe's framing\<close>

definition le32 :: "u32 \<Rightarrow> bytes" where
  "le32 v = [ucast v, ucast (drop_bit 8 v), ucast (drop_bit 16 v), ucast (drop_bit 24 v)]"

definition frame_enc :: "bytes \<Rightarrow> bytes" where
  "frame_enc f = le32 (word_of_nat (length f)) @ f"

lemma from_le32_le32: "from_le32 (le32 v) = v"
proof (rule bit_word_eqI)
  fix n assume "n < LENGTH(32)"
  then have "n < 8 \<or> 8 \<le> n \<and> n < 16 \<or> 16 \<le> n \<and> n < 24 \<or> 24 \<le> n \<and> n < 32" by auto
  then show "bit (from_le32 (le32 v)) n = bit v n"
    by (elim disjE) (auto simp: from_le32_def le32_def bit_simps min_def)
qed

lemma length_le32 [simp]: "length (le32 v) = 4"
  by (simp add: le32_def)

definition good_frame :: "bytes \<Rightarrow> bool" where
  "good_frame f \<longleftrightarrow> 0 < length f \<and> length f \<le> kSendQueueEntryMaxSize"

lemma pub_frames_cons:
  assumes "good_frame f" "\<not> stop r"
  shows "pub_frames (frame_enc f @ s) e r = pub_frames s e (pub_frame f r)"
proof -
  have "unat (word_of_nat (length f) :: u32) = length f"
    using assms(1) by (intro unat_word_of_nat) (simp add: good_frame_def kSendQueueEntryMaxSize_def)
  with assms show ?thesis
    by (subst pub_frames.simps)
      (auto simp: read_exact_def frame_enc_def from_le32_le32 good_frame_def Let_def)
qed

lemma pub_frame_accept:
  assumes "queue_inv (queue r)" "qCount (queue r) < 1024" "good_frame f"
  shows "queue_inv (queue (pub_frame f r)) \<and> queue_abs (queue (pub_frame f r)) = queue_abs (queue r) @ [f] \<and>
    pubPipeFrames (pub_frame f r) = pubPipeFrames r + 1 \<and> stop (pub_frame f r) = stop r \<and>
    pubPipeReadBreaks (pub_frame f r) = pubPipeReadBreaks r"
proof -
  have "snd (EnqueueLocked f (queue r))"
    using sendq.enq_ok [OF assms(1), of f] assms(2,3)
    by (simp add: good_frame_def entry_fits_def kSendQueueCapacity_def)
  then show ?thesis
    using sendq.enq_inv [OF assms(1), of f] sendq.enq_contents [OF assms(1), of f]
    by (auto simp: pub_frame_def Let_def case_prod_beta count_queued_def)
qed

lemma pub_frames_run:
  assumes "queue_inv (queue r)" "qCount (queue r) + length fs \<le> 1024" "\<forall>f \<in> set fs. good_frame f" "\<not> stop r"
  shows "queue_abs (queue (pub_frames (concat (map frame_enc fs)) PipeDisconnected r)) = queue_abs (queue r) @ fs \<and>
    pubPipeFrames (pub_frames (concat (map frame_enc fs)) PipeDisconnected r) = pubPipeFrames r + word_of_nat (length fs) \<and>
    pubPipeReadBreaks (pub_frames (concat (map frame_enc fs)) PipeDisconnected r) = pubPipeReadBreaks r + 1"
  using assms
proof (induction fs arbitrary: r)
  case Nil
  then show ?case by (subst (1 2 3) pub_frames.simps) (simp add: read_exact_def read_break_def)
next
  case (Cons f fs)
  have f: "good_frame f" "qCount (queue r) < 1024" using Cons.prems by auto
  note step = pub_frame_accept [OF Cons.prems(1) f(2) f(1)]
  then have "qCount (queue (pub_frame f r)) = Suc (qCount (queue r))"
    by (metis length_append_singleton length_queue_abs)
  then show ?case
    using step Cons.IH [of "pub_frame f r"] Cons.prems pub_frames_cons [OF f(1) Cons.prems(4)]
    by (simp add: algebra_simps)
qed

section \<open>Properties\<close>

text \<open>C1. No packet disappears unaccounted for. Whatever the interleaving of publishers, IPC requests, the
  pipe, the send worker and the shutdown, every packet that was queued has been sent, has failed to send, was
  dropped for want of a socket, is in the worker's hand or is still in the ring: the counters add up
  (as 64-bit numbers) and the ring never holds more than 1024 packets.\<close>

theorem router_conservation:
  assumes "router_reach r"
  shows "packetsQueued r = packetsSent r + sendFailures r + socketClosedDrops r +
           word_of_nat (length (in_hand r) + qCount (queue r)) \<and>
         qCount (queue r) \<le> 1024"
  using router_reach_inv [OF assms]
  by (simp add: router_inv_def flow_inv_def queue_inv_def kSendQueueCapacity_def)

definition demo_router :: router where
  "demo_router = worker_pop (fst (api_PublishOsc (str ''/a'') (str '',i'') [0, 0, 0, 7]
     (Init NoMapping True (router_new demo_raw))))"

lemma demo_router_reach: "router_reach demo_router"
proof -
  let ?r0 = "Init NoMapping True (router_new demo_raw)"
  define r1 where "r1 = fst (api_PublishOsc (str ''/a'') (str '',i'') [0, 0, 0, 7] ?r0)"
  have "router_step ?r0 r1" unfolding r1_def by (rule S_publish)
  moreover have "\<not> stop r1" "inflight r1 = None"
    by (simp_all add: r1_def api_PublishOsc_def PublishOsc_def BuildAndEnqueue_def Init_def UdpSender_Open_def
        router_new_def count_drop_def count_queued_def Let_def case_prod_beta)
  then have "router_step r1 (worker_pop r1)" by (rule S_pop)
  moreover have "length demo_raw = kMaxRoutes" by (simp add: demo_raw_def kMaxRoutes_def)
  moreover have "demo_router = worker_pop r1" by (simp add: demo_router_def r1_def)
  ultimately show ?thesis
    unfolding router_reach_def by (metis r_into_rtranclp rtranclp.rtrancl_into_rtrancl)
qed

theorem router_conservation_witness:
  "router_reach demo_router \<and> qCount (queue demo_router) \<le> 1024 \<and>
   packetsQueued demo_router = packetsSent demo_router + sendFailures demo_router + socketClosedDrops demo_router +
     word_of_nat (length (in_hand demo_router) + qCount (queue demo_router))"
  using router_conservation [OF demo_router_reach] demo_router_reach by blast

text \<open>C2. Datagrams leave in the order in which their packets were accepted: the sequence of datagrams sent is
  a subsequence of the packets accepted, in every interleaving, and \<open>packetsSent\<close> is its length modulo
  64 bits.\<close>

theorem router_sends_in_order:
  assumes "router_reach r"
  shows "subseq (wire r @ in_hand r @ queue_abs (queue r)) (accepted r) \<and>
         packetsSent r = word_of_nat (length (wire r))"
proof -
  obtain handled where "accepted r = handled @ in_hand r @ queue_abs (queue r)" "subseq (wire r) handled"
      "packetsSent r = word_of_nat (length (wire r))"
    using router_reach_inv [OF assms] by (auto simp: router_inv_def flow_inv_def)
  then show ?thesis by (simp add: list_emb_append_mono)
qed

theorem router_sends_in_order_witness:
  "router_reach demo_router \<and>
   subseq (wire demo_router @ in_hand demo_router @ queue_abs (queue demo_router)) (accepted demo_router)"
  using router_sends_in_order [OF demo_router_reach] demo_router_reach by blast

text \<open>C3. Publishing on a running router has exactly three outcomes. A message whose encoding exceeds 512 bytes
  only raises \<open>oversizedPackets\<close>; one that meets a full ring is counted as dropped, also on every route
  it matches; any other is appended to the ring as bytes that parse back to the address, typetag and
  arguments published.\<close>

theorem PublishOsc_outcomes:
  assumes "queue_inv (queue r)" and "\<not> stop r" and "is_cstr a" and "is_cstr t"
    and "length a + 4 < 2 ^ 32" and "length t + 4 < 2 ^ 32"
  shows "let pkt = osc_msg a t args; (r', ok) = PublishOsc a t args r
         in if length pkt > 512 then \<not> ok \<and> r' = r\<lparr>oversizedPackets := oversizedPackets r + 1\<rparr>
            else if qCount (queue r) = 1024 then
              \<not> ok \<and> queue r' = queue r \<and> droppedCount r' = droppedCount r + 1 \<and>
              routeTable r' = BumpDropCount a (routeTable r)
            else ok \<and> queue_abs (queue r') = queue_abs (queue r) @ [pkt] \<and>
              packetsQueued r' = packetsQueued r + 1 \<and> routeTable r' = routeTable r \<and>
              OscParseMessage pkt = \<lparr>msg_address = Some a, msg_typetag = Some t, msg_args = args, msg_valid = True\<rparr>"
proof -
  have cap: "qCount (queue r) \<le> 1024" using assms(1) by (simp add: queue_inv_def kSendQueueCapacity_def)
  show ?thesis
    using assms cap sendq.enq_ok [OF assms(1), of "osc_msg a t args"]
      sendq.enq_contents [OF assms(1), of "osc_msg a t args"]
    by (auto simp: PublishOsc_def BuildAndEnqueue_def build_packet_ok build_packet_buf Let_def case_prod_beta
        count_drop_def count_queued_def entry_fits_def OscParseMessage_osc_msg
        kSendQueueCapacity_def kSendQueueEntryMaxSize_def)
qed

theorem PublishOsc_outcomes_witness:
  "let r = Init NoMapping True (router_new demo_raw)
   in snd (PublishOsc (str ''/a'') (str '',i'') [0, 0, 0, 7] r) \<and>
      queue_abs (queue (fst (PublishOsc (str ''/a'') (str '',i'') [0, 0, 0, 7] r))) =
        [osc_msg (str ''/a'') (str '',i'') [0, 0, 0, 7]]"
proof -
  define r where "r = Init NoMapping True (router_new demo_raw)"
  have r: "queue r = queue_new" "\<not> stop r"
    by (simp_all add: r_def Init_def UdpSender_Open_def router_new_def Let_def)
  have len: "length (str ''/a'') = 2" "length (str '',i'') = 2" by (simp_all add: str_def)
  have "is_cstr (str ''/a'')" "is_cstr (str '',i'')" by code_simp+
  moreover have "length (str ''/a'') + 4 < 2 ^ 32" "length (str '',i'') + 4 < 2 ^ 32"
      "length (osc_msg (str ''/a'') (str '',i'') [0, 0, 0, 7]) \<le> 512"
    by (simp_all add: len osc_msg_def length_osc_str pad4_eq)
  ultimately show ?thesis
    using PublishOsc_outcomes [of r "str ''/a''" "str '',i''" "[0, 0, 0, 7]"] r queue_new_inv
    unfolding r_def [symmetric] Let_def by (auto simp: case_prod_beta queue_new_def)
qed

text \<open>C16. \<open>HandlePublish\<close> trusts \<open>arg_len\<close>. Up to 32 it uses only the request; above 32 it reads past
  \<open>arg_bytes\<close>, and with room in the ring the bytes that lie behind the structure are queued for sending.\<close>

theorem HandlePublish_overread:
  assumes "length (op_arg_bytes p) = 32" and "queue_inv (queue r)"
  shows "(unat (op_arg_len p) \<le> 32 \<longrightarrow> HandlePublish (p\<lparr>op_beyond := b\<rparr>) r = HandlePublish p r) \<and>
         (let pkt = osc_msg (cstr (op_address p)) (cstr (op_typetag p))
                (op_arg_bytes p @ take (unat (op_arg_len p) - 32) (op_beyond p))
          in 32 < unat (op_arg_len p) \<and> length pkt \<le> 512 \<and> qCount (queue r) < 1024 \<longrightarrow>
               queue_abs (queue (fst (HandlePublish p r))) = queue_abs (queue r) @ [pkt])"
  using assms sendq.enq_ok [OF assms(2)] sendq.enq_contents [OF assms(2)]
  by (auto simp: HandlePublish_def publish_args_def BuildAndEnqueue_def build_packet_ok build_packet_buf Let_def
      case_prod_beta count_queued_def entry_fits_def kSendQueueCapacity_def kSendQueueEntryMaxSize_def)

theorem HandlePublish_overread_witness:
  "let p = \<lparr>op_address = str ''/a'' @ replicate 62 0, op_typetag = str '',i'' @ replicate 6 0, op_arg_len = 36,
            op_arg_bytes = replicate 32 1, op_beyond = [83, 69, 67, 82]\<rparr>;
       r = Init NoMapping True (router_new demo_raw)
   in queue_abs (queue (fst (HandlePublish p r))) =
        [osc_msg (str ''/a'') (str '',i'') (replicate 32 1 @ [83, 69, 67, 82])]"
proof -
  define p where "p = \<lparr>op_address = str ''/a'' @ replicate 62 0, op_typetag = str '',i'' @ replicate 6 0, op_arg_len = 36,
      op_arg_bytes = replicate 32 1, op_beyond = [83, 69, 67, 82]\<rparr>"
  define r where "r = Init NoMapping True (router_new demo_raw)"
  have r: "queue r = queue_new" by (simp add: r_def Init_def UdpSender_Open_def router_new_def Let_def)
  have c: "cstr (op_address p) = str ''/a''" "cstr (op_typetag p) = str '',i''"
    unfolding p_def by code_simp+
  have len: "length (str ''/a'') = 2" "length (str '',i'') = 2" by (simp_all add: str_def)
  have "length (osc_msg (str ''/a'') (str '',i'') (replicate 32 1 @ [83, 69, 67, 82])) \<le> 512"
    by (simp add: len osc_msg_def length_osc_str pad4_eq)
  moreover have "length (op_arg_bytes p) = 32" "unat (op_arg_len p) = 36" "op_arg_bytes p = replicate 32 1"
      "op_beyond p = [83, 69, 67, 82]" by (simp_all add: p_def)
  ultimately show ?thesis
    using HandlePublish_overread [of p r "[]"] r c queue_new_inv
    unfolding p_def [symmetric] r_def [symmetric] Let_def by (simp add: queue_new_def)
qed

text \<open>C12. A pipe client that sends its 32-byte source id and then well-formed frames, each a little-endian
  length between 1 and 512 and that many bytes, gets every frame queued unchanged and in order, as
  long as the ring has room; closing the pipe afterwards is counted as one read break.\<close>

theorem pub_session_delivers:
  assumes "queue_inv (queue r)" and "\<not> stop r" and "length src = 32"
    and "\<forall>f \<in> set fs. good_frame f" and "qCount (queue r) + length fs \<le> 1024"
  shows "let r' = pub_session (src @ concat (map frame_enc fs)) PipeDisconnected r
         in queue_abs (queue r') = queue_abs (queue r) @ fs \<and>
            pubPipeFrames r' = pubPipeFrames r + word_of_nat (length fs) \<and>
            pubPipeReadBreaks r' = pubPipeReadBreaks r + 1"
  using pub_frames_run [OF assms(1,5,4,2)] assms(3) by (simp add: pub_session_def read_exact_def)

theorem pub_session_delivers_witness:
  "let r = Init NoMapping True (router_new demo_raw);
       r' = pub_session (replicate 32 65 @ frame_enc [1, 2, 3, 4] @ frame_enc [5]) PipeDisconnected r
   in queue_abs (queue r') = [[1, 2, 3, 4], [5]] \<and> pubPipeFrames r' = 2"
proof -
  define r where "r = Init NoMapping True (router_new demo_raw)"
  have r: "queue r = queue_new" "\<not> stop r" "pubPipeFrames r = 0"
    by (simp_all add: r_def Init_def UdpSender_Open_def router_new_def Let_def)
  have "\<forall>f \<in> set [[1, 2, 3, 4], [5]]. good_frame f"
    by (simp add: good_frame_def kSendQueueEntryMaxSize_def)
  then show ?thesis
    using pub_session_delivers [of r "replicate 32 65" "[[1, 2, 3, 4], [5]]"] r queue_new_inv
    unfolding r_def [symmetric] Let_def by (simp add: queue_new_def)
qed

text \<open>A closed socket is not retried on a configuration push of the port already in use. After a failed
  \<open>Open\<close>, pushing the unchanged \<open>sendPort\<close> succeeds at the IPC level, but the worker takes it for no
  change and keeps dropping packets; a push of any other port does reopen the socket.\<close>

theorem config_push_same_port:
  assumes "sock r = None" and "port \<noteq> 0"
  shows "snd (HandleSetConfig port r) = ResponseSuccess \<and>
         sock (worker_reopen True (fst (HandleSetConfig port r))) =
           (if port = sendPort r then None else Some port)"
  using assms by (simp add: HandleSetConfig_def worker_reopen_def UdpSender_Open_def UdpSender_Close_def Let_def)

theorem config_push_same_port_witness:
  "let r = Init NoMapping False (router_new demo_raw)
   in sock r = None \<and> sock (worker_reopen True (fst (HandleSetConfig 9000 r))) = None \<and>
      sock (worker_reopen True (fst (HandleSetConfig 9001 r))) = Some 9001"
proof -
  define r where "r = Init NoMapping False (router_new demo_raw)"
  have "sock r = None" "sendPort r = 9000"
    by (simp_all add: r_def Init_def UdpSender_Open_def router_new_def Let_def)
  then show ?thesis
    using config_push_same_port [of r 9000] config_push_same_port [of r 9001]
    unfolding r_def [symmetric] Let_def by simp
qed

end
