(* ===== verification/ShmemRings.thy ===== *)
theory ShmemRings
  imports Snapshots
begin

text \<open>
  The two ring buffers of \<open>core/src/common/Protocol.h\<close>: the face-tracking frames (32 sequence-locked
  slots, \<open>FaceTrackingFrameShmem\<close>) and the driver pose stream with its telemetry counters
  (65536 samples and a free-running index, \<open>DriverPoseShmem\<close>).
\<close>

section \<open>FaceTrackingFrameShmem\<close>

text \<open>The wire body is its 472 bytes (\<open>sizeof(FaceTrackingFrameBodyWire)\<close>).\<close>

definition face_size :: nat where "face_size = 472"

definition RING_SIZE :: nat where "RING_SIZE = 32"

record face_data = shm_header +
  ring_size :: u32
  host_state :: u32
  host_heartbeat_qpc :: u64
  publish_index :: u64
  face_slots :: "seq_slot list"

datatype HostState = HostStateLegacy | HostStatePublishing | HostStateIdle | HostStateDraining

fun host_state_code :: "HostState \<Rightarrow> u32" where
  "host_state_code HostStateLegacy = 0"
| "host_state_code HostStatePublishing = 1"
| "host_state_code HostStateIdle = 2"
| "host_state_code HostStateDraining = 3"

definition Face_Create :: "face_data os_mapping \<Rightarrow> face_data option" where
  "Face_Create = shm_Create (\<lambda>d. (shm_stamp 0x46544652 3 d)\<lparr>ring_size := word_of_nat RING_SIZE\<rparr>)"

definition Face_Open :: "face_data os_mapping \<Rightarrow> shm_error + face_data" where
  "Face_Open = shm_Open 0x46544652 3"

definition PublishIndex :: "face_data option \<Rightarrow> u64" where
  "PublishIndex pd = (case pd of None \<Rightarrow> 0 | Some d \<Rightarrow> publish_index d)"

definition HostHeartbeatQpc :: "face_data option \<Rightarrow> u64" where
  "HostHeartbeatQpc pd = (case pd of None \<Rightarrow> 0 | Some d \<Rightarrow> host_heartbeat_qpc d)"

definition HostStateField :: "face_data option \<Rightarrow> u32" where
  "HostStateField pd = (case pd of None \<Rightarrow> host_state_code HostStateLegacy | Some d \<Rightarrow> host_state d)"

definition ResetHostLiveness :: "face_data option \<Rightarrow> face_data option" where
  "ResetHostLiveness pd =
     map_option (\<lambda>d. d\<lparr>host_state := host_state_code HostStateLegacy, host_heartbeat_qpc := 0\<rparr>) pd"

definition ring_slot :: "u64 \<Rightarrow> nat" where
  "ring_slot idx = unat ((idx - 1) mod word_of_nat RING_SIZE)"

definition TryReadLatestWire :: "nat \<Rightarrow> face_data option \<Rightarrow> bytes option" where
  "TryReadLatestWire max_retries pd =
     (case pd of
        None \<Rightarrow> None
      | Some d \<Rightarrow>
          let idx = publish_index d in
          if idx = 0 then None
          else map_option body_view (slot_read max_retries (face_slots d ! ring_slot idx)))"

definition TryReadWireByIndex :: "u64 \<Rightarrow> nat \<Rightarrow> face_data option \<Rightarrow> bytes option" where
  "TryReadWireByIndex target_index max_retries pd =
     (case pd of
        None \<Rightarrow> None
      | Some d \<Rightarrow>
          if target_index = 0 then None
          else let now = publish_index d in
            if target_index > now then None
            else if now - target_index \<ge> word_of_nat RING_SIZE then None
            else map_option body_view (slot_read max_retries (face_slots d ! ring_slot target_index)))"

definition Face_Publish :: "bytes \<Rightarrow> face_data option \<Rightarrow> face_data option" where
  "Face_Publish b pd =
     map_option (\<lambda>d.
       let nxt = publish_index d + 1
       in d\<lparr>face_slots := upd_list (ring_slot nxt) (slot_write (body_prog b)) (face_slots d),
            publish_index := nxt\<rparr>) pd"

interpretation face_slot: snapshot_layout face_size "\<lambda>b. length b = face_size" body_prog body_view "\<lambda>_ b. b"
  by unfold_locales (simp add: body_view_write)

text \<open>The ring after the frames \<open>bs\<close> have been published into it.\<close>

definition face_inv :: "bytes list \<Rightarrow> face_data \<Rightarrow> bool" where
  "face_inv bs d \<longleftrightarrow>
     publish_index d = word_of_nat (length bs) \<and> length (face_slots d) = RING_SIZE \<and>
     (\<forall>s \<in> set (face_slots d). generation s AND 1 = 0 \<and> length (body s) = face_size) \<and>
     (\<forall>j < length bs. length bs \<le> j + RING_SIZE \<longrightarrow>
        body_view (body (face_slots d ! (j mod RING_SIZE))) = bs ! j)"

lemma ring_slot_Suc: "Suc j < 2 ^ 64 \<Longrightarrow> ring_slot (word_of_nat (Suc j)) = j mod RING_SIZE"
  by (simp add: ring_slot_def RING_SIZE_def unat_mod unat_word_of_nat)

lemma mod_ring_eq:
  assumes "j mod RING_SIZE = n mod RING_SIZE" "j \<le> n" "Suc n \<le> j + RING_SIZE"
  shows "j = n"
proof -
  obtain k where "n = j + RING_SIZE * k" using assms(1,2) by (metis mod_eq_nat2E)
  with assms(3) show ?thesis by (cases k) (auto simp: RING_SIZE_def)
qed

lemma face_inv_publish:
  assumes "face_inv bs d" and "length b = face_size" and "Suc (length bs) < 2 ^ 64"
  shows "\<exists>d'. Face_Publish b (Some d) = Some d' \<and> face_inv (bs @ [b]) d'"
proof -
  let ?n = "length bs"
  let ?i = "?n mod RING_SIZE"
  let ?d' = "d\<lparr>face_slots := upd_list ?i (slot_write (body_prog b)) (face_slots d),
      publish_index := word_of_nat (Suc ?n)\<rparr>"
  have i: "?i < length (face_slots d)" using assms(1) by (simp add: face_inv_def RING_SIZE_def)
  have pub: "Face_Publish b (Some d) = Some ?d'"
    using assms(1,3) ring_slot_Suc [of ?n] by (simp add: Face_Publish_def face_inv_def add.commute)
  have slots: "generation s AND 1 = 0 \<and> length (body s) = face_size" if "s \<in> set (face_slots ?d')" for s
    using assms(1) that i
    by (auto simp: face_inv_def upd_list_def and_one_even dest!: set_update_subset_insert [THEN subsetD])
  have new: "body_view (body (face_slots ?d' ! ?i)) = b"
    using assms(1,2) i by (simp add: nth_upd_list body_view_write face_inv_def)
  have "body_view (body (face_slots ?d' ! (j mod RING_SIZE))) = (bs @ [b]) ! j"
    if "j < Suc ?n" "Suc ?n \<le> j + RING_SIZE" for j
  proof (cases "j = ?n")
    case True
    with new show ?thesis by simp
  next
    case False
    then have "j mod RING_SIZE \<noteq> ?i" using mod_ring_eq [of j ?n] that by auto
    then show ?thesis
      using assms(1) that False by (simp add: face_inv_def nth_upd_list nth_append RING_SIZE_def)
  qed
  with assms(1) slots pub show ?thesis by (auto simp: face_inv_def)
qed

lemma face_inv_run:
  assumes "face_inv [] d" and "\<forall>b \<in> set bs. length b = face_size" and "length bs < 2 ^ 64"
  shows "\<exists>d'. fold Face_Publish bs (Some d) = Some d' \<and> face_inv bs d'"
  using assms(2,3)
proof (induction bs rule: rev_induct)
  case (snoc b bs)
  then obtain d' where "fold Face_Publish bs (Some d) = Some d'" "face_inv bs d'" by auto
  then show ?case using face_inv_publish [of bs d' b] snoc.prems by simp
qed (use assms(1) in simp)

lemma face_read:
  assumes "face_inv bs d" and "j < length bs" and "length bs \<le> j + RING_SIZE" and "0 < n"
  shows "map_option body_view (slot_read n (face_slots d ! (j mod RING_SIZE))) = Some (bs ! j)"
proof -
  have "face_slots d ! (j mod RING_SIZE) \<in> set (face_slots d)"
    using assms(1) by (auto simp: face_inv_def RING_SIZE_def intro!: nth_mem)
  with assms show ?thesis by (auto simp: face_inv_def slot_read_even)
qed

section \<open>DriverPoseShmem\<close>

text \<open>
  \<open>vr::DriverPose_t\<close> as far as the stream looks into it: the validity flag, whether \<open>result\<close> is
  \<open>TrackingResult_Running_OK\<close>, and the remaining bytes.
\<close>

record driver_pose =
  poseIsValid :: bool
  running_ok :: bool
  pose_rest :: bytes

record AugmentedPose =
  sample_time :: u64
  deviceId :: int
  ap_pose :: driver_pose

datatype TelemetryField =
    TELEMETRY_FALLBACK_APPLY | TELEMETRY_PER_ID_APPLY | TELEMETRY_QUASH_APPLY | TELEMETRY_DRIVER_SYNTH_FALLBACK

record pose_data = shm_header +
  fallback_apply_count :: u64
  per_id_apply_count :: u64
  quash_apply_count :: u64
  driver_synth_fallback_count :: u64
  pose_index :: u64
  poses :: "AugmentedPose list"

definition BUFFERED_SAMPLES :: nat where "BUFFERED_SAMPLES = 64 * 1024"

definition k_unMaxTrackedDeviceCount :: nat where "k_unMaxTrackedDeviceCount = 64"

definition Pose_Create :: "pose_data os_mapping \<Rightarrow> pose_data option" where
  "Pose_Create = shm_Create (shm_stamp 0xCA11B8A7 1)"

definition Pose_Open :: "pose_data os_mapping \<Rightarrow> shm_error + pose_data" where
  "Pose_Open = shm_Open 0xCA11B8A7 1"

text \<open>
  \<open>SetPose\<close> at performance-counter time \<open>t\<close>. The comparison with the unsigned device limit converts the
  index, so a negative index is out of range as well.
\<close>

definition SetPose :: "int \<Rightarrow> driver_pose \<Rightarrow> u64 \<Rightarrow> pose_data option \<Rightarrow> pose_data option" where
  "SetPose idx pose t pd =
     (if (word_of_int idx :: u32) \<ge> word_of_nat k_unMaxTrackedDeviceCount then pd
      else map_option (\<lambda>d.
        let aug = \<lparr>sample_time = t, deviceId = idx, ap_pose = pose\<rparr>;
            cur_index = pose_index d + 1
        in d\<lparr>poses := (poses d)[unat (cur_index mod word_of_nat BUFFERED_SAMPLES) := aug],
             pose_index := cur_index\<rparr>) pd)"

text \<open>The overlay's side of the stream: its private cursor and the last pose per device.\<close>

record pose_reader =
  cursor :: u64
  lastPose :: "AugmentedPose list"

definition resync :: "u64 \<Rightarrow> u64 \<Rightarrow> u64" where
  "resync cur_index c =
     (if cur_index < c \<or> cur_index - c > word_of_nat (BUFFERED_SAMPLES div 2) then
        (if cur_index < word_of_nat (BUFFERED_SAMPLES div 2) then cur_index
         else cur_index - word_of_nat (BUFFERED_SAMPLES div 2))
      else c)"

text \<open>
  \<open>ReadNewPoses\<close>: the samples handed to the callback, in order, and the reader afterwards; \<open>None\<close> is
  the exception \<open>Not open\<close>. The loop stops at \<open>cur_index\<close>, so the cursor cannot wrap.
\<close>

definition ReadNewPoses :: "pose_reader \<Rightarrow> pose_data option \<Rightarrow> (AugmentedPose list \<times> pose_reader) option" where
  "ReadNewPoses r pd =
     (case pd of
        None \<Rightarrow> None
      | Some d \<Rightarrow>
          let cur_index = pose_index d;
              c = resync cur_index (cursor r)
          in Some (map (\<lambda>j. poses d ! (j mod BUFFERED_SAMPLES)) [unat c..<unat cur_index],
                   r\<lparr>cursor := cur_index\<rparr>))"

definition keep_pose :: "AugmentedPose \<Rightarrow> AugmentedPose list \<Rightarrow> AugmentedPose list" where
  "keep_pose p lp = (if poseIsValid (ap_pose p) \<and> running_ok (ap_pose p) then lp[nat (deviceId p) := p] else lp)"

definition GetPose ::
  "int \<Rightarrow> pose_reader \<Rightarrow> pose_data option \<Rightarrow> ((driver_pose \<times> u64) option \<times> pose_reader) option" where
  "GetPose idx r pd =
     map_option (\<lambda>(new, r').
       let lp = fold keep_pose new (lastPose r');
           r'' = r'\<lparr>lastPose := lp\<rparr>
       in (if idx \<ge> 0 \<and> idx < int k_unMaxTrackedDeviceCount
           then Some (ap_pose (lp ! nat idx), sample_time (lp ! nat idx)) else None, r''))
     (ReadNewPoses r pd)"

definition IncrementTelemetry :: "TelemetryField \<Rightarrow> pose_data option \<Rightarrow> pose_data option" where
  "IncrementTelemetry fld pd =
     map_option (\<lambda>d. case fld of
         TELEMETRY_FALLBACK_APPLY \<Rightarrow> d\<lparr>fallback_apply_count := fallback_apply_count d + 1\<rparr>
       | TELEMETRY_PER_ID_APPLY \<Rightarrow> d\<lparr>per_id_apply_count := per_id_apply_count d + 1\<rparr>
       | TELEMETRY_QUASH_APPLY \<Rightarrow> d\<lparr>quash_apply_count := quash_apply_count d + 1\<rparr>
       | TELEMETRY_DRIVER_SYNTH_FALLBACK \<Rightarrow> d\<lparr>driver_synth_fallback_count := driver_synth_fallback_count d + 1\<rparr>) pd"

definition GetTelemetry :: "pose_data option \<Rightarrow> (u64 \<times> u64 \<times> u64 \<times> u64) option" where
  "GetTelemetry pd =
     map_option (\<lambda>d. (fallback_apply_count d, per_id_apply_count d, quash_apply_count d,
                      driver_synth_fallback_count d)) pd"

text \<open>A write request and the sample it stores.\<close>

type_synonym pose_write = "int \<times> driver_pose \<times> u64"

definition aug_of :: "pose_write \<Rightarrow> AugmentedPose" where
  "aug_of w = (case w of (idx, pose, t) \<Rightarrow> \<lparr>sample_time = t, deviceId = idx, ap_pose = pose\<rparr>)"

definition good_dev :: "pose_write \<Rightarrow> bool" where
  "good_dev w \<longleftrightarrow> 0 \<le> fst w \<and> fst w < 64"

text \<open>Position \<open>j\<close> of the stream: what the segment held in slot 0 at first, then the writes in order.\<close>

definition stream_at :: "AugmentedPose \<Rightarrow> pose_write list \<Rightarrow> nat \<Rightarrow> AugmentedPose" where
  "stream_at z ws j = (case j of 0 \<Rightarrow> z | Suc i \<Rightarrow> aug_of (ws ! i))"

definition pose_inv :: "AugmentedPose \<Rightarrow> pose_write list \<Rightarrow> pose_data \<Rightarrow> bool" where
  "pose_inv z ws d \<longleftrightarrow>
     pose_index d = word_of_nat (length ws) \<and> length (poses d) = BUFFERED_SAMPLES \<and>
     (\<forall>j \<le> length ws. length ws < j + BUFFERED_SAMPLES \<longrightarrow> poses d ! (j mod BUFFERED_SAMPLES) = stream_at z ws j)"

lemma mod_buffer_eq:
  assumes "j mod BUFFERED_SAMPLES = n mod BUFFERED_SAMPLES" "j \<le> n" "n < j + BUFFERED_SAMPLES"
  shows "j = n"
proof -
  obtain k where "n = j + BUFFERED_SAMPLES * k" using assms(1,2) by (metis mod_eq_nat2E)
  with assms(3) show ?thesis by (cases k) auto
qed

lemma SetPose_good:
  assumes "good_dev (idx, pose, t)"
  shows "SetPose idx pose t (Some d) =
    Some (d\<lparr>poses := (poses d)[unat ((pose_index d + 1) mod word_of_nat BUFFERED_SAMPLES) := aug_of (idx, pose, t)],
            pose_index := pose_index d + 1\<rparr>)"
proof -
  have "(word_of_int idx :: u32) < 64"
    using assms by (simp add: good_dev_def word_less_def uint_word_of_int_eq take_bit_int_eq_self)
  then show ?thesis by (simp add: SetPose_def k_unMaxTrackedDeviceCount_def aug_of_def Let_def)
qed

lemma pose_inv_set:
  assumes "pose_inv z ws d" and "good_dev w" and "Suc (length ws) < 2 ^ 64"
  shows "\<exists>d'. (case w of (idx, pose, t) \<Rightarrow> SetPose idx pose t (Some d)) = Some d' \<and> pose_inv z (ws @ [w]) d'"
proof -
  obtain idx pose t where w: "w = (idx, pose, t)" by (metis prod_cases3)
  let ?n = "Suc (length ws)"
  let ?d' = "d\<lparr>poses := (poses d)[?n mod BUFFERED_SAMPLES := aug_of w], pose_index := word_of_nat ?n\<rparr>"
  have next_index: "word_of_nat (length ws) + 1 = (word_of_nat ?n :: u64)" by simp
  have "unat (word_of_nat ?n :: u64) = ?n" using assms(3) by (intro unat_word_of_nat) simp
  moreover have "unat (word_of_nat BUFFERED_SAMPLES :: u64) = BUFFERED_SAMPLES"
    by (simp add: BUFFERED_SAMPLES_def)
  ultimately have "unat ((word_of_nat ?n :: u64) mod word_of_nat BUFFERED_SAMPLES) = ?n mod BUFFERED_SAMPLES"
    by (simp only: unat_mod)
  moreover have "pose_index d + 1 = word_of_nat ?n" using assms(1) next_index by (simp only: pose_inv_def)
  ultimately have set: "SetPose idx pose t (Some d) = Some ?d'"
    using SetPose_good [of idx pose t d] assms(2) by (simp only: w)
  have "poses ?d' ! (j mod BUFFERED_SAMPLES) = stream_at z (ws @ [w]) j"
    if "j \<le> ?n" "?n < j + BUFFERED_SAMPLES" for j
  proof (cases "j = ?n")
    case True
    then show ?thesis
      using assms(1) by (simp add: pose_inv_def stream_at_def BUFFERED_SAMPLES_def nth_append)
  next
    case False
    then have "j mod BUFFERED_SAMPLES \<noteq> ?n mod BUFFERED_SAMPLES" using mod_buffer_eq [of j ?n] that by auto
    then have "poses ?d' ! (j mod BUFFERED_SAMPLES) = poses d ! (j mod BUFFERED_SAMPLES)" by simp
    also have "\<dots> = stream_at z ws j" using assms(1) that False by (simp add: pose_inv_def)
    also have "\<dots> = stream_at z (ws @ [w]) j"
      using that False by (auto simp: stream_at_def nth_append split: nat.split)
    finally show ?thesis .
  qed
  with assms(1) set show ?thesis by (auto simp: w pose_inv_def)
qed

lemma resync_bounds:
  "resync n c \<le> n \<and> n - resync n c \<le> word_of_nat (BUFFERED_SAMPLES div 2)"
  by (auto simp: resync_def not_less word_sub_le)

lemma ReadNewPoses_stream:
  assumes "pose_inv z ws d" and "length ws < 2 ^ 64"
  shows "ReadNewPoses r (Some d) =
    Some (map (stream_at z ws) [unat (resync (word_of_nat (length ws)) (cursor r))..<length ws],
          r\<lparr>cursor := word_of_nat (length ws)\<rparr>)"
proof -
  let ?n = "word_of_nat (length ws) :: u64"
  let ?c = "resync ?n (cursor r)"
  have n: "unat ?n = length ws" using assms(2) by (simp add: unat_word_of_nat)
  have "unat (?n - ?c) \<le> BUFFERED_SAMPLES div 2"
    using resync_bounds [of ?n "cursor r"] by (simp add: word_le_nat_alt BUFFERED_SAMPLES_def)
  then have "length ws < j + BUFFERED_SAMPLES" if "unat ?c \<le> j" for j
    using that resync_bounds [of ?n "cursor r"] n by (simp add: unat_sub BUFFERED_SAMPLES_def)
  then show ?thesis
    using assms(1) n by (auto simp: ReadNewPoses_def pose_inv_def Let_def)
qed

text \<open>
  A session: the driver's writes and the overlay's reads in the order in which they happen, each as a whole, on a fresh segment with a new reader. What
  each read hands out, the reader and the segment afterwards.
\<close>

datatype pose_event = PWrite pose_write | PRead

fun pose_step :: "pose_event \<Rightarrow> AugmentedPose list list \<times> pose_reader \<times> pose_data option \<Rightarrow> AugmentedPose list list \<times> pose_reader \<times> pose_data option" where
  "pose_step (PWrite (idx, pose, t)) (out, r, pd) = (out, r, SetPose idx pose t pd)"
| "pose_step PRead (out, r, pd) =
     (case ReadNewPoses r pd of None \<Rightarrow> (out, r, pd) | Some (new, r') \<Rightarrow> (out @ [new], r', pd))"

definition pose_session :: "pose_event list \<Rightarrow> pose_reader \<Rightarrow> pose_data \<Rightarrow> AugmentedPose list list \<times> pose_reader \<times> pose_data option" where
  "pose_session es r d = fold pose_step es ([], r, Some d)"

fun writes :: "pose_event list \<Rightarrow> pose_write list" where
  "writes [] = []"
| "writes (PWrite w # es) = w # writes es"
| "writes (PRead # es) = writes es"

text \<open>The number of writes before the last read.\<close>

definition seen_writes :: "pose_event list \<Rightarrow> nat" where
  "seen_writes es = length (writes (rev (dropWhile (\<lambda>e. e \<noteq> PRead) (rev es))))"

text \<open>No read comes more than half a buffer of writes after the one before.\<close>

definition keeps_up :: "pose_event list \<Rightarrow> bool" where
  "keeps_up es \<longleftrightarrow> (\<forall>k < length es. es ! k = PRead \<longrightarrow> length (writes (take k es)) \<le> seen_writes (take k es) + 32768)"

lemma writes_append: "writes (es @ fs) = writes es @ writes fs"
  by (induction es rule: writes.induct) simp_all

lemma seen_writes_snoc: "seen_writes (es @ [PRead]) = length (writes es)" "seen_writes (es @ [PWrite w]) = seen_writes es" "seen_writes [] = 0"
  by (simp_all add: seen_writes_def writes_append)

lemma seen_writes_le: "seen_writes es \<le> length (writes es)"
proof (induction es rule: rev_induct)
  case (snoc e es)
  then show ?case by (cases e) (simp_all add: seen_writes_snoc writes_append)
qed (simp add: seen_writes_snoc)

lemma keeps_up_snoc: "keeps_up (es @ [e]) \<longleftrightarrow> keeps_up es \<and> (e = PRead \<longrightarrow> length (writes es) \<le> seen_writes es + 32768)"
  unfolding keeps_up_def by (auto simp: less_Suc_eq nth_append)

lemma resync_nat:
  assumes "c \<le> n" "n < 2 ^ 64"
  shows "unat (resync (word_of_nat n) (word_of_nat c)) = (if n \<le> c + 32768 then c else n - 32768)"
proof -
  have u: "unat (word_of_nat n :: u64) = n" "unat (word_of_nat c :: u64) = c" using assms by (simp_all add: unat_word_of_nat)
  have half: "word_of_nat (BUFFERED_SAMPLES div 2) = (32768 :: u64)" by (simp add: BUFFERED_SAMPLES_def)
  have le: "(word_of_nat c :: u64) \<le> word_of_nat n" using assms(1) by (simp only: word_le_nat_alt u)
  then have d: "unat (word_of_nat n - word_of_nat c :: u64) = n - c" by (simp only: unat_sub u)
  have gt: "(word_of_nat n - word_of_nat c :: u64) > 32768 \<longleftrightarrow> n > c + 32768" using d assms(1) by (auto simp: word_less_nat_alt)
  have lt: "(word_of_nat n :: u64) < 32768 \<longleftrightarrow> n < 32768" using u by (simp add: word_less_nat_alt)
  have "unat (word_of_nat n - 32768 :: u64) = n - 32768" if "\<not> n < 32768"
    using that u(1) by (subst unat_sub) (simp_all add: word_le_nat_alt)
  then show ?thesis using le gt lt u by (auto simp: resync_def half not_less)
qed

lemma stream_list: "n \<le> length ws \<Longrightarrow> map (stream_at z ws) [k..<n] = drop k (take n (z # map aug_of ws))"
  by (rule nth_equalityI) (auto simp: stream_at_def nth_Cons split: nat.split)

lemma pose_session_inv:
  assumes "pose_index d = 0" and "length (poses d) = BUFFERED_SAMPLES" and "cursor r = 0" and "list_all good_dev (writes es)" and "length (writes es) < 2 ^ 64"
  shows "\<exists>out r' d'. pose_session es r d = (out, r', Some d') \<and> pose_inv (poses d ! 0) (writes es) d' \<and> cursor r' = word_of_nat (seen_writes es) \<and>
    (keeps_up es \<longrightarrow> concat out = take (seen_writes es) (poses d ! 0 # map aug_of (writes es)))"
  using assms(4,5)
proof (induction es rule: rev_induct)
  case Nil
  show ?case using assms(1-3) by (auto simp: pose_session_def pose_inv_def stream_at_def seen_writes_snoc)
next
  case (snoc e es)
  define z where "z = poses d ! 0"
  obtain out r' d' where IH: "pose_session es r d = (out, r', Some d')" "pose_inv z (writes es) d'" "cursor r' = word_of_nat (seen_writes es)"
      "keeps_up es \<longrightarrow> concat out = take (seen_writes es) (z # map aug_of (writes es))"
    using snoc by (auto simp: writes_append z_def)
  show ?case
  proof (cases e)
    case (PWrite w)
    obtain idx pose t where w: "w = (idx, pose, t)" by (metis prod_cases3)
    have "good_dev w" "Suc (length (writes es)) < 2 ^ 64" using snoc.prems by (simp_all add: PWrite writes_append)
    then obtain d2 where "SetPose idx pose t (Some d') = Some d2" "pose_inv z (writes es @ [w]) d2"
      using pose_inv_set [OF IH(2), of w] unfolding w prod.case by blast
    moreover have "take (seen_writes es) ((z # map aug_of (writes es)) @ [x]) = take (seen_writes es) (z # map aug_of (writes es))" for x
      using seen_writes_le [of es] by (simp only: take_append) simp
    ultimately show ?thesis using IH
      by (simp add: PWrite w pose_session_def writes_append seen_writes_snoc keeps_up_snoc z_def [symmetric])
  next
    case PRead
    define n c where "n = length (writes es)" and "c = seen_writes es"
    have n: "n < 2 ^ 64" "c \<le> n" using snoc.prems seen_writes_le [of es] by (simp_all add: PRead writes_append n_def c_def)
    define new where "new = drop (if n \<le> c + 32768 then c else n - 32768) (take n (z # map aug_of (writes es)))"
    have "ReadNewPoses r' (Some d') = Some (new, r'\<lparr>cursor := word_of_nat n\<rparr>)"
      using ReadNewPoses_stream [OF IH(2), of r'] resync_nat [OF n(2,1)] n
      by (simp add: IH(3) n_def [symmetric] c_def [symmetric] stream_list new_def)
    then have step: "pose_session (es @ [PRead]) r d = (out @ [new], r'\<lparr>cursor := word_of_nat n\<rparr>, Some d')" using IH(1) by (simp add: pose_session_def)
    have "take c xs @ drop c (take n xs) = take n xs" for xs :: "AugmentedPose list"
      using n(2) append_take_drop_id [of c "take n xs"] by (simp add: min_absorb1)
    then have "concat (out @ [new]) = take n (z # map aug_of (writes es))" if "keeps_up (es @ [PRead])"
      using that IH(4) by (simp add: keeps_up_snoc new_def n_def [symmetric] c_def [symmetric])
    then show ?thesis using IH(2) step by (simp add: PRead writes_append seen_writes_snoc z_def [symmetric] n_def [symmetric])
  qed
qed

section \<open>Properties\<close>

text \<open>C11. The frame ring keeps exactly the last 32 frames: after publishing the frames \<open>bs\<close> into a fresh ring,
  \<open>TryReadWireByIndex\<close> returns frame number \<open>t\<close> (counted from 1) when it is among the last 32, and fails
  for index 0, for frames not yet published and for frames already overwritten.\<close>

theorem TryReadWireByIndex_history:
  assumes "face_inv [] d" and "\<forall>b \<in> set bs. length b = face_size" and "length bs < 2 ^ 64"
    and "t < 2 ^ 64" and "0 < n"
  shows "TryReadWireByIndex (word_of_nat t) n (fold Face_Publish bs (Some d)) =
    (if 0 < t \<and> t \<le> length bs \<and> length bs < t + 32 then Some (bs ! (t - 1)) else None)"
proof -
  obtain d' where run: "fold Face_Publish bs (Some d) = Some d'" and inv: "face_inv bs d'"
    using face_inv_run [OF assms(1-3)] by blast
  let ?now = "word_of_nat (length bs) :: u64" and ?t = "word_of_nat t :: u64"
  have un: "unat ?now = length bs" "unat ?t = t" using assms(3,4) by (simp_all add: unat_word_of_nat)
  have t0: "?t = 0 \<longleftrightarrow> t = 0" unfolding word_unat_eq_iff un by simp
  have gt: "?t > ?now \<longleftrightarrow> t > length bs" by (simp only: word_less_nat_alt un)
  have old: "?now - ?t \<ge> word_of_nat RING_SIZE \<longleftrightarrow> length bs \<ge> t + 32" if "t \<le> length bs"
    using that un by (simp add: word_le_nat_alt unat_sub RING_SIZE_def) linarith
  show ?thesis
  proof (cases "0 < t \<and> t \<le> length bs \<and> length bs < t + 32")
    case True
    then have "ring_slot ?t = (t - 1) mod RING_SIZE" using ring_slot_Suc [of "t - 1"] assms(4) by simp
    moreover have "t - 1 < length bs" "length bs \<le> t - 1 + RING_SIZE" using True by (auto simp: RING_SIZE_def)
    note face_read [OF inv this assms(5)]
    moreover have "publish_index d' = ?now" using inv by (simp add: face_inv_def)
    ultimately show ?thesis using True t0 gt old by (simp add: run TryReadWireByIndex_def Let_def)
  next
    case False
    moreover have "publish_index d' = ?now" using inv by (simp add: face_inv_def)
    ultimately show ?thesis using t0 gt old by (auto simp: run TryReadWireByIndex_def Let_def)
  qed
qed

theorem TryReadWireByIndex_history_witness:
  "let d = \<lparr>magic = 0x46544652, shmem_version = 3, ring_size = 32, host_state = 0, host_heartbeat_qpc = 0,
            publish_index = 0, face_slots = replicate 32 \<lparr>generation = 0, body = replicate 472 (CB 0)\<rparr>\<rparr>;
       bs = [replicate 472 1, replicate 472 2]
   in face_inv [] d \<and> TryReadWireByIndex 2 8 (fold Face_Publish bs (Some d)) = Some (replicate 472 2)"
proof -
  define d where "d = \<lparr>magic = 0x46544652, shmem_version = 3, ring_size = 32, host_state = 0, host_heartbeat_qpc = 0,
      publish_index = 0, face_slots = replicate 32 \<lparr>generation = 0, body = replicate 472 (CB 0)\<rparr>\<rparr>"
  have inv: "face_inv [] d" by (simp add: d_def face_inv_def RING_SIZE_def face_size_def)
  show ?thesis
    using TryReadWireByIndex_history [OF inv, of "[replicate 472 1, replicate 472 2]" 2 8] inv
    unfolding Let_def d_def [symmetric] by (simp add: face_size_def)
qed

text \<open>C15. The pose stream always lags one sample behind. In any session of writes and reads on a fresh segment, let position 0 of the stream be the
  never-written slot 0 and position \<open>j\<close> the \<open>j\<close>-th write. A reader that never falls more than 32768 writes behind has been handed exactly the positions below the number \<open>c\<close> of
  writes before its last read, in order, without gap or repeat: the never-written slot first and the newest sample not yet. A further read after \<open>n\<close> writes hands out the
  positions from \<open>c\<close> to \<open>n - 1\<close>, or only the last 32768 of them when there are more.\<close>

theorem ReadNewPoses_one_behind:
  assumes "pose_index d = 0" and "length (poses d) = BUFFERED_SAMPLES" and "cursor r = 0"
    and "list_all good_dev (writes es)" and "length (writes es) < 2 ^ 64"
  shows "let stream = poses d ! 0 # map aug_of (writes es); n = length (writes es); c = seen_writes es;
             out = fst (pose_session es r d)
         in (keeps_up es \<longrightarrow> concat out = take c stream) \<and>
            fst (pose_session (es @ [PRead]) r d) = out @ [drop (if n \<le> c + 32768 then c else n - 32768) (take n stream)]"
proof -
  define z where "z = poses d ! 0"
  define n c where "n = length (writes es)" and "c = seen_writes es"
  obtain out r' d' where i: "pose_session es r d = (out, r', Some d')" "pose_inv z (writes es) d'" "cursor r' = word_of_nat c"
      "keeps_up es \<longrightarrow> concat out = take c (z # map aug_of (writes es))"
    using pose_session_inv [OF assms] by (auto simp: z_def c_def)
  have n: "n < 2 ^ 64" "c \<le> n" using assms(5) seen_writes_le [of es] by (simp_all add: n_def c_def)
  have "ReadNewPoses r' (Some d') = Some (drop (if n \<le> c + 32768 then c else n - 32768) (take n (z # map aug_of (writes es))), r'\<lparr>cursor := word_of_nat n\<rparr>)"
    using ReadNewPoses_stream [OF i(2), of r'] resync_nat [OF n(2,1)] n
    by (simp add: i(3) n_def [symmetric] stream_list)
  moreover have "pose_session (es @ [PRead]) r d = pose_step PRead (pose_session es r d)" by (simp add: pose_session_def)
  ultimately show ?thesis using i by (simp add: Let_def n_def [symmetric] c_def [symmetric] z_def [symmetric])
qed

theorem ReadNewPoses_one_behind_witness:
  "let z = \<lparr>sample_time = 0, deviceId = 0, ap_pose = \<lparr>poseIsValid = False, running_ok = False, pose_rest = []\<rparr>\<rparr>;
       p = \<lparr>poseIsValid = True, running_ok = True, pose_rest = [1]\<rparr>;
       d = \<lparr>magic = 0xCA11B8A7, shmem_version = 1, fallback_apply_count = 0, per_id_apply_count = 0,
            quash_apply_count = 0, driver_synth_fallback_count = 0, pose_index = 0,
            poses = replicate BUFFERED_SAMPLES z\<rparr>;
       r = \<lparr>cursor = 0, lastPose = replicate 64 z\<rparr>
   in fst (pose_session ([PWrite (3, p, 100)] @ [PRead]) r d) = [[z]]"
proof -
  define z where "z = \<lparr>sample_time = 0, deviceId = 0, ap_pose = \<lparr>poseIsValid = False, running_ok = False, pose_rest = []\<rparr>\<rparr>"
  define p :: driver_pose where "p = \<lparr>poseIsValid = True, running_ok = True, pose_rest = [1]\<rparr>"
  define d where "d = \<lparr>magic = 0xCA11B8A7, shmem_version = 1, fallback_apply_count = 0, per_id_apply_count = 0,
      quash_apply_count = 0, driver_synth_fallback_count = 0, pose_index = 0, poses = replicate BUFFERED_SAMPLES z\<rparr>"
  define r where "r = \<lparr>cursor = 0, lastPose = replicate 64 z\<rparr>"
  have d: "poses d ! 0 = z" "pose_index d = 0" "length (poses d) = BUFFERED_SAMPLES" "cursor r = 0"
    by (simp_all add: BUFFERED_SAMPLES_def d_def r_def)
  have "seen_writes [PWrite (3, p, 100)] = 0" by (simp add: seen_writes_def)
  moreover have "fst (pose_session [PWrite (3, p, 100)] r d) = []" by (simp add: pose_session_def)
  ultimately show ?thesis
    using ReadNewPoses_one_behind [OF d(2-4), of "[PWrite (3, p, 100)]"] d(1)
    unfolding Let_def z_def [symmetric] p_def [symmetric] d_def [symmetric] r_def [symmetric] by (simp add: good_dev_def)
qed

end
