(* ===== verification/FileStore.thy ===== *)
theory FileStore
  imports Prelude "HOL-Library.Sublist"
begin

text \<open>
  Files as the sources use them: \<open>core/src/common/Win32Paths.cpp\<close> (path joining, the data root and its
  fall-backs, \<open>FileExists\<close>) and the text-file helpers of \<open>core/src/common/ModuleSafety.cpp\<close>. The store maps
  paths to contents; what the operating system may refuse is part of the environment.
\<close>

type_synonym path = string
type_synonym store = "path \<rightharpoonup> bytes"

text \<open>
  How a write goes: the file cannot be created, only the first bytes arrive, or everything is
  written.
\<close>

datatype write_outcome = No_create | Short nat | Written

text \<open>
  \<open>candidates\<close> is the list \<open>LocalAppDataLowCandidates\<close> computes, \<open>ensure\<close> whether a directory exists or can be
  created, \<open>temp_root\<close> the directory below the temporary path, \<open>override_root\<close> the environment
  variable for tests; empty strings mean absent.
\<close>

record fs_env =
  candidates :: "path list"
  ensure :: "path \<Rightarrow> bool"
  temp_root :: path
  override_root :: path
  write_result :: "path \<Rightarrow> write_outcome"
  may_delete :: "path \<Rightarrow> bool"
  may_read :: "path \<Rightarrow> bool"

abbreviation backslash :: char where "backslash \<equiv> CHR 0x5C"

text \<open>\<open>JoinPath\<close> of \<open>ModuleSafety.cpp\<close>; the one of \<open>Win32Paths.cpp\<close> also keeps the left side before an empty right.\<close>

definition JoinPath :: "path \<Rightarrow> path \<Rightarrow> path" where
  "JoinPath left right =
     (if left = [] then right
      else (if last left \<noteq> backslash \<and> last left \<noteq> CHR ''/'' then left @ [backslash] else left) @ right)"

definition Win32_JoinPath :: "path \<Rightarrow> path \<Rightarrow> path" where
  "Win32_JoinPath left right = (if left = [] then right else if right = [] then left else JoinPath left right)"

definition EnsureDirectory :: "fs_env \<Rightarrow> path \<Rightarrow> bool" where
  "EnsureDirectory env p \<longleftrightarrow> p \<noteq> [] \<and> ensure env p"

definition WkOpenVrRootPath :: "fs_env \<Rightarrow> bool \<Rightarrow> path" where
  "WkOpenVrRootPath env create =
     (case find (\<lambda>root. \<not> create \<or> EnsureDirectory env root)
             (map (\<lambda>c. Win32_JoinPath c ''WKOpenVR'') (candidates env)) of
        Some root \<Rightarrow> root
      | None \<Rightarrow> if create \<and> temp_root env \<noteq> [] \<and> EnsureDirectory env (temp_root env) then temp_root env else [])"

definition WkOpenVrSubdirectoryPath :: "fs_env \<Rightarrow> path \<Rightarrow> bool \<Rightarrow> path" where
  "WkOpenVrSubdirectoryPath env relative create =
     (let root = WkOpenVrRootPath env create;
          path = Win32_JoinPath root relative
      in if root = [] then [] else if create \<and> \<not> EnsureDirectory env path then [] else path)"

definition FileExists :: "path \<Rightarrow> store \<Rightarrow> bool" where
  "FileExists p fs \<longleftrightarrow> p \<noteq> [] \<and> p \<in> dom fs"

definition DeleteFileIfPresent :: "fs_env \<Rightarrow> path \<Rightarrow> store \<Rightarrow> store \<times> bool" where
  "DeleteFileIfPresent env p fs =
     (if p = [] then (fs, False)
      else if p \<notin> dom fs then (fs, True)
      else if may_delete env p then (fs(p := None), True)
      else (fs, False))"

definition WriteTextFile :: "fs_env \<Rightarrow> path \<Rightarrow> bytes \<Rightarrow> store \<Rightarrow> store \<times> bool" where
  "WriteTextFile env p b fs =
     (if p = [] then (fs, False)
      else case write_result env p of
        No_create \<Rightarrow> (fs, False)
      | Short n \<Rightarrow> (fs(p \<mapsto> take n b), n \<ge> length b)
      | Written \<Rightarrow> (fs(p \<mapsto> b), True))"

definition ReadTextFile :: "fs_env \<Rightarrow> path \<Rightarrow> store \<Rightarrow> bytes" where
  "ReadTextFile env p fs =
     (if p = [] then []
      else case fs p of
        None \<Rightarrow> []
      | Some b \<Rightarrow> if length b = 0 \<or> length b > 65536 then [] else if may_read env p then b else [])"

section \<open>Facts\<close>

lemma JoinPath_eq [simp]: "JoinPath l r = JoinPath l r' \<longleftrightarrow> r = r'"
  by (simp add: JoinPath_def)

lemma JoinPath_nonempty [simp]: "l \<noteq> [] \<Longrightarrow> JoinPath l r \<noteq> []"
  by (simp add: JoinPath_def)

text \<open>An environment that refuses nothing.\<close>

definition fs_good :: "fs_env \<Rightarrow> bool" where
  "fs_good env \<longleftrightarrow>
     (\<forall>p. write_result env p = Written \<and> may_delete env p \<and> may_read env p \<and> ensure env p)"

lemma fs_good_simps:
  assumes "fs_good env" "p \<noteq> []"
  shows "WriteTextFile env p b fs = (fs(p \<mapsto> b), True)"
    and "DeleteFileIfPresent env p fs = (fs(p := None), True)"
    and "0 < length b \<Longrightarrow> length b \<le> 65536 \<Longrightarrow> fs p = Some b \<Longrightarrow> ReadTextFile env p fs = b"
    and "fs p = None \<Longrightarrow> ReadTextFile env p fs = []"
  using assms by (auto simp: fs_good_def WriteTextFile_def DeleteFileIfPresent_def ReadTextFile_def fun_upd_idem_iff domIff)

lemma write_other: "p \<noteq> q \<Longrightarrow> fst (WriteTextFile env p b fs) q = fs q"
  by (auto simp: WriteTextFile_def split: write_outcome.split)

lemma delete_other: "p \<noteq> q \<Longrightarrow> fst (DeleteFileIfPresent env p fs) q = fs q"
  by (auto simp: DeleteFileIfPresent_def)

lemma delete_shrinks: "fst (DeleteFileIfPresent env p fs) q = None \<or> fst (DeleteFileIfPresent env p fs) q = fs q"
  by (auto simp: DeleteFileIfPresent_def)

section \<open>Searching text\<close>

text \<open>\<open>std::string_view::find\<close>: the first position at which the key starts.\<close>

fun find_sub :: "bytes \<Rightarrow> bytes \<Rightarrow> nat option" where
  "find_sub key [] = (if key = [] then Some 0 else None)"
| "find_sub key (b # bs) = (if prefix key (b # bs) then Some 0 else map_option Suc (find_sub key bs))"

lemma find_sub_at:
  assumes "prefix key (drop n s)" and "\<And>m. m < n \<Longrightarrow> \<not> prefix key (drop m s)" and "n \<le> length s"
  shows "find_sub key s = Some n"
  using assms
proof (induction s arbitrary: n)
  case (Cons b bs)
  show ?case
  proof (cases n)
    case (Suc k)
    have "find_sub key bs = Some k"
      using Cons.prems Suc Cons.prems(2) [of "Suc m" for m] by (intro Cons.IH) auto
    moreover have "\<not> prefix key (b # bs)" using Cons.prems(2) [of 0] Suc by simp
    ultimately show ?thesis using Suc by simp
  qed (use Cons.prems in simp)
qed auto

end
