(* ===== verification/ModuleRegistry.thy ===== *)
theory ModuleRegistry
  imports Prelude
begin

text \<open>
  The table of feature modules (\<open>core/src/common/ModuleRegistry.cpp\<close>): its nine rows and the lookups by id,
  slug and flag file name, with the facts the other components rely on.
\<close>

datatype ModuleId =
    Calibration | Smoothing | InputHealth | FaceTracking | OscRouterModule | Captions | PhantomModule | QuestApp
  | DynamicResolution

text \<open>The enumerators' values; 2 is unused.\<close>

fun module_code :: "ModuleId \<Rightarrow> u32" where
  "module_code Calibration = 0"
| "module_code Smoothing = 1"
| "module_code InputHealth = 3"
| "module_code FaceTracking = 4"
| "module_code OscRouterModule = 5"
| "module_code Captions = 6"
| "module_code PhantomModule = 7"
| "module_code QuestApp = 8"
| "module_code DynamicResolution = 9"

instantiation ModuleId :: enum
begin
definition enum_ModuleId :: "ModuleId list" where
  "enum_ModuleId = [Calibration, Smoothing, InputHealth, FaceTracking, OscRouterModule, Captions, PhantomModule, QuestApp,
     DynamicResolution]"
definition enum_all_ModuleId :: "(ModuleId \<Rightarrow> bool) \<Rightarrow> bool" where
  "enum_all_ModuleId P \<longleftrightarrow> list_all P enum_class.enum"
definition enum_ex_ModuleId :: "(ModuleId \<Rightarrow> bool) \<Rightarrow> bool" where
  "enum_ex_ModuleId P \<longleftrightarrow> list_ex P enum_class.enum"
instance
proof
  have all: "x \<in> set (enum_class.enum :: ModuleId list)" for x :: ModuleId
    by (cases x) (simp_all add: enum_ModuleId_def)
  then show U: "(UNIV :: ModuleId set) = set enum_class.enum" by auto
  show "distinct (enum_class.enum :: ModuleId list)" by (simp add: enum_ModuleId_def)
  show "enum_class.enum_all P \<longleftrightarrow> Ball UNIV P" for P :: "ModuleId \<Rightarrow> bool"
    by (simp add: enum_all_ModuleId_def list_all_iff U)
  show "enum_class.enum_ex P \<longleftrightarrow> Bex UNIV P" for P :: "ModuleId \<Rightarrow> bool"
    by (simp add: enum_ex_ModuleId_def list_ex_iff U)
qed
end

text \<open>Wide and narrow strings are both \<open>string\<close>; the table is pure ASCII.\<close>

record ModuleInfo =
  mi_id :: ModuleId
  slug :: string
  flag_file :: string
  flag_file_wide :: string
  legacy_flag_file :: "string option"
  legacy_flag_file_wide :: "string option"
  display_name :: string
  shortcut_label :: string
  shortcut_argument :: string
  pipe_name :: string
  requires_osc_router :: bool
  participates_in_driver_safety :: bool
  supports_desktop :: bool

text \<open>Two backslashes, a dot, a backslash, \<open>pipe\<close> and a backslash.\<close>

definition pipe_prefix :: string where
  "pipe_prefix = [CHR 0x5C, CHR 0x5C, CHR 0x2E, CHR 0x5C] @ ''pipe'' @ [CHR 0x5C]"

definition kModules :: "ModuleInfo list" where
  "kModules =
     [\<lparr>mi_id = Calibration, slug = ''calibration'', flag_file = ''enable_calibration.flag'',
       flag_file_wide = ''enable_calibration.flag'', legacy_flag_file = None, legacy_flag_file_wide = None,
       display_name = ''Space Calibrator'', shortcut_label = ''Space Calibrator'',
       shortcut_argument = ''--launch=calibration'', pipe_name = pipe_prefix @ ''WKOpenVR-Calibration'',
       requires_osc_router = False, participates_in_driver_safety = True, supports_desktop = False\<rparr>,
      \<lparr>mi_id = Smoothing, slug = ''smoothing'', flag_file = ''enable_smoothing.flag'',
       flag_file_wide = ''enable_smoothing.flag'', legacy_flag_file = None, legacy_flag_file_wide = None,
       display_name = ''Smoothing'', shortcut_label = ''Smoothing'',
       shortcut_argument = ''--launch=smoothing'', pipe_name = pipe_prefix @ ''WKOpenVR-Smoothing'',
       requires_osc_router = False, participates_in_driver_safety = True, supports_desktop = False\<rparr>,
      \<lparr>mi_id = InputHealth, slug = ''inputhealth'', flag_file = ''enable_inputhealth.flag'',
       flag_file_wide = ''enable_inputhealth.flag'', legacy_flag_file = None, legacy_flag_file_wide = None,
       display_name = ''Input Health'', shortcut_label = ''Input Health'',
       shortcut_argument = ''--launch=inputhealth'', pipe_name = pipe_prefix @ ''WKOpenVR-InputHealth'',
       requires_osc_router = False, participates_in_driver_safety = True, supports_desktop = False\<rparr>,
      \<lparr>mi_id = FaceTracking, slug = ''facetracking'', flag_file = ''enable_facetracking.flag'',
       flag_file_wide = ''enable_facetracking.flag'', legacy_flag_file = None, legacy_flag_file_wide = None,
       display_name = ''Face Tracking'', shortcut_label = ''Face Tracking'',
       shortcut_argument = ''--launch=facetracking'', pipe_name = pipe_prefix @ ''WKOpenVR-FaceTracking'',
       requires_osc_router = True, participates_in_driver_safety = True, supports_desktop = True\<rparr>,
      \<lparr>mi_id = OscRouterModule, slug = ''oscrouter'', flag_file = ''enable_oscrouter.flag'',
       flag_file_wide = ''enable_oscrouter.flag'', legacy_flag_file = None, legacy_flag_file_wide = None,
       display_name = ''OSC Router'', shortcut_label = ''OSC Router'',
       shortcut_argument = ''--launch=oscrouter'', pipe_name = pipe_prefix @ ''WKOpenVR-OscRouter'',
       requires_osc_router = False, participates_in_driver_safety = True, supports_desktop = True\<rparr>,
      \<lparr>mi_id = Captions, slug = ''captions'', flag_file = ''enable_captions.flag'',
       flag_file_wide = ''enable_captions.flag'', legacy_flag_file = Some ''enable_translator.flag'',
       legacy_flag_file_wide = Some ''enable_translator.flag'',
       display_name = ''Captions'', shortcut_label = ''Captions'',
       shortcut_argument = ''--launch=captions'', pipe_name = pipe_prefix @ ''WKOpenVR-Captions'',
       requires_osc_router = True, participates_in_driver_safety = True, supports_desktop = True\<rparr>,
      \<lparr>mi_id = PhantomModule, slug = ''phantom'', flag_file = ''enable_phantom.flag'',
       flag_file_wide = ''enable_phantom.flag'', legacy_flag_file = None, legacy_flag_file_wide = None,
       display_name = ''Phantom Trackers'', shortcut_label = ''Phantom Trackers'',
       shortcut_argument = ''--launch=phantom'', pipe_name = pipe_prefix @ ''WKOpenVR-Phantom'',
       requires_osc_router = False, participates_in_driver_safety = True, supports_desktop = False\<rparr>,
      \<lparr>mi_id = QuestApp, slug = ''questapp'', flag_file = ''enable_questapp.flag'',
       flag_file_wide = ''enable_questapp.flag'', legacy_flag_file = None, legacy_flag_file_wide = None,
       display_name = ''Quest App'', shortcut_label = ''Quest App'',
       shortcut_argument = ''--launch=questapp'', pipe_name = '''',
       requires_osc_router = False, participates_in_driver_safety = False, supports_desktop = True\<rparr>,
      \<lparr>mi_id = DynamicResolution, slug = ''dynamicres'', flag_file = ''enable_dynamicres.flag'',
       flag_file_wide = ''enable_dynamicres.flag'', legacy_flag_file = None, legacy_flag_file_wide = None,
       display_name = ''Dynamic Resolution'', shortcut_label = ''Dynamic Resolution'',
       shortcut_argument = ''--launch=dynamicres'', pipe_name = '''',
       requires_osc_router = False, participates_in_driver_safety = False, supports_desktop = False\<rparr>]"

definition All_modules :: "ModuleInfo list" where
  "All_modules = kModules"

definition DriverSafetyModules :: "ModuleInfo list" where
  "DriverSafetyModules = take 7 kModules"

definition FindById :: "ModuleId \<Rightarrow> ModuleInfo option" where
  "FindById i = find (\<lambda>m. mi_id m = i) kModules"

definition FallbackModule :: ModuleInfo where
  "FallbackModule = kModules ! 0"

definition GetModule :: "ModuleId \<Rightarrow> ModuleInfo" where
  "GetModule i = (case FindById i of Some m \<Rightarrow> m | None \<Rightarrow> FallbackModule)"

definition EqualAscii :: "string \<Rightarrow> string \<Rightarrow> bool" where
  "EqualAscii a b \<longleftrightarrow> length a = length b \<and> list_all2 (=) a b"

definition FindBySlug :: "string \<Rightarrow> ModuleInfo option" where
  "FindBySlug s = find (\<lambda>m. EqualAscii s (slug m)) kModules"

definition FindByFlagFileName :: "string \<Rightarrow> ModuleInfo option" where
  "FindByFlagFileName f = find (\<lambda>m. EqualAscii f (flag_file m)) kModules"

definition FindByAnyFlagFileName :: "string \<Rightarrow> ModuleInfo option" where
  "FindByAnyFlagFileName f =
     find (\<lambda>m. EqualAscii f (flag_file m) \<or>
               (case legacy_flag_file m of None \<Rightarrow> False | Some g \<Rightarrow> EqualAscii f g)) kModules"

definition Slug :: "ModuleId \<Rightarrow> string" where
  "Slug i = slug (GetModule i)"

definition FlagFileName :: "ModuleId \<Rightarrow> string" where
  "FlagFileName i = flag_file (GetModule i)"

definition FlagFileNameWide :: "ModuleId \<Rightarrow> string" where
  "FlagFileNameWide i = flag_file_wide (GetModule i)"

definition DisplayName :: "ModuleId \<Rightarrow> string" where
  "DisplayName i = display_name (GetModule i)"

definition ShortcutLabel :: "ModuleId \<Rightarrow> string" where
  "ShortcutLabel i = shortcut_label (GetModule i)"

definition ShortcutArgument :: "ModuleId \<Rightarrow> string" where
  "ShortcutArgument i = shortcut_argument (GetModule i)"

definition PipeName :: "ModuleId \<Rightarrow> string" where
  "PipeName i = pipe_name (GetModule i)"

definition RequiresOscRouter :: "ModuleId \<Rightarrow> bool" where
  "RequiresOscRouter i = requires_osc_router (GetModule i)"

definition ParticipatesInDriverSafety :: "ModuleId \<Rightarrow> bool" where
  "ParticipatesInDriverSafety i = participates_in_driver_safety (GetModule i)"

definition SupportsDesktop :: "ModuleId \<Rightarrow> bool" where
  "SupportsDesktop i = supports_desktop (GetModule i)"

section \<open>Facts\<close>

lemma EqualAscii_eq [simp]: "EqualAscii a b \<longleftrightarrow> a = b"
  by (auto simp: EqualAscii_def list.rel_eq)

lemma mi_id_GetModule [simp]: "mi_id (GetModule i) = i"
  by (induct i) code_simp+

lemma GetModule_in: "GetModule i \<in> set kModules"
  by (induct i) code_simp+

lemma FindById_Some: "FindById i = Some (GetModule i)"
  by (induct i) code_simp+

lemma Slug_simps:
  "Slug Calibration = ''calibration''" "Slug Smoothing = ''smoothing''" "Slug InputHealth = ''inputhealth''"
  "Slug FaceTracking = ''facetracking''" "Slug OscRouterModule = ''oscrouter''" "Slug Captions = ''captions''"
  "Slug PhantomModule = ''phantom''" "Slug QuestApp = ''questapp''" "Slug DynamicResolution = ''dynamicres''"
  by code_simp+

lemma Slug_inj: "Slug i = Slug j \<longleftrightarrow> i = j"
  by (cases i; cases j) (simp_all add: Slug_simps)

lemma slug_lookups:
  "FindBySlug (Slug i) = Some (GetModule i)"
  "FindByFlagFileName (FlagFileName i) = Some (GetModule i)"
  "FindByAnyFlagFileName (FlagFileName i) = Some (GetModule i)"
  by (induct i; code_simp)+

lemma legacy_lookup: "FindByAnyFlagFileName ''enable_translator.flag'' = Some (GetModule Captions)"
  by code_simp

lemma safety_prefix: "DriverSafetyModules = filter participates_in_driver_safety All_modules"
  by code_simp

lemma osc_modules: "RequiresOscRouter i \<Longrightarrow> ParticipatesInDriverSafety i \<and> SupportsDesktop i"
proof -
  have "RequiresOscRouter i \<longrightarrow> ParticipatesInDriverSafety i \<and> SupportsDesktop i" by (induct i) code_simp+
  then show "RequiresOscRouter i \<Longrightarrow> ParticipatesInDriverSafety i \<and> SupportsDesktop i" by blast
qed

end
