(* ===== verification/ModuleSafety.thy ===== *)
theory ModuleSafety
  imports FileStore ModuleRegistry
begin

text \<open>
  The crash guard of the driver modules (\<open>core/src/common/ModuleSafety.cpp\<close>): marker files that say a
  module is active, inside a guarded operation, cleanly shut down or switched off, and the crash
  counters. The files refine a small per-module state; \<open>AssessLaunch\<close> is related to the decision it
  takes on that state.
\<close>

section \<open>Marker files\<close>

definition kActiveOnlyAutoDisableThreshold :: u32 where "kActiveOnlyAutoDisableThreshold = 3"

record CrashCounters =
  active_unclean :: u32
  suspect_unclean :: u32

definition MarkerBody :: "ModuleInfo \<Rightarrow> bytes \<Rightarrow> bytes" where
  "MarkerBody spec reason =
     str ''module='' @ str (slug spec) @ [10] @ str ''flag='' @ str (flag_file spec) @ [10] @
     str ''reason='' @ reason @ [10]"

definition WriteMarker :: "fs_env \<Rightarrow> path \<Rightarrow> ModuleInfo \<Rightarrow> bytes \<Rightarrow> store \<Rightarrow> store \<times> bool" where
  "WriteMarker env p spec reason fs = WriteTextFile env p (MarkerBody spec reason) fs"

definition ReadField :: "bytes \<Rightarrow> bytes \<Rightarrow> bytes" where
  "ReadField b key =
     (case find_sub key b of None \<Rightarrow> [] | Some pos \<Rightarrow> takeWhile (\<lambda>c. c \<noteq> 10) (drop (pos + length key) b))"

fun digits_value :: "u32 \<Rightarrow> bytes \<Rightarrow> u32" where
  "digits_value out [] = out"
| "digits_value out (ch # cs) =
     (if sint ch < 48 \<or> sint ch > 57 then out else digits_value (out * 10 + (ucast ch - 48)) cs)"

definition ReadUnsignedField :: "bytes \<Rightarrow> bytes \<Rightarrow> u32" where
  "ReadUnsignedField b key = digits_value 0 (ReadField b key)"

definition RootPath :: "fs_env \<Rightarrow> bool \<Rightarrow> path" where
  "RootPath env create =
     (if override_root env \<noteq> [] then override_root env
      else WkOpenVrSubdirectoryPath env ''module_safety'' create)"

definition StatePath :: "fs_env \<Rightarrow> ModuleInfo \<Rightarrow> string \<Rightarrow> string \<Rightarrow> bool \<Rightarrow> path" where
  "StatePath env spec pre suf create =
     (let root = RootPath env create in if root = [] then [] else JoinPath root (pre @ slug spec @ suf))"

definition ActiveMarkerPath :: "fs_env \<Rightarrow> ModuleInfo \<Rightarrow> bool \<Rightarrow> path" where
  "ActiveMarkerPath env spec create = StatePath env spec ''active_'' ''.flag'' create"

definition SuspectMarkerPath :: "fs_env \<Rightarrow> ModuleInfo \<Rightarrow> bool \<Rightarrow> path" where
  "SuspectMarkerPath env spec create = StatePath env spec ''suspect_'' ''.flag'' create"

definition CleanMarkerPath :: "fs_env \<Rightarrow> ModuleInfo \<Rightarrow> bool \<Rightarrow> path" where
  "CleanMarkerPath env spec create = StatePath env spec ''clean_'' ''.flag'' create"

definition CounterPath :: "fs_env \<Rightarrow> ModuleInfo \<Rightarrow> bool \<Rightarrow> path" where
  "CounterPath env spec create = StatePath env spec ''counter_'' ''.state'' create"

definition AutoDisabledMarkerPath :: "fs_env \<Rightarrow> ModuleInfo \<Rightarrow> bool \<Rightarrow> path" where
  "AutoDisabledMarkerPath env spec create = StatePath env spec ''auto_disabled_'' ''.flag'' create"

definition ReadCounters :: "fs_env \<Rightarrow> ModuleInfo \<Rightarrow> store \<Rightarrow> CrashCounters" where
  "ReadCounters env spec fs =
     (let b = ReadTextFile env (CounterPath env spec False) fs
      in \<lparr>active_unclean = ReadUnsignedField b (str ''active_unclean=''),
          suspect_unclean = ReadUnsignedField b (str ''suspect_unclean='')\<rparr>)"

definition IsCleanupOnlySuspectReason :: "bytes \<Rightarrow> bool" where
  "IsCleanupOnlySuspectReason reason \<longleftrightarrow> reason = str ''shutdown'' \<or> reason = str ''flag_removed''"

definition CountersBody :: "ModuleInfo \<Rightarrow> CrashCounters \<Rightarrow> bytes" where
  "CountersBody spec c =
     str ''module='' @ str (slug spec) @ [10] @ str ''active_unclean='' @ dec (unat (active_unclean c)) @ [10] @
     str ''suspect_unclean='' @ dec (unat (suspect_unclean c)) @ [10]"

definition WriteCounters :: "fs_env \<Rightarrow> ModuleInfo \<Rightarrow> CrashCounters \<Rightarrow> store \<Rightarrow> store \<times> bool" where
  "WriteCounters env spec c fs = WriteTextFile env (CounterPath env spec True) (CountersBody spec c) fs"

definition ClearRuntimeMarkers :: "fs_env \<Rightarrow> ModuleInfo \<Rightarrow> store \<Rightarrow> store" where
  "ClearRuntimeMarkers env spec fs =
     (let fs1 = fst (DeleteFileIfPresent env (ActiveMarkerPath env spec False) fs)
      in fst (DeleteFileIfPresent env (SuspectMarkerPath env spec False) fs1))"

definition Safety_FindById :: "ModuleId \<Rightarrow> ModuleInfo option" where
  "Safety_FindById i =
     (case FindById i of Some s \<Rightarrow> if participates_in_driver_safety s then Some s else None | None \<Rightarrow> None)"

definition Safety_FindByFlagFileName :: "string \<Rightarrow> ModuleInfo option" where
  "Safety_FindByFlagFileName f =
     (case FindByFlagFileName f of Some s \<Rightarrow> if participates_in_driver_safety s then Some s else None | None \<Rightarrow> None)"

definition HasActiveMarker :: "fs_env \<Rightarrow> ModuleInfo \<Rightarrow> store \<Rightarrow> bool" where
  "HasActiveMarker env spec fs = FileExists (ActiveMarkerPath env spec False) fs"

definition HasSuspectMarker :: "fs_env \<Rightarrow> ModuleInfo \<Rightarrow> store \<Rightarrow> bool" where
  "HasSuspectMarker env spec fs = FileExists (SuspectMarkerPath env spec False) fs"

definition HasCleanMarker :: "fs_env \<Rightarrow> ModuleInfo \<Rightarrow> store \<Rightarrow> bool" where
  "HasCleanMarker env spec fs = FileExists (CleanMarkerPath env spec False) fs"

definition HasAutoDisabledMarker :: "fs_env \<Rightarrow> ModuleInfo \<Rightarrow> store \<Rightarrow> bool" where
  "HasAutoDisabledMarker env spec fs = FileExists (AutoDisabledMarkerPath env spec False) fs"

definition AutoDisabledReason :: "fs_env \<Rightarrow> ModuleInfo \<Rightarrow> store \<Rightarrow> bytes" where
  "AutoDisabledReason env spec fs =
     ReadField (ReadTextFile env (AutoDisabledMarkerPath env spec False) fs) (str ''reason='')"

section \<open>Operations\<close>

definition MarkActive :: "fs_env \<Rightarrow> ModuleInfo \<Rightarrow> store \<Rightarrow> store \<times> bool" where
  "MarkActive env spec fs =
     (let fs1 = fst (DeleteFileIfPresent env (CleanMarkerPath env spec False) fs)
      in WriteMarker env (ActiveMarkerPath env spec True) spec (str ''active'') fs1)"

definition MarkSuspect :: "fs_env \<Rightarrow> ModuleInfo \<Rightarrow> bytes \<Rightarrow> store \<Rightarrow> store \<times> bool" where
  "MarkSuspect env spec reason fs = WriteMarker env (SuspectMarkerPath env spec True) spec reason fs"

definition ClearSuspect :: "fs_env \<Rightarrow> ModuleInfo \<Rightarrow> store \<Rightarrow> store \<times> bool" where
  "ClearSuspect env spec fs = DeleteFileIfPresent env (SuspectMarkerPath env spec False) fs"

definition MarkClean :: "fs_env \<Rightarrow> ModuleInfo \<Rightarrow> store \<Rightarrow> store \<times> bool" where
  "MarkClean env spec fs =
     (let (fs1, activeCleared) = DeleteFileIfPresent env (ActiveMarkerPath env spec False) fs;
          (fs2, suspectCleared) = DeleteFileIfPresent env (SuspectMarkerPath env spec False) fs1;
          fs3 = fst (DeleteFileIfPresent env (CounterPath env spec False) fs2);
          (fs4, ok) = WriteMarker env (CleanMarkerPath env spec True) spec (str ''clean_shutdown'') fs3
      in (fs4, ok \<and> activeCleared \<and> suspectCleared))"

definition MarkFault :: "fs_env \<Rightarrow> ModuleInfo \<Rightarrow> bytes \<Rightarrow> store \<Rightarrow> store \<times> bool" where
  "MarkFault env spec reason fs =
     (let (fs1, wrote) = WriteMarker env (AutoDisabledMarkerPath env spec True) spec reason fs;
          fs2 = ClearRuntimeMarkers env spec fs1;
          fs3 = fst (DeleteFileIfPresent env (CleanMarkerPath env spec False) fs2)
      in (fs3, wrote))"

record LaunchAssessment =
  had_stale_active :: bool
  had_stale_suspect :: bool
  auto_disabled :: bool
  active_unclean_count :: u32
  suspect_unclean_count :: u32
  suspect_reason :: bytes
  la_reason :: bytes

definition no_assessment :: LaunchAssessment where
  "no_assessment =
     \<lparr>had_stale_active = False, had_stale_suspect = False, auto_disabled = False, active_unclean_count = 0,
      suspect_unclean_count = 0, suspect_reason = [], la_reason = []\<rparr>"

definition AssessLaunch ::
  "fs_env \<Rightarrow> ModuleInfo \<Rightarrow> bool \<Rightarrow> store \<Rightarrow> store \<times> LaunchAssessment" where
  "AssessLaunch env spec allowActiveOnlyAutoDisable fs =
     (let stale_active = HasActiveMarker env spec fs;
          stale_suspect = HasSuspectMarker env spec fs;
          r0 = no_assessment\<lparr>had_stale_active := stale_active, had_stale_suspect := stale_suspect\<rparr>
      in if \<not> stale_active \<and> \<not> stale_suspect then (fs, r0)
         else
           let c = ReadCounters env spec fs;
               (c', sreason, reason) =
                 (if stale_suspect
                  then let sr = ReadField (ReadTextFile env (SuspectMarkerPath env spec False) fs) (str ''reason='')
                       in (c\<lparr>suspect_unclean := suspect_unclean c + 1\<rparr>, sr,
                           if IsCleanupOnlySuspectReason sr then [] else str ''unclean_exit_during_module_operation'')
                  else (c\<lparr>active_unclean := active_unclean c + 1\<rparr>, [],
                        if allowActiveOnlyAutoDisable \<and> active_unclean c + 1 \<ge> kActiveOnlyAutoDisableThreshold
                        then str ''repeated_unclean_driver_exit'' else []));
               fs1 = fst (WriteCounters env spec c' fs);
               r1 = r0\<lparr>suspect_reason := sreason, la_reason := reason,
                       active_unclean_count := active_unclean c', suspect_unclean_count := suspect_unclean c'\<rparr>
           in if reason \<noteq> []
              then let (fs2, ok) = MarkFault env spec reason fs1 in (fs2, r1\<lparr>auto_disabled := ok\<rparr>)
              else (ClearRuntimeMarkers env spec fs1, r1))"

definition ConvertStaleActiveToAutoDisabled :: "fs_env \<Rightarrow> ModuleInfo \<Rightarrow> store \<Rightarrow> store \<times> bool" where
  "ConvertStaleActiveToAutoDisabled env spec fs = apsnd auto_disabled (AssessLaunch env spec True fs)"

definition ClearAutoDisabled :: "fs_env \<Rightarrow> ModuleInfo \<Rightarrow> store \<Rightarrow> store \<times> bool" where
  "ClearAutoDisabled env spec fs =
     (let (fs1, disabledCleared) = DeleteFileIfPresent env (AutoDisabledMarkerPath env spec False) fs;
          (fs2, activeCleared) = DeleteFileIfPresent env (ActiveMarkerPath env spec False) fs1;
          (fs3, suspectCleared) = DeleteFileIfPresent env (SuspectMarkerPath env spec False) fs2;
          fs4 = fst (DeleteFileIfPresent env (CounterPath env spec False) fs3)
      in (fs4, disabledCleared \<and> activeCleared \<and> suspectCleared))"

definition ClearAutoDisabledForFlag :: "fs_env \<Rightarrow> string \<Rightarrow> store \<Rightarrow> store \<times> bool" where
  "ClearAutoDisabledForFlag env flagFileName fs =
     (case Safety_FindByFlagFileName flagFileName of
        None \<Rightarrow> (fs, False)
      | Some spec \<Rightarrow> ClearAutoDisabled env spec fs)"

section \<open>Text fields\<close>

lemma sublist_newline:
  assumes "10 \<notin> set key" "sublist key (xs @ 10 # ys)"
  shows "sublist key xs \<or> sublist key ys"
proof -
  from assms(2) consider "sublist key xs" | "sublist key (10 # ys)"
    | k1 k2 where "key = k1 @ k2" "suffix k1 xs" "prefix k2 (10 # ys)"
    unfolding sublist_append by blast
  then show ?thesis
  proof cases
    case 2
    then show ?thesis using assms(1) by (auto simp: sublist_Cons_right prefix_Cons)
  next
    case 3
    then show ?thesis using assms(1) by (auto simp: prefix_Cons)
  qed auto
qed

lemma ReadField_line:
  assumes "10 \<notin> set key" "\<not> sublist key pre" "10 \<notin> set v"
  shows "ReadField (pre @ 10 # key @ v @ 10 # rest) key = v"
proof -
  let ?s = "pre @ 10 # key @ v @ 10 # rest"
  have "\<not> prefix key (drop m ?s)" if "m < Suc (length pre)" for m
  proof
    assume "prefix key (drop m ?s)"
    then have "prefix key (drop m pre @ 10 # key @ v @ 10 # rest)" using that by simp
    then have "prefix key (drop m pre)"
      using assms(1) by (auto simp: prefix_append prefix_Cons)
    then show False
      using assms(2) by (meson prefix_imp_sublist sublist_drop sublist_order.order_trans)
  qed
  then have "find_sub key ?s = Some (Suc (length pre))"
    by (intro find_sub_at) (auto simp: less_Suc_eq_le)
  moreover have "takeWhile (\<lambda>c. c \<noteq> 10) (v @ 10 # rest) = v"
    using assms(3) by (auto simp: takeWhile_append)
  ultimately show ?thesis by (simp add: ReadField_def)
qed

lemma digit_byte:
  assumes "d < 10"
  shows "sint (48 + word_of_nat d :: byte) = 48 + int d" "ucast (48 + word_of_nat d :: byte) - 48 = (word_of_nat d :: u32)"
proof -
  from assms have "d \<in> {0, 1, 2, 3, 4, 5, 6, 7, 8, 9}" by auto
  then show "sint (48 + word_of_nat d :: byte) = 48 + int d" "ucast (48 + word_of_nat d :: byte) - 48 = (word_of_nat d :: u32)"
    by auto
qed

lemma digits_value_digit:
  "d < 10 \<Longrightarrow> digits_value a ((48 + word_of_nat d) # r) = digits_value (a * 10 + word_of_nat d) r"
  by (simp add: digit_byte)

lemma digits_value_dec: "digits_value a (dec n @ r) = digits_value (a * 10 ^ length (dec n) + word_of_nat n) r"
proof (induction n arbitrary: a r rule: dec.induct)
  case (1 n)
  show ?case
  proof (cases "n < 10")
    case True
    then show ?thesis by (simp add: dec.simps [of n] digits_value_digit del: digits_value.simps(2))
  next
    case False
    have "word_of_nat n = (word_of_nat (n div 10) * 10 + word_of_nat (n mod 10) :: u32)"
      by (metis div_mult_mod_eq of_nat_add of_nat_mult of_nat_numeral)
    moreover obtain d where d: "n mod 10 = d" "d < 10" by simp
    ultimately show ?thesis using False 1
      by (simp add: dec.simps [of n] digits_value_digit ring_distribs mult.assoc mult.commute [of 10] add.assoc del: digits_value.simps(2))
  qed
qed

lemma dec_avoids: "10 \<notin> set (dec n)" "115 \<notin> set (dec n)"
proof -
  have "(48 + word_of_nat d :: byte) \<noteq> 10 \<and> (48 + word_of_nat d :: byte) \<noteq> 115" if "d < 10" for d
  proof -
    from that have "d \<in> {0, 1, 2, 3, 4, 5, 6, 7, 8, 9}" by auto
    then show ?thesis by auto
  qed
  then show "10 \<notin> set (dec n)" "115 \<notin> set (dec n)" using dec_digits by fastforce+
qed


text \<open>The keys do not occur earlier in a marker or counter file.\<close>

lemma keys_avoid_module_line:
  assumes "spec \<in> set kModules"
  shows "\<not> sublist (str ''active_unclean='') (str ''module='' @ str (slug spec))"
    and "\<not> sublist (str ''suspect_unclean='') (str ''module='' @ str (slug spec))"
    and "\<not> sublist (str ''reason='') (str ''module='' @ str (slug spec) @ 10 # str ''flag='' @ str (flag_file spec))"
    and "length (slug spec) \<le> 20 \<and> length (flag_file spec) \<le> 40"
proof -
  have "list_all (\<lambda>m. \<not> sublist (str ''active_unclean='') (str ''module='' @ str (slug m)) \<and>
      \<not> sublist (str ''suspect_unclean='') (str ''module='' @ str (slug m)) \<and>
      \<not> sublist (str ''reason='') (str ''module='' @ str (slug m) @ 10 # str ''flag='' @ str (flag_file m)) \<and>
      length (slug m) \<le> 20 \<and> length (flag_file m) \<le> 40) kModules"
    by code_simp
  with assms show "\<not> sublist (str ''active_unclean='') (str ''module='' @ str (slug spec))"
    and "\<not> sublist (str ''suspect_unclean='') (str ''module='' @ str (slug spec))"
    and "\<not> sublist (str ''reason='') (str ''module='' @ str (slug spec) @ 10 # str ''flag='' @ str (flag_file spec))"
    and "length (slug spec) \<le> 20 \<and> length (flag_file spec) \<le> 40"
    by (auto simp: list_all_iff)
qed

lemma ReadField_MarkerBody:
  assumes "spec \<in> set kModules" "10 \<notin> set reason"
  shows "ReadField (MarkerBody spec reason) (str ''reason='') = reason"
proof -
  have "10 \<notin> set (str ''reason='')" by code_simp
  then show ?thesis
    using ReadField_line [OF _ keys_avoid_module_line(3) [OF assms(1)] assms(2), of "[]"]
    by (simp add: MarkerBody_def)
qed

lemma ReadUnsignedField_CountersBody:
  assumes "spec \<in> set kModules"
  shows "ReadUnsignedField (CountersBody spec c) (str ''active_unclean='') = active_unclean c"
    and "ReadUnsignedField (CountersBody spec c) (str ''suspect_unclean='') = suspect_unclean c"
proof -
  have v: "digits_value 0 (dec (unat n)) = n" for n :: u32
    using digits_value_dec [of 0 "unat n" "[]"] by simp
  have k: "10 \<notin> set (str ''active_unclean='')" "10 \<notin> set (str ''suspect_unclean='')" by code_simp+
  have "115 \<in> set (str ''suspect_unclean='')" "115 \<notin> set (str ''active_unclean='')" by code_simp+
  then have "\<not> sublist (str ''suspect_unclean='') (str ''active_unclean='' @ dec (unat (active_unclean c)))"
    using dec_avoids(2) by (auto dest!: set_mono_sublist)
  then have "\<not> sublist (str ''suspect_unclean='')
      (str ''module='' @ str (slug spec) @ 10 # str ''active_unclean='' @ dec (unat (active_unclean c)))"
    using sublist_newline [OF k(2), of "str ''module='' @ str (slug spec)"] keys_avoid_module_line(2) [OF assms] by auto
  from ReadField_line [OF k(2) this dec_avoids(1), of "unat (suspect_unclean c)" "[]"]
  show "ReadUnsignedField (CountersBody spec c) (str ''suspect_unclean='') = suspect_unclean c"
    by (simp add: ReadUnsignedField_def CountersBody_def v)
  from ReadField_line [OF k(1) keys_avoid_module_line(1) [OF assms] dec_avoids(1)]
  show "ReadUnsignedField (CountersBody spec c) (str ''active_unclean='') = active_unclean c"
    by (simp add: ReadUnsignedField_def CountersBody_def v)
qed


section \<open>The state of the guard\<close>

text \<open>What the files of one module say: the reasons are those a reader of the files gets.\<close>

record guard_state =
  g_active :: bool
  g_suspect :: "bytes option"
  g_clean :: bool
  g_count :: CrashCounters
  g_disabled :: "bytes option"

definition guard :: "fs_env \<Rightarrow> ModuleInfo \<Rightarrow> store \<Rightarrow> guard_state" where
  "guard env spec fs =
     \<lparr>g_active = HasActiveMarker env spec fs,
      g_suspect = (if HasSuspectMarker env spec fs
        then Some (ReadField (ReadTextFile env (SuspectMarkerPath env spec False) fs) (str ''reason='')) else None),
      g_clean = HasCleanMarker env spec fs,
      g_count = ReadCounters env spec fs,
      g_disabled = (if HasAutoDisabledMarker env spec fs then Some (AutoDisabledReason env spec fs) else None)\<rparr>"

text \<open>The operating system refuses nothing and some data directory is known.\<close>

definition guard_env :: "fs_env \<Rightarrow> bool" where
  "guard_env env \<longleftrightarrow> fs_good env \<and> (override_root env \<noteq> [] \<or> candidates env \<noteq> [])"

text \<open>A reason that survives being written to a line of a file of at most 64 KiB.\<close>

definition plain_reason :: "bytes \<Rightarrow> bool" where
  "plain_reason r \<longleftrightarrow> 10 \<notin> set r \<and> length r \<le> 60000"

lemma Win32_JoinPath_nonempty: "r \<noteq> [] \<Longrightarrow> Win32_JoinPath l r \<noteq> []"
  by (simp add: Win32_JoinPath_def JoinPath_def)

lemma RootPath_guard_env:
  assumes "guard_env env"
  shows "RootPath env create = RootPath env False" "RootPath env create \<noteq> []"
proof -
  have e: "EnsureDirectory env p \<longleftrightarrow> p \<noteq> []" for p
    using assms by (simp add: guard_env_def fs_good_def EnsureDirectory_def)
  have "RootPath env create = RootPath env False \<and> RootPath env create \<noteq> []"
  proof (cases "override_root env = []")
    case True
    then obtain c cs where "candidates env = c # cs"
      using assms by (auto simp: guard_env_def neq_Nil_conv)
    then show ?thesis using True
      by (simp add: RootPath_def WkOpenVrSubdirectoryPath_def WkOpenVrRootPath_def e Win32_JoinPath_nonempty)
  qed (simp add: RootPath_def)
  then show "RootPath env create = RootPath env False" "RootPath env create \<noteq> []" by blast+
qed

lemma StatePath_guard_env:
  assumes "guard_env env"
  shows "StatePath env spec pre suf create = JoinPath (RootPath env False) (pre @ slug spec @ suf)"
    and "StatePath env spec pre suf create \<noteq> []"
  using RootPath_guard_env [OF assms, of create] RootPath_guard_env(2) [OF assms, of False]
  by (simp_all add: StatePath_def Let_def)

text \<open>Different kinds of files and different modules have different paths.\<close>

lemmas path_defs = ActiveMarkerPath_def SuspectMarkerPath_def CleanMarkerPath_def CounterPath_def AutoDisabledMarkerPath_def

lemma guard_path_simps:
  assumes "guard_env env"
  shows "ActiveMarkerPath env spec c = JoinPath (RootPath env False) (''active_'' @ slug spec @ ''.flag'')"
    and "SuspectMarkerPath env spec c = JoinPath (RootPath env False) (''suspect_'' @ slug spec @ ''.flag'')"
    and "CleanMarkerPath env spec c = JoinPath (RootPath env False) (''clean_'' @ slug spec @ ''.flag'')"
    and "CounterPath env spec c = JoinPath (RootPath env False) (''counter_'' @ slug spec @ ''.state'')"
    and "AutoDisabledMarkerPath env spec c = JoinPath (RootPath env False) (''auto_disabled_'' @ slug spec @ ''.flag'')"
    and "RootPath env False \<noteq> []"
  unfolding path_defs by (simp_all add: StatePath_guard_env(1) [OF assms] RootPath_guard_env(2) [OF assms])

lemma read_good:
  "guard_env env \<Longrightarrow> p \<noteq> [] \<Longrightarrow> ReadTextFile env p fs =
     (case fs p of None \<Rightarrow> [] | Some b \<Rightarrow> if 0 < length b \<and> length b \<le> 65536 then b else [])"
  by (auto simp: ReadTextFile_def guard_env_def fs_good_def split: option.split)

lemma file_good:
  assumes "guard_env env" "p \<noteq> []"
  shows "WriteTextFile env p b fs = (fs(p \<mapsto> b), True)" "DeleteFileIfPresent env p fs = (fs(p := None), True)"
  using assms fs_good_simps(1,2) by (auto simp: guard_env_def)

lemma length_str [simp]: "length (str s) = length s"
  by (simp add: str_def)

lemma marker_sizes:
  assumes "spec \<in> set kModules"
  shows "length r \<le> 60000 \<Longrightarrow> length (MarkerBody spec r) \<le> 65536" "MarkerBody spec r \<noteq> []"
    and "length (CountersBody spec c) \<le> 65536" "CountersBody spec c \<noteq> []"
proof -
  have "length (dec (unat n)) \<le> 10" for n :: u32
  proof -
    have "unat n < 2 ^ LENGTH(32)" by (rule unsigned_less)
    then show ?thesis using length_dec [of "unat n" 9] by simp
  qed
  from this [of "active_unclean c"] this [of "suspect_unclean c"]
  show "length r \<le> 60000 \<Longrightarrow> length (MarkerBody spec r) \<le> 65536" "MarkerBody spec r \<noteq> []"
    and "length (CountersBody spec c) \<le> 65536" "CountersBody spec c \<noteq> []"
    using keys_avoid_module_line(4) [OF assms] by (simp_all add: MarkerBody_def CountersBody_def str_def)
qed


text \<open>
  The file operations the guard is built from, and their effect on the state of one module. A step
  touches only the files of its own module.
\<close>

lemma slug_eq:
  assumes "spec \<in> set kModules" "spec' \<in> set kModules"
  shows "slug spec = slug spec' \<longleftrightarrow> spec = spec'"
proof -
  have "distinct (map slug kModules)" by code_simp
  with assms show ?thesis by (auto simp: distinct_map inj_on_def)
qed

lemma guard_put:
  assumes "guard_env env" "spec \<in> set kModules" "spec' \<in> set kModules" "plain_reason r"
  shows "guard env spec (fs(ActiveMarkerPath env spec' c \<mapsto> MarkerBody spec' r)) =
           (if spec = spec' then (guard env spec fs)\<lparr>g_active := True\<rparr> else guard env spec fs)"
    and "guard env spec (fs(SuspectMarkerPath env spec' c \<mapsto> MarkerBody spec' r)) =
           (if spec = spec' then (guard env spec fs)\<lparr>g_suspect := Some r\<rparr> else guard env spec fs)"
    and "guard env spec (fs(CleanMarkerPath env spec' c \<mapsto> MarkerBody spec' r)) =
           (if spec = spec' then (guard env spec fs)\<lparr>g_clean := True\<rparr> else guard env spec fs)"
    and "guard env spec (fs(AutoDisabledMarkerPath env spec' c \<mapsto> MarkerBody spec' r)) =
           (if spec = spec' then (guard env spec fs)\<lparr>g_disabled := Some r\<rparr> else guard env spec fs)"
    and "guard env spec (fs(CounterPath env spec' c \<mapsto> CountersBody spec' k)) =
           (if spec = spec' then (guard env spec fs)\<lparr>g_count := k\<rparr> else guard env spec fs)"
  using assms(4)
  by (simp_all add: guard_def HasActiveMarker_def HasSuspectMarker_def HasCleanMarker_def HasAutoDisabledMarker_def
      AutoDisabledReason_def ReadCounters_def Let_def FileExists_def guard_path_simps [OF assms(1)] read_good [OF assms(1)]
      slug_eq [OF assms(2,3)] slug_eq [OF assms(3,2)] ReadField_MarkerBody assms marker_sizes ReadUnsignedField_CountersBody plain_reason_def)


definition no_counts :: CrashCounters where
  "no_counts = \<lparr>active_unclean = 0, suspect_unclean = 0\<rparr>"

lemma ReadUnsignedField_Nil: "key \<noteq> [] \<Longrightarrow> ReadUnsignedField [] key = 0"
  by (simp add: ReadUnsignedField_def ReadField_def)

lemma guard_del:
  assumes "guard_env env" "spec \<in> set kModules" "spec' \<in> set kModules"
  shows "guard env spec (fs(ActiveMarkerPath env spec' c := None)) =
           (if spec = spec' then (guard env spec fs)\<lparr>g_active := False\<rparr> else guard env spec fs)"
    and "guard env spec (fs(SuspectMarkerPath env spec' c := None)) =
           (if spec = spec' then (guard env spec fs)\<lparr>g_suspect := None\<rparr> else guard env spec fs)"
    and "guard env spec (fs(CleanMarkerPath env spec' c := None)) =
           (if spec = spec' then (guard env spec fs)\<lparr>g_clean := False\<rparr> else guard env spec fs)"
    and "guard env spec (fs(AutoDisabledMarkerPath env spec' c := None)) =
           (if spec = spec' then (guard env spec fs)\<lparr>g_disabled := None\<rparr> else guard env spec fs)"
    and "guard env spec (fs(CounterPath env spec' c := None)) =
           (if spec = spec' then (guard env spec fs)\<lparr>g_count := no_counts\<rparr> else guard env spec fs)"
  by (simp_all add: guard_def HasActiveMarker_def HasSuspectMarker_def HasCleanMarker_def HasAutoDisabledMarker_def
      AutoDisabledReason_def ReadCounters_def Let_def FileExists_def guard_path_simps [OF assms(1)] read_good [OF assms(1)]
      slug_eq [OF assms(2,3)] slug_eq [OF assms(3,2)] ReadUnsignedField_Nil no_counts_def str_def)

lemma guard_fields:
  "g_active (guard env spec fs) = HasActiveMarker env spec fs"
  "g_suspect (guard env spec fs) = None \<longleftrightarrow> \<not> HasSuspectMarker env spec fs"
  "g_clean (guard env spec fs) = HasCleanMarker env spec fs"
  "g_count (guard env spec fs) = ReadCounters env spec fs"
  "g_disabled (guard env spec fs) = None \<longleftrightarrow> \<not> HasAutoDisabledMarker env spec fs"
  by (simp_all add: guard_def)

section \<open>What the operations promise\<close>

text \<open>The calls on one module and their specification on its state.\<close>

datatype guard_op =
    Do_MarkActive | Do_MarkSuspect bytes | Do_ClearSuspect | Do_MarkClean | Do_MarkFault bytes | Do_AssessLaunch bool
  | Do_ClearAutoDisabled

fun guard_run :: "fs_env \<Rightarrow> ModuleInfo \<Rightarrow> guard_op \<Rightarrow> store \<Rightarrow> store" where
  "guard_run env spec Do_MarkActive fs = fst (MarkActive env spec fs)"
| "guard_run env spec (Do_MarkSuspect r) fs = fst (MarkSuspect env spec r fs)"
| "guard_run env spec Do_ClearSuspect fs = fst (ClearSuspect env spec fs)"
| "guard_run env spec Do_MarkClean fs = fst (MarkClean env spec fs)"
| "guard_run env spec (Do_MarkFault r) fs = fst (MarkFault env spec r fs)"
| "guard_run env spec (Do_AssessLaunch allow) fs = fst (AssessLaunch env spec allow fs)"
| "guard_run env spec Do_ClearAutoDisabled fs = fst (ClearAutoDisabled env spec fs)"

definition fault_spec :: "bytes \<Rightarrow> guard_state \<Rightarrow> guard_state" where
  "fault_spec r g = g\<lparr>g_disabled := Some r, g_active := False, g_suspect := None, g_clean := False\<rparr>"

text \<open>The reason for which a launch disables the module, or none.\<close>

definition launch_verdict :: "bool \<Rightarrow> guard_state \<Rightarrow> bytes option" where
  "launch_verdict allow g =
     (case g_suspect g of
        Some r \<Rightarrow> if r = str ''shutdown'' \<or> r = str ''flag_removed'' then None
                  else Some (str ''unclean_exit_during_module_operation'')
      | None \<Rightarrow> if g_active g \<and> allow \<and> active_unclean (g_count g) + 1 \<ge> 3
                then Some (str ''repeated_unclean_driver_exit'') else None)"

definition launch_counts :: "guard_state \<Rightarrow> CrashCounters" where
  "launch_counts g =
     (if g_suspect g \<noteq> None then (g_count g)\<lparr>suspect_unclean := suspect_unclean (g_count g) + 1\<rparr>
      else if g_active g then (g_count g)\<lparr>active_unclean := active_unclean (g_count g) + 1\<rparr>
      else g_count g)"

fun guard_spec :: "guard_op \<Rightarrow> guard_state \<Rightarrow> guard_state" where
  "guard_spec Do_MarkActive g = g\<lparr>g_clean := False, g_active := True\<rparr>"
| "guard_spec (Do_MarkSuspect r) g = g\<lparr>g_suspect := Some r\<rparr>"
| "guard_spec Do_ClearSuspect g = g\<lparr>g_suspect := None\<rparr>"
| "guard_spec Do_MarkClean g = g\<lparr>g_active := False, g_suspect := None, g_count := no_counts, g_clean := True\<rparr>"
| "guard_spec (Do_MarkFault r) g = fault_spec r g"
| "guard_spec (Do_AssessLaunch allow) g =
     (let g' = g\<lparr>g_count := launch_counts g, g_active := False, g_suspect := None\<rparr>
      in case launch_verdict allow g of Some r \<Rightarrow> fault_spec r g' | None \<Rightarrow> g')"
| "guard_spec Do_ClearAutoDisabled g = g\<lparr>g_disabled := None, g_active := False, g_suspect := None, g_count := no_counts\<rparr>"

fun op_ok :: "guard_op \<Rightarrow> bool" where
  "op_ok (Do_MarkSuspect r) \<longleftrightarrow> plain_reason r"
| "op_ok (Do_MarkFault r) \<longleftrightarrow> plain_reason r"
| "op_ok op \<longleftrightarrow> True"

lemma plain_reasons [simp]:
  "plain_reason (str ''active'')" "plain_reason (str ''clean_shutdown'')"
  "plain_reason (str ''unclean_exit_during_module_operation'')" "plain_reason (str ''repeated_unclean_driver_exit'')"
  by (simp_all add: plain_reason_def str_def)

lemma path_nonempty:
  assumes "guard_env env"
  shows "ActiveMarkerPath env spec c \<noteq> []" "SuspectMarkerPath env spec c \<noteq> []" "CleanMarkerPath env spec c \<noteq> []"
    "CounterPath env spec c \<noteq> []" "AutoDisabledMarkerPath env spec c \<noteq> []"
  unfolding path_defs by (simp_all add: StatePath_guard_env(2) [OF assms])

lemmas guard_steps = guard_put guard_del file_good path_nonempty WriteMarker_def WriteCounters_def ClearRuntimeMarkers_def Let_def

lemma guard_MarkFault:
  assumes "guard_env env" "spec \<in> set kModules" "spec' \<in> set kModules" "plain_reason r"
  shows "guard env spec' (fst (MarkFault env spec r fs)) =
      (if spec' = spec then fault_spec r (guard env spec' fs) else guard env spec' fs)"
    and "snd (MarkFault env spec r fs)"
  using assms by (simp_all add: MarkFault_def guard_steps fault_spec_def)

lemma guard_simple_ops:
  assumes "guard_env env" "spec \<in> set kModules" "spec' \<in> set kModules" "op_ok op" "case op of Do_AssessLaunch _ \<Rightarrow> False | _ \<Rightarrow> True"
  shows "guard env spec' (guard_run env spec op fs) =
      (if spec' = spec then guard_spec op (guard env spec' fs) else guard env spec' fs)"
  using assms
  by (cases op) (simp_all add: guard_MarkFault MarkActive_def MarkSuspect_def ClearSuspect_def MarkClean_def ClearAutoDisabled_def
      guard_steps)


text \<open>\<open>AssessLaunch\<close> as counting, then either disabling or clearing the stale markers.\<close>

lemma AssessLaunch_alt:
  "AssessLaunch env spec allow fs =
     (let g = guard env spec fs;
          v = launch_verdict allow g;
          fs1 = fst (WriteCounters env spec (launch_counts g) fs);
          r = \<lparr>had_stale_active = g_active g, had_stale_suspect = g_suspect g \<noteq> None, auto_disabled = False,
               active_unclean_count = active_unclean (launch_counts g),
               suspect_unclean_count = suspect_unclean (launch_counts g),
               suspect_reason = (case g_suspect g of Some x \<Rightarrow> x | None \<Rightarrow> []),
               la_reason = (case v of Some x \<Rightarrow> x | None \<Rightarrow> [])\<rparr>
      in if \<not> g_active g \<and> g_suspect g = None
         then (fs, no_assessment)
         else case v of
             Some x \<Rightarrow> (let (fs2, ok) = MarkFault env spec x fs1 in (fs2, r\<lparr>auto_disabled := ok\<rparr>))
           | None \<Rightarrow> (ClearRuntimeMarkers env spec fs1, r))"
proof -
  have n: "str ''unclean_exit_during_module_operation'' \<noteq> []" "str ''repeated_unclean_driver_exit'' \<noteq> []"
    by (simp_all add: str_def)
  show ?thesis
  proof (cases "HasSuspectMarker env spec fs")
    case True
    then show ?thesis
      by (simp add: AssessLaunch_def Let_def guard_def launch_verdict_def launch_counts_def no_assessment_def n
          IsCleanupOnlySuspectReason_def case_prod_beta)
  next
    case False
    then show ?thesis
      by (simp add: AssessLaunch_def Let_def guard_def launch_verdict_def launch_counts_def no_assessment_def n
          kActiveOnlyAutoDisableThreshold_def case_prod_beta)
  qed
qed

lemma launch_verdict_plain: "launch_verdict allow g = Some r \<Longrightarrow> plain_reason r"
  by (auto simp: launch_verdict_def split: option.splits if_splits)

lemma guard_WriteCounters:
  assumes "guard_env env" "spec \<in> set kModules" "spec' \<in> set kModules"
  shows "guard env spec' (fst (WriteCounters env spec k fs)) =
      (if spec' = spec then (guard env spec' fs)\<lparr>g_count := k\<rparr> else guard env spec' fs)"
  using assms guard_put(5) [OF assms(1,3,2), of "[]"] by (simp add: guard_steps plain_reason_def)

lemma guard_ClearRuntimeMarkers:
  assumes "guard_env env" "spec \<in> set kModules" "spec' \<in> set kModules"
  shows "guard env spec' (ClearRuntimeMarkers env spec fs) =
      (if spec' = spec then (guard env spec' fs)\<lparr>g_active := False, g_suspect := None\<rparr> else guard env spec' fs)"
  using assms by (simp add: guard_steps)

lemma guard_AssessLaunch:
  assumes "guard_env env" "spec \<in> set kModules" "spec' \<in> set kModules"
  shows "guard env spec' (fst (AssessLaunch env spec allow fs)) =
      (if spec' = spec then guard_spec (Do_AssessLaunch allow) (guard env spec' fs) else guard env spec' fs)"
proof (cases "\<not> g_active (guard env spec fs) \<and> g_suspect (guard env spec fs) = None")
  case True
  then show ?thesis by (auto simp: AssessLaunch_alt Let_def launch_verdict_def launch_counts_def)
next
  case False
  show ?thesis
  proof (cases "launch_verdict allow (guard env spec fs)")
    case None
    then show ?thesis using False assms
      by (auto simp: AssessLaunch_alt Let_def guard_ClearRuntimeMarkers guard_WriteCounters)
  next
    case (Some r)
    then show ?thesis using False assms launch_verdict_plain [OF Some]
      by (auto simp: AssessLaunch_alt Let_def case_prod_beta guard_MarkFault guard_WriteCounters fault_spec_def)
  qed
qed

lemma guard_op_refines:
  assumes "guard_env env" "spec \<in> set kModules" "spec' \<in> set kModules" "op_ok op"
  shows "guard env spec' (guard_run env spec op fs) =
      (if spec' = spec then guard_spec op (guard env spec' fs) else guard env spec' fs)"
  using guard_simple_ops [OF assms] guard_AssessLaunch [OF assms(1-3)] by (cases op) simp_all


text \<open>What a launch reports, on the state.\<close>

definition launch_report :: "bool \<Rightarrow> guard_state \<Rightarrow> LaunchAssessment" where
  "launch_report allow g =
     (if \<not> g_active g \<and> g_suspect g = None then no_assessment
      else \<lparr>had_stale_active = g_active g, had_stale_suspect = g_suspect g \<noteq> None, auto_disabled = launch_verdict allow g \<noteq> None,
            active_unclean_count = active_unclean (launch_counts g), suspect_unclean_count = suspect_unclean (launch_counts g),
            suspect_reason = (case g_suspect g of Some x \<Rightarrow> x | None \<Rightarrow> []),
            la_reason = (case launch_verdict allow g of Some x \<Rightarrow> x | None \<Rightarrow> [])\<rparr>)"

lemma snd_AssessLaunch:
  assumes "guard_env env" "spec \<in> set kModules"
  shows "snd (AssessLaunch env spec allow fs) = launch_report allow (guard env spec fs)"
proof (cases "launch_verdict allow (guard env spec fs)")
  case None
  then show ?thesis by (simp add: AssessLaunch_alt Let_def launch_report_def)
next
  case (Some r)
  then show ?thesis using guard_MarkFault(2) [OF assms assms(2) launch_verdict_plain [OF Some]]
    by (simp add: AssessLaunch_alt Let_def case_prod_beta launch_report_def)
qed

text \<open>Calls on any modules in any order.\<close>

definition guard_trace :: "fs_env \<Rightarrow> (ModuleInfo \<times> guard_op) list \<Rightarrow> store \<Rightarrow> store" where
  "guard_trace env calls fs = fold (\<lambda>(spec, op). guard_run env spec op) calls fs"

definition calls_ok :: "(ModuleInfo \<times> guard_op) list \<Rightarrow> bool" where
  "calls_ok calls \<longleftrightarrow> list_all (\<lambda>(spec, op). spec \<in> set kModules \<and> op_ok op) calls"

lemma guard_trace_refines:
  assumes "guard_env env" "spec \<in> set kModules" "calls_ok calls"
  shows "guard env spec (guard_trace env calls fs) =
      fold guard_spec (map snd (filter (\<lambda>c. fst c = spec) calls)) (guard env spec fs)"
  using assms(3)
proof (induction calls arbitrary: fs)
  case (Cons c calls)
  then show ?case using guard_op_refines [OF assms(1) _ assms(2), of "fst c" "snd c" fs]
    by (auto simp: guard_trace_def calls_ok_def case_prod_beta)
qed (simp add: guard_trace_def)

text \<open>Launches that die after marking the module active, on the abstract state.\<close>

definition repeated :: bytes where "repeated = str ''repeated_unclean_driver_exit''"

lemma crash_rounds_spec:
  assumes "g_suspect g = None" "g_disabled g = None" "g_count g = no_counts"
  shows "let g' = fold guard_spec (concat (replicate n [Do_MarkActive, Do_AssessLaunch allow])) g
         in g_suspect g' = None \<and> active_unclean (g_count g') = word_of_nat n \<and>
            g_disabled g' = (if allow \<and> 3 \<le> n then Some repeated else None)"
proof (induction n)
  case (Suc n)
  have "concat (replicate (Suc n) [Do_MarkActive, Do_AssessLaunch allow]) =
      concat (replicate n [Do_MarkActive, Do_AssessLaunch allow]) @ [Do_MarkActive, Do_AssessLaunch allow]"
    by (induction n) simp_all
  moreover have "(word_of_nat n + 1 :: u32) \<ge> 3 \<longleftrightarrow> n = 2" if "n \<le> 2"
  proof -
    from that consider "n = 0" | "n = 1" | "n = 2" by linarith
    then show ?thesis by cases (simp_all add: word_le_nat_alt)
  qed
  ultimately show ?case using Suc
    by (auto simp: Let_def launch_verdict_def launch_counts_def fault_spec_def repeated_def add.commute)
qed (use assms in \<open>simp add: no_counts_def Let_def\<close>)

section \<open>The marker survives everything but clearing\<close>

lemma StatePath_inj:
  "StatePath env spec pre suf False = StatePath env spec' pre' suf' False \<Longrightarrow> StatePath env spec pre suf False \<noteq> [] \<Longrightarrow>
   pre @ slug spec @ suf = pre' @ slug spec' @ suf'"
  by (auto simp: StatePath_def Let_def split: if_splits)

lemma delete_keeps_disabled:
  assumes "HasAutoDisabledMarker env spec fs"
    and "p = ActiveMarkerPath env s False \<or> p = SuspectMarkerPath env s False \<or> p = CleanMarkerPath env s False \<or>
         p = CounterPath env s False"
  shows "HasAutoDisabledMarker env spec (fst (DeleteFileIfPresent env p fs))"
proof -
  have "AutoDisabledMarkerPath env spec False \<noteq> p"
  proof
    assume "AutoDisabledMarkerPath env spec False = p"
    moreover have "AutoDisabledMarkerPath env spec False \<noteq> []"
      using assms(1) by (simp add: HasAutoDisabledMarker_def FileExists_def)
    ultimately show False using assms(2) by (auto simp: path_defs dest!: StatePath_inj)
  qed
  then show ?thesis using assms(1) by (auto simp: HasAutoDisabledMarker_def FileExists_def DeleteFileIfPresent_def)
qed

lemma write_keeps_disabled:
  "HasAutoDisabledMarker env spec fs \<Longrightarrow> HasAutoDisabledMarker env spec (fst (WriteTextFile env p b fs))"
  by (auto simp: HasAutoDisabledMarker_def FileExists_def WriteTextFile_def split: write_outcome.split)

lemmas keeps_disabled = write_keeps_disabled
  delete_keeps_disabled [OF _ disjI1 [OF refl]] delete_keeps_disabled [OF _ disjI2 [OF disjI1 [OF refl]]]
  delete_keeps_disabled [OF _ disjI2 [OF disjI2 [OF disjI1 [OF refl]]]]
  delete_keeps_disabled [OF _ disjI2 [OF disjI2 [OF disjI2 [OF refl]]]]

lemma MarkFault_keeps_disabled:
  "HasAutoDisabledMarker env spec fs \<Longrightarrow> HasAutoDisabledMarker env spec (fst (MarkFault env s r fs))"
  by (simp add: MarkFault_def ClearRuntimeMarkers_def WriteMarker_def Let_def case_prod_beta keeps_disabled)

lemma AssessLaunch_keeps_disabled:
  "HasAutoDisabledMarker env spec fs \<Longrightarrow> HasAutoDisabledMarker env spec (fst (AssessLaunch env s a fs))"
  by (simp add: AssessLaunch_alt ClearRuntimeMarkers_def WriteCounters_def Let_def case_prod_beta keeps_disabled
      MarkFault_keeps_disabled split: option.split)

lemma guard_run_keeps_disabled:
  "HasAutoDisabledMarker env spec fs \<Longrightarrow> op \<noteq> Do_ClearAutoDisabled \<Longrightarrow>
   HasAutoDisabledMarker env spec (guard_run env s op fs)"
  by (cases op) (simp_all add: MarkFault_keeps_disabled AssessLaunch_keeps_disabled MarkActive_def MarkSuspect_def
      ClearSuspect_def MarkClean_def WriteMarker_def Let_def case_prod_beta keeps_disabled)


section \<open>Properties\<close>

text \<open>C17. In an environment that refuses nothing, any sequence of calls on any modules does to the state of
  each module exactly what its specification says of that module's own calls: the marker files and
  counters written are read back with the values and reasons given, and no call touches another module.\<close>

theorem guard_files_refine_state:
  assumes "guard_env env" "spec \<in> set kModules" "calls_ok calls"
  shows "guard env spec (guard_trace env calls fs) =
      fold guard_spec (map snd (filter (\<lambda>c. fst c = spec) calls)) (guard env spec fs)"
  by (rule guard_trace_refines [OF assms])

definition plain_env :: fs_env where
  "plain_env = \<lparr>candidates = [''C''], ensure = \<lambda>_. True, temp_root = ''T'', override_root = [], write_result = \<lambda>_. Written,
     may_delete = \<lambda>_. True, may_read = \<lambda>_. True\<rparr>"

lemma guard_env_plain: "guard_env plain_env"
  by (simp add: guard_env_def fs_good_def plain_env_def)

lemma GetModule_mem: "GetModule i \<in> set kModules"
  by (induct i) code_simp+

lemma GetModule_eq: "GetModule i = GetModule j \<longleftrightarrow> i = j"
  by (metis mi_id_GetModule)

theorem guard_files_refine_state_witness:
  "g_suspect (guard plain_env (GetModule Captions) (guard_trace plain_env
     [(GetModule Captions, Do_MarkSuspect (str ''init'')), (GetModule Smoothing, Do_MarkSuspect (str ''tick''))] Map.empty)) =
   Some (str ''init'')"
proof -
  have "calls_ok [(GetModule Captions, Do_MarkSuspect (str ''init'')), (GetModule Smoothing, Do_MarkSuspect (str ''tick''))]"
    by (simp add: calls_ok_def GetModule_mem plain_reason_def str_def)
  then show ?thesis
    using guard_files_refine_state [OF guard_env_plain GetModule_mem [of Captions]] by (simp add: GetModule_eq)
qed

text \<open>C18. What a launch decides. The assessment reports the stale markers it found; it disables the module
  exactly when a guarded operation other than clean-up was under way, or, where the caller allows it, on the third
  or a later launch that found the active marker alone; then the module is marked disabled with the
  reason reported, and otherwise its disabled marker is as before. The stale markers are gone
  afterwards.\<close>

theorem AssessLaunch_decides:
  assumes "guard_env env" "spec \<in> set kModules" "AssessLaunch env spec allow fs = (fs', r)"
  shows "had_stale_active r = HasActiveMarker env spec fs \<and> had_stale_suspect r = HasSuspectMarker env spec fs \<and>
    (auto_disabled r \<longleftrightarrow>
       (if HasSuspectMarker env spec fs then \<not> IsCleanupOnlySuspectReason (suspect_reason r)
        else HasActiveMarker env spec fs \<and> allow \<and> active_unclean (ReadCounters env spec fs) + 1 \<ge> 3)) \<and>
    (if auto_disabled r then HasAutoDisabledMarker env spec fs' \<and> AutoDisabledReason env spec fs' = la_reason r
     else HasAutoDisabledMarker env spec fs' = HasAutoDisabledMarker env spec fs) \<and>
    \<not> HasActiveMarker env spec fs' \<and> \<not> HasSuspectMarker env spec fs'"
proof -
  let ?g = "guard env spec fs" and ?g' = "guard env spec fs'"
  have g': "?g' = guard_spec (Do_AssessLaunch allow) ?g"
    using guard_AssessLaunch [OF assms(1,2,2), of allow fs] assms(3) by simp
  have r: "r = snd (AssessLaunch env spec allow fs)" using assms(3) by simp
  have r': "r = launch_report allow ?g" unfolding r by (rule snd_AssessLaunch [OF assms(1,2)])
  have ok: "auto_disabled r \<longleftrightarrow> launch_verdict allow ?g \<noteq> None"
    unfolding r' by (auto simp: launch_report_def launch_verdict_def no_assessment_def)
  have d: "HasAutoDisabledMarker env spec fs' \<longleftrightarrow> g_disabled ?g' \<noteq> None"
    "HasAutoDisabledMarker env spec fs' \<Longrightarrow> g_disabled ?g' = Some (AutoDisabledReason env spec fs')"
    "HasAutoDisabledMarker env spec fs \<longleftrightarrow> g_disabled ?g \<noteq> None"
    by (simp_all add: guard_def)
  have s: "HasSuspectMarker env spec fs \<Longrightarrow> g_suspect ?g = Some (suspect_reason r)"
    unfolding r' by (simp add: launch_report_def guard_def)
  have sn: "\<not> HasSuspectMarker env spec fs \<Longrightarrow> g_suspect ?g = None" by (simp add: guard_def)
  have hs: "HasSuspectMarker env spec fs \<longleftrightarrow> g_suspect ?g \<noteq> None" by (simp add: guard_def)
  have f: "had_stale_active r = HasActiveMarker env spec fs" "had_stale_suspect r = HasSuspectMarker env spec fs"
    "launch_verdict allow ?g = Some x \<Longrightarrow> la_reason r = x" for x
    unfolding r' by (auto simp: launch_report_def no_assessment_def launch_verdict_def guard_fields(1) hs)
  have v: "launch_verdict allow ?g \<noteq> None \<longleftrightarrow>
       (if HasSuspectMarker env spec fs then \<not> IsCleanupOnlySuspectReason (suspect_reason r)
        else HasActiveMarker env spec fs \<and> allow \<and> active_unclean (ReadCounters env spec fs) + 1 \<ge> 3)"
    using s sn
    by (cases "HasSuspectMarker env spec fs") (simp_all add: launch_verdict_def IsCleanupOnlySuspectReason_def guard_fields(1,4))
  have "g_disabled ?g' = (case launch_verdict allow ?g of Some x \<Rightarrow> Some x | None \<Rightarrow> g_disabled ?g)"
    "\<not> g_active ?g'" "g_suspect ?g' = None"
    unfolding g' by (auto simp: Let_def fault_spec_def split: option.split)
  then show ?thesis using d f guard_fields(1,2) [of env spec fs'] unfolding v [symmetric] ok
    by (cases "launch_verdict allow ?g") auto
qed


lemma no_files:
  "\<not> HasActiveMarker env spec Map.empty" "\<not> HasSuspectMarker env spec Map.empty"
  "\<not> HasAutoDisabledMarker env spec Map.empty" "ReadCounters env spec Map.empty = no_counts"
  by (simp_all add: HasActiveMarker_def HasSuspectMarker_def HasAutoDisabledMarker_def FileExists_def ReadCounters_def
      ReadTextFile_def no_counts_def ReadUnsignedField_Nil str_def)

theorem AssessLaunch_decides_witness:
  "(let (fs', r) = AssessLaunch plain_env (GetModule Captions) False (guard_run plain_env (GetModule Captions) Do_MarkActive Map.empty)
    in had_stale_active r \<and> \<not> auto_disabled r \<and> \<not> HasActiveMarker plain_env (GetModule Captions) fs')"
proof -
  let ?c = "GetModule Captions"
  let ?fs = "guard_run plain_env ?c Do_MarkActive Map.empty"
  have g: "guard plain_env ?c ?fs = guard_spec Do_MarkActive (guard plain_env ?c Map.empty)"
    using guard_op_refines [OF guard_env_plain GetModule_mem GetModule_mem, where op = Do_MarkActive, of Captions Captions] by simp
  have "HasActiveMarker plain_env ?c ?fs \<and> \<not> HasSuspectMarker plain_env ?c ?fs"
    using arg_cong [OF g, of g_active] arg_cong [OF g, of g_suspect] no_files [of plain_env ?c]
    by (simp add: guard_def split: if_splits)
  then show ?thesis
    using AssessLaunch_decides [OF guard_env_plain GetModule_mem, of Captions False ?fs]
    by (cases "AssessLaunch plain_env ?c False ?fs") auto
qed

text \<open>Three strikes: from a state with cleared counters, \<open>n\<close> launches that each mark the module active and
  die make the launch check disable it exactly when \<open>n\<close> is at least three, and never where the caller does not allow it. The
  counter then reads \<open>n\<close> modulo \<open>2^32\<close>.\<close>

theorem three_strikes:
  assumes "guard_env env" "spec \<in> set kModules"
    and "ReadCounters env spec fs = no_counts" "\<not> HasSuspectMarker env spec fs" "\<not> HasAutoDisabledMarker env spec fs"
    and "fs' = guard_trace env (concat (replicate n [(spec, Do_MarkActive), (spec, Do_AssessLaunch allow)])) fs"
  shows "(HasAutoDisabledMarker env spec fs' \<longleftrightarrow> allow \<and> 3 \<le> n) \<and>
         active_unclean (ReadCounters env spec fs') = word_of_nat n"
proof -
  let ?calls = "concat (replicate n [(spec, Do_MarkActive), (spec, Do_AssessLaunch allow)])"
  have "calls_ok ?calls" using assms(2) by (induction n) (auto simp: calls_ok_def)
  moreover have "map snd (filter (\<lambda>c. fst c = spec) ?calls) = concat (replicate n [Do_MarkActive, Do_AssessLaunch allow])"
    by (induction n) simp_all
  ultimately have g: "guard env spec fs' = fold guard_spec (concat (replicate n [Do_MarkActive, Do_AssessLaunch allow])) (guard env spec fs)"
    using guard_trace_refines [OF assms(1,2)] assms(6) by simp
  have "g_suspect (guard env spec fs) = None" "g_disabled (guard env spec fs) = None" "g_count (guard env spec fs) = no_counts"
    using assms(3-5) by (simp_all add: guard_def)
  from crash_rounds_spec [OF this, of n allow]
  have "g_disabled (guard env spec fs') = (if allow \<and> 3 \<le> n then Some repeated else None)"
    "active_unclean (g_count (guard env spec fs')) = word_of_nat n"
    unfolding g Let_def by blast+
  then show ?thesis using guard_fields(4,5) [of env spec fs'] by (auto split: if_splits)
qed

theorem three_strikes_witness:
  "HasAutoDisabledMarker plain_env (GetModule PhantomModule) (guard_trace plain_env
     (concat (replicate 3 [(GetModule PhantomModule, Do_MarkActive), (GetModule PhantomModule, Do_AssessLaunch True)])) Map.empty)"
  using three_strikes [OF guard_env_plain GetModule_mem no_files(4,2,3) refl, of PhantomModule 3 True] by simp

text \<open>C19. A disabled module stays disabled until it is cleared, whatever the operating system refuses: no call on any
  module other than \<open>ClearAutoDisabled\<close> makes its marker disappear.\<close>

theorem disabled_until_cleared:
  assumes "HasAutoDisabledMarker env spec fs" "list_all (\<lambda>c. snd c \<noteq> Do_ClearAutoDisabled) calls"
  shows "HasAutoDisabledMarker env spec (guard_trace env calls fs)"
  using assms
proof (induction calls arbitrary: fs)
  case (Cons c calls)
  then show ?case using guard_run_keeps_disabled [of env spec fs "snd c" "fst c"] by (simp add: guard_trace_def case_prod_beta)
qed (simp add: guard_trace_def)

theorem disabled_until_cleared_witness:
  "HasAutoDisabledMarker (plain_env\<lparr>write_result := \<lambda>_. Short 2\<rparr>) (GetModule Captions)
     (guard_trace (plain_env\<lparr>write_result := \<lambda>_. Short 2\<rparr>) [(GetModule Captions, Do_MarkFault []), (GetModule Smoothing, Do_MarkClean)]
       [AutoDisabledMarkerPath plain_env (GetModule Captions) False \<mapsto> []])"
proof (rule disabled_until_cleared)
  have "AutoDisabledMarkerPath (plain_env\<lparr>write_result := \<lambda>_. Short 2\<rparr>) (GetModule Captions) False =
      AutoDisabledMarkerPath plain_env (GetModule Captions) False"
    by (simp add: AutoDisabledMarkerPath_def StatePath_def RootPath_def WkOpenVrSubdirectoryPath_def WkOpenVrRootPath_def
        plain_env_def Let_def)
  then show "HasAutoDisabledMarker (plain_env\<lparr>write_result := \<lambda>_. Short 2\<rparr>) (GetModule Captions)
      [AutoDisabledMarkerPath plain_env (GetModule Captions) False \<mapsto> []]"
    using path_nonempty(5) [OF guard_env_plain] by (simp add: HasAutoDisabledMarker_def FileExists_def)
qed simp


lemma MarkFault_other:
  assumes "AutoDisabledMarkerPath env spec True \<noteq> AutoDisabledMarkerPath env spec False"
  shows "HasAutoDisabledMarker env spec (fst (MarkFault env spec r fs)) = HasAutoDisabledMarker env spec fs"
proof (cases "AutoDisabledMarkerPath env spec False = []")
  case False
  then have "AutoDisabledMarkerPath env spec False \<notin>
      {ActiveMarkerPath env spec False, SuspectMarkerPath env spec False, CleanMarkerPath env spec False}"
    by (auto simp: path_defs dest!: StatePath_inj)
  then have "fst (MarkFault env spec r fs) (AutoDisabledMarkerPath env spec False) = fs (AutoDisabledMarkerPath env spec False)"
    using assms
    by (simp add: MarkFault_def ClearRuntimeMarkers_def WriteMarker_def Let_def case_prod_beta write_other
        delete_other [OF not_sym])
  then show ?thesis by (simp add: HasAutoDisabledMarker_def FileExists_def domIff)
qed (simp add: HasAutoDisabledMarker_def FileExists_def)

lemma root_last: "last (Win32_JoinPath c ''WKOpenVR'') = CHR ''R''" "Win32_JoinPath c ''WKOpenVR'' \<noteq> []"
  by (simp_all add: Win32_JoinPath_def JoinPath_def)

lemma JoinPath_plain: "l \<noteq> [] \<Longrightarrow> last l = CHR ''R'' \<or> last l = CHR ''y'' \<Longrightarrow> JoinPath l r = l @ backslash # r"
  by (auto simp: JoinPath_def)

text \<open>A fault marker can be lost. When the first data directory can be neither found nor created and the
  second can, \<open>MarkFault\<close> writes the marker below the second directory and reports success, but
  \<open>HasAutoDisabledMarker\<close> always looks below the first, so the module is not seen as disabled.\<close>

theorem MarkFault_lost:
  assumes "override_root env = []" "candidates env = c # c' # cs"
    and "\<not> ensure env (Win32_JoinPath c ''WKOpenVR'')" "ensure env (Win32_JoinPath c' ''WKOpenVR'')"
    and "ensure env (Win32_JoinPath (Win32_JoinPath c' ''WKOpenVR'') ''module_safety'')"
    and "write_result env (AutoDisabledMarkerPath env spec True) = Written"
  shows "snd (MarkFault env spec r fs) \<and>
         HasAutoDisabledMarker env spec (fst (MarkFault env spec r fs)) = HasAutoDisabledMarker env spec fs"
proof -
  let ?p = "\<lambda>d. JoinPath (Win32_JoinPath (Win32_JoinPath d ''WKOpenVR'') ''module_safety'') (''auto_disabled_'' @ slug spec @ ''.flag'')"
  have p: "?p d = Win32_JoinPath d ''WKOpenVR'' @ backslash # ''module_safety'' @ backslash # ''auto_disabled_'' @ slug spec @ ''.flag''" for d
    using root_last [of d] by (simp add: Win32_JoinPath_def [of "Win32_JoinPath d ''WKOpenVR''"] JoinPath_plain)
  have t: "AutoDisabledMarkerPath env spec True = ?p c'" and f: "AutoDisabledMarkerPath env spec False = ?p c"
    using assms(1-5) by (auto simp: AutoDisabledMarkerPath_def StatePath_def RootPath_def WkOpenVrSubdirectoryPath_def
        WkOpenVrRootPath_def EnsureDirectory_def Win32_JoinPath_nonempty Let_def)
  have "Win32_JoinPath c ''WKOpenVR'' \<noteq> Win32_JoinPath c' ''WKOpenVR''" using assms(3,4) by auto
  then have "AutoDisabledMarkerPath env spec True \<noteq> AutoDisabledMarkerPath env spec False" unfolding t f p by simp
  moreover have "AutoDisabledMarkerPath env spec True \<noteq> []" unfolding t p by simp
  then have "snd (MarkFault env spec r fs)"
    using assms(6) by (simp add: MarkFault_def WriteMarker_def WriteTextFile_def Let_def)
  ultimately show ?thesis using MarkFault_other by simp
qed

theorem MarkFault_lost_witness:
  "let env = plain_env\<lparr>candidates := [''A'', ''B''], ensure := (\<lambda>p. hd p \<noteq> CHR ''A'')\<rparr>
   in snd (MarkFault env (GetModule Captions) (str ''init_exception'') Map.empty) \<and>
      \<not> HasAutoDisabledMarker env (GetModule Captions) (fst (MarkFault env (GetModule Captions) (str ''init_exception'') Map.empty))"
proof -
  define env where "env = plain_env\<lparr>candidates := [''A'', ''B''], ensure := (\<lambda>p. hd p \<noteq> CHR ''A'')\<rparr>"
  have "snd (MarkFault env (GetModule Captions) (str ''init_exception'') Map.empty) \<and>
      HasAutoDisabledMarker env (GetModule Captions) (fst (MarkFault env (GetModule Captions) (str ''init_exception'') Map.empty)) =
      HasAutoDisabledMarker env (GetModule Captions) Map.empty"
    by (rule MarkFault_lost [of _ "''A''" "''B''" "[]"]) (simp_all add: env_def plain_env_def Win32_JoinPath_def JoinPath_def)
  then show ?thesis using no_files(3) by (simp add: env_def Let_def)
qed

end
