(* ===== verification/FeatureFlags.thy ===== *)
theory FeatureFlags
  imports ModuleSafety
begin

text \<open>
  Which modules a launch of the driver enables (\<open>core/src/driver/FeatureFlags.cpp\<close>, \<open>FeatureFlags.h\<close>): flag files in the
  driver's resources directory, masked by the crash guard, with the OSC router implied by the modules
  that publish through it.
\<close>

section \<open>Masks\<close>

definition kFeatureCalibration :: u32 where "kFeatureCalibration = 1"
definition kFeatureSmoothing :: u32 where "kFeatureSmoothing = 2"
definition kFeatureInputHealth :: u32 where "kFeatureInputHealth = 4"
definition kFeatureFaceTracking :: u32 where "kFeatureFaceTracking = 8"
definition kFeatureOscRouter :: u32 where "kFeatureOscRouter = 16"
definition kFeatureCaptions :: u32 where "kFeatureCaptions = 32"
definition kFeaturePhantom :: u32 where "kFeaturePhantom = 64"

lemmas feature_masks = kFeatureCalibration_def kFeatureSmoothing_def kFeatureInputHealth_def kFeatureFaceTracking_def
  kFeatureOscRouter_def kFeatureCaptions_def kFeaturePhantom_def

definition ApplyFeatureImplications :: "u32 \<Rightarrow> u32" where
  "ApplyFeatureImplications flags =
     (if flags AND (kFeatureFaceTracking OR kFeatureCaptions) \<noteq> 0 then flags OR kFeatureOscRouter else flags)"

definition ComposeFeatureFlags :: "bool \<Rightarrow> bool \<Rightarrow> bool \<Rightarrow> bool \<Rightarrow> bool \<Rightarrow> bool \<Rightarrow> bool \<Rightarrow> u32" where
  "ComposeFeatureFlags calibration smoothing inputHealth faceTracking oscRouter captions phantomOn =
     (let flags = 0;
          flags = (if calibration then flags OR kFeatureCalibration else flags);
          flags = (if smoothing then flags OR kFeatureSmoothing else flags);
          flags = (if inputHealth then flags OR kFeatureInputHealth else flags);
          flags = (if faceTracking then flags OR kFeatureFaceTracking else flags);
          flags = (if oscRouter then flags OR kFeatureOscRouter else flags);
          flags = (if captions then flags OR kFeatureCaptions else flags);
          flags = (if phantomOn then flags OR kFeaturePhantom else flags)
      in ApplyFeatureImplications flags)"

fun FeatureMaskForModule :: "ModuleId \<Rightarrow> u32" where
  "FeatureMaskForModule Calibration = kFeatureCalibration"
| "FeatureMaskForModule Smoothing = kFeatureSmoothing"
| "FeatureMaskForModule InputHealth = kFeatureInputHealth"
| "FeatureMaskForModule FaceTracking = kFeatureFaceTracking"
| "FeatureMaskForModule OscRouterModule = kFeatureOscRouter"
| "FeatureMaskForModule Captions = kFeatureCaptions"
| "FeatureMaskForModule PhantomModule = kFeaturePhantom"
| "FeatureMaskForModule _ = 0"

definition ModuleForFeatureMask :: "u32 \<Rightarrow> ModuleInfo option" where
  "ModuleForFeatureMask featureMask =
     (if featureMask = kFeatureCalibration then Some (GetModule Calibration)
      else if featureMask = kFeatureSmoothing then Some (GetModule Smoothing)
      else if featureMask = kFeatureInputHealth then Some (GetModule InputHealth)
      else if featureMask = kFeatureFaceTracking then Some (GetModule FaceTracking)
      else if featureMask = kFeatureOscRouter then Some (GetModule OscRouterModule)
      else if featureMask = kFeatureCaptions then Some (GetModule Captions)
      else if featureMask = kFeaturePhantom then Some (GetModule PhantomModule)
      else None)"

section \<open>Flag files\<close>

definition is_slash :: "char \<Rightarrow> bool" where
  "is_slash c \<longleftrightarrow> c = backslash \<or> c = CHR ''/''"

text \<open>Cut a path at its last separator, \<open>find_last_of\<close> and \<open>resize\<close>.\<close>

definition pop_segment :: "path \<Rightarrow> path option" where
  "pop_segment p =
     (case dropWhile (\<lambda>c. \<not> is_slash c) (rev p) of [] \<Rightarrow> None | _ # rest \<Rightarrow> Some (rev rest))"

text \<open>
  The argument is the path of the driver's own library, as \<open>GetModuleFileNameW\<close> gives it, or none when it cannot be
  asked; \<open>MAX_PATH\<close> is 260.
\<close>

definition GetDriverResourcesDir :: "path option \<Rightarrow> path" where
  "GetDriverResourcesDir dll =
     (case dll of
        None \<Rightarrow> []
      | Some buf \<Rightarrow>
          if length buf = 0 \<or> length buf \<ge> 260 then []
          else case Option.bind (Option.bind (pop_segment buf) pop_segment) pop_segment of
              None \<Rightarrow> []
            | Some root \<Rightarrow> root @ backslash # ''resources'')"

definition FlagFileExists :: "path \<Rightarrow> string \<Rightarrow> store \<Rightarrow> bool" where
  "FlagFileExists resourcesDir flagName fs = FileExists (resourcesDir @ [backslash] @ flagName) fs"

definition ModuleFlagFileExists :: "path \<Rightarrow> ModuleInfo \<Rightarrow> store \<Rightarrow> bool" where
  "ModuleFlagFileExists resourcesDir module fs \<longleftrightarrow>
     FlagFileExists resourcesDir (flag_file_wide module) fs \<or>
     (case legacy_flag_file_wide module of None \<Rightarrow> False | Some legacy \<Rightarrow> FlagFileExists resourcesDir legacy fs)"

definition IsRuntimeFeatureFlagPresent :: "path option \<Rightarrow> u32 \<Rightarrow> store \<Rightarrow> bool" where
  "IsRuntimeFeatureFlagPresent dll featureMask fs =
     (let dir = GetDriverResourcesDir dll
      in if dir = [] then False
         else case ModuleForFeatureMask featureMask of None \<Rightarrow> False | Some module \<Rightarrow> ModuleFlagFileExists dir module fs)"

section \<open>The safety gate\<close>

text \<open>
  A gate remembers which of the caller's variables it points to; the variables are a map from
  modules to booleans.
\<close>

type_synonym enables = "ModuleId \<Rightarrow> bool"

record SafetyGateResult =
  gate_enabled :: ModuleId
  gate_spec :: "ModuleInfo option"
  gate_assessment :: LaunchAssessment

definition ApplySafetyGate ::
  "fs_env \<Rightarrow> ModuleId \<Rightarrow> enables \<times> store \<Rightarrow> SafetyGateResult \<times> enables \<times> store" where
  "ApplySafetyGate env i es =
     (let (enabled, fs) = es;
          result = \<lparr>gate_enabled = i, gate_spec = None, gate_assessment = no_assessment\<rparr>
      in if \<not> enabled i then (result, enabled, fs)
         else case Safety_FindById i of
             None \<Rightarrow> (result, enabled, fs)
           | Some spec \<Rightarrow>
               (let (fs1, assessment) = AssessLaunch env spec False fs;
                    result1 = result\<lparr>gate_spec := Some spec, gate_assessment := assessment\<rparr>
                in if HasAutoDisabledMarker env spec fs1 then (result1, enabled(i := False), fs1)
                   else (result1, enabled, fs1)))"

definition backoff_candidate :: "enables \<Rightarrow> SafetyGateResult \<Rightarrow> bool" where
  "backoff_candidate enabled gate \<longleftrightarrow>
     enabled (gate_enabled gate) \<and> gate_spec gate \<noteq> None \<and>
     (let a = gate_assessment gate
      in had_stale_active a \<and> \<not> had_stale_suspect a \<and> \<not> auto_disabled a \<and> \<not> active_unclean_count a < 3)"

text \<open>The last candidate is remembered, and acted on when it is the only one.\<close>

definition ApplyRepeatedActiveOnlyBackoff ::
  "fs_env \<Rightarrow> SafetyGateResult list \<Rightarrow> enables \<times> store \<Rightarrow> enables \<times> store" where
  "ApplyRepeatedActiveOnlyBackoff env gates es =
     (let (enabled, fs) = es
      in case filter (backoff_candidate enabled) gates of
          [candidate] \<Rightarrow>
            (case gate_spec candidate of
               Some spec \<Rightarrow>
                 (enabled(gate_enabled candidate := False),
                  fst (MarkFault env spec (str ''repeated_unclean_driver_exit'') fs))
             | None \<Rightarrow> (enabled, fs))
        | _ \<Rightarrow> (enabled, fs))"

text \<open>Gates one after the other.\<close>

fun ApplyGates :: "fs_env \<Rightarrow> ModuleId list \<Rightarrow> enables \<times> store \<Rightarrow> SafetyGateResult list \<times> enables \<times> store" where
  "ApplyGates env [] es = ([], es)"
| "ApplyGates env (i # is) es =
     (let (g, es1) = ApplySafetyGate env i es; (gs, es2) = ApplyGates env is es1 in (g # gs, es2))"

text \<open>The modules gated first, in the order of the code, and what their flag files say.\<close>

definition gated_modules :: "ModuleId list" where
  "gated_modules = [Calibration, Smoothing, InputHealth, FaceTracking, Captions, PhantomModule]"

definition flags_on :: "path \<Rightarrow> store \<Rightarrow> enables" where
  "flags_on dir fs = (\<lambda>i. i \<in> set gated_modules \<and> ModuleFlagFileExists dir (GetModule i) fs)"

definition router_on :: "path \<Rightarrow> store \<Rightarrow> enables \<Rightarrow> enables" where
  "router_on dir fs safe =
     safe(OscRouterModule := ModuleFlagFileExists dir (GetModule OscRouterModule) fs \<or> safe FaceTracking \<or> safe Captions)"

definition DetectFeatureFlags :: "fs_env \<Rightarrow> path option \<Rightarrow> store \<Rightarrow> u32 \<times> store" where
  "DetectFeatureFlags env dll fs =
     (let dir = GetDriverResourcesDir dll
      in if dir = [] then (0, fs)
         else
           let (gates, safe1, fs1) = ApplyGates env gated_modules (flags_on dir fs, fs);
               (orGate, safe3, fs2) = ApplySafetyGate env OscRouterModule (router_on dir fs safe1, fs1);
               (safe4, fs3) = ApplyRepeatedActiveOnlyBackoff env (gates @ [orGate]) (safe3, fs2);
               safe5 = (if \<not> safe4 OscRouterModule \<and> (safe4 FaceTracking \<or> safe4 Captions)
                        then safe4(FaceTracking := False, Captions := False) else safe4)
           in (ComposeFeatureFlags (safe5 Calibration) (safe5 Smoothing) (safe5 InputHealth) (safe5 FaceTracking)
                 (safe5 OscRouterModule) (safe5 Captions) (safe5 PhantomModule), fs3))"


section \<open>Facts\<close>

definition has_bit :: "u32 \<Rightarrow> ModuleId \<Rightarrow> bool" where
  "has_bit flags i \<longleftrightarrow> flags AND FeatureMaskForModule i \<noteq> 0"

text \<open>The seven modules that have a mask.\<close>

definition driver_modules :: "ModuleId list" where
  "driver_modules = [Calibration, Smoothing, InputHealth, FaceTracking, OscRouterModule, Captions, PhantomModule]"

lemma ComposeFeatureFlags_sum:
  "ComposeFeatureFlags c s h f r p x =
     of_bool c + 2 * of_bool s + 4 * of_bool h + 8 * of_bool f + 16 * of_bool (r \<or> f \<or> p) + 32 * of_bool p + 64 * of_bool x"
  by (cases c; cases s; cases h; cases f; cases r; cases p; cases x)
    (simp_all add: ComposeFeatureFlags_def ApplyFeatureImplications_def feature_masks Let_def)

lemma has_bit_Compose:
  "has_bit (ComposeFeatureFlags c s h f r p x) i \<longleftrightarrow>
     (case i of Calibration \<Rightarrow> c | Smoothing \<Rightarrow> s | InputHealth \<Rightarrow> h | FaceTracking \<Rightarrow> f | OscRouterModule \<Rightarrow> r \<or> f \<or> p
      | Captions \<Rightarrow> p | PhantomModule \<Rightarrow> x | _ \<Rightarrow> False)"
  unfolding has_bit_def ComposeFeatureFlags_sum
  by (cases c; cases s; cases h; cases f; cases r; cases p; cases x; cases i) (simp_all add: feature_masks)

lemma Safety_FindById_driver: "i \<in> set driver_modules \<Longrightarrow> Safety_FindById i = Some (GetModule i)"
proof -
  have "list_all (\<lambda>i. participates_in_driver_safety (GetModule i)) driver_modules" by code_simp
  then show "i \<in> set driver_modules \<Longrightarrow> ?thesis"
    by (auto simp: Safety_FindById_def FindById_Some list_all_iff)
qed

lemma ModuleForFeatureMask_inv: "i \<in> set driver_modules \<Longrightarrow> ModuleForFeatureMask (FeatureMaskForModule i) = Some (GetModule i)"
  by (auto simp: driver_modules_def ModuleForFeatureMask_def feature_masks)


section \<open>What the gate relies on\<close>

text \<open>
  The contract the gate needs of the crash guard: neither assessing a launch nor recording a fault makes a disabled
  module enabled.
\<close>

locale disable_guard =
  fixes disabled :: "'m \<Rightarrow> 's \<Rightarrow> bool"
    and assess :: "'m \<Rightarrow> 's \<Rightarrow> 's"
    and fault :: "'m \<Rightarrow> 's \<Rightarrow> 's"
  assumes assess_keeps: "disabled m s \<Longrightarrow> disabled m (assess m' s)"
    and fault_keeps: "disabled m s \<Longrightarrow> disabled m (fault m' s)"
begin

lemma assess_all_keeps: "disabled m s \<Longrightarrow> disabled m (fold assess ms s)"
  by (induction ms arbitrary: s) (auto simp: assess_keeps)

lemma detect_keeps: "disabled m s \<Longrightarrow> disabled m (fold fault fs (fold assess ms s))"
  by (induction fs arbitrary: s ms rule: rev_induct) (auto simp: assess_all_keeps fault_keeps)

end

interpretation safety: disable_guard "HasAutoDisabledMarker env" "\<lambda>spec fs. fst (AssessLaunch env spec allow fs)"
    "\<lambda>spec fs. fst (MarkFault env spec reason fs)"
  for env allow reason
  by unfold_locales (simp_all add: AssessLaunch_keeps_disabled MarkFault_keeps_disabled)

section \<open>One gate\<close>

lemma gate_only_disables:
  assumes "ApplySafetyGate env i (enabled, fs) = (g, enabled', fs')"
  shows "enabled' j \<Longrightarrow> enabled j" and "j \<noteq> i \<Longrightarrow> enabled' j = enabled j" and "gate_enabled g = i"
  using assms by (auto simp: ApplySafetyGate_def Let_def case_prod_beta split: if_splits option.splits)

lemma gate_store:
  assumes "ApplySafetyGate env i (enabled, fs) = (g, enabled', fs')"
  shows "\<exists>ms. fs' = fold (\<lambda>spec fs. fst (AssessLaunch env spec False fs)) ms fs"
proof (cases "\<not> enabled i \<or> Safety_FindById i = None")
  case True
  then have "fs' = fs" using assms by (auto simp: ApplySafetyGate_def Let_def split: if_splits)
  then show ?thesis by (intro exI [of _ "[]"]) simp
next
  case False
  then obtain spec where "fs' = fst (AssessLaunch env spec False fs)"
    using assms by (auto simp: ApplySafetyGate_def Let_def case_prod_beta split: if_splits option.splits)
  then show ?thesis by (intro exI [of _ "[spec]"]) simp
qed

lemma gate_masks_disabled:
  assumes "ApplySafetyGate env i (enabled, fs) = (g, enabled', fs')" "i \<in> set driver_modules"
    and "HasAutoDisabledMarker env (GetModule i) fs"
  shows "\<not> enabled' i"
  using assms(1) safety.assess_keeps [OF assms(3)]
  by (auto simp: ApplySafetyGate_def Let_def case_prod_beta Safety_FindById_driver [OF assms(2)] split: if_splits)

section \<open>All gates\<close>

lemma gates_only_disable:
  "ApplyGates env is (enabled, fs) = (gs, enabled', fs') \<Longrightarrow>
     (enabled' j \<longrightarrow> enabled j) \<and> (j \<notin> set is \<longrightarrow> enabled' j = enabled j) \<and> map gate_enabled gs = is"
proof (induction "is" arbitrary: enabled fs gs)
  case (Cons i "is")
  then show ?case using gate_only_disables [of env i enabled fs]
    by (fastforce simp: Let_def split: prod.splits)
qed simp

lemma gates_store:
  "ApplyGates env is (enabled, fs) = (gs, enabled', fs') \<Longrightarrow>
     \<exists>ms. fs' = fold (\<lambda>spec fs. fst (AssessLaunch env spec False fs)) ms fs"
proof (induction "is" arbitrary: enabled fs gs)
  case Nil
  then show ?case by (intro exI [of _ "[]"]) simp
next
  case (Cons i "is")
  obtain g e1 f1 where one: "ApplySafetyGate env i (enabled, fs) = (g, e1, f1)" by (metis prod_cases3)
  obtain gs' where rest: "ApplyGates env is (e1, f1) = (gs', enabled', fs')"
    using Cons.prems one by (auto simp: Let_def split: prod.splits)
  obtain ms where "f1 = fold (\<lambda>spec fs. fst (AssessLaunch env spec False fs)) ms fs" using gate_store [OF one] by blast
  moreover obtain ms' where "fs' = fold (\<lambda>spec fs. fst (AssessLaunch env spec False fs)) ms' f1"
    using Cons.IH [OF rest] by blast
  ultimately show ?case by (intro exI [of _ "ms @ ms'"]) simp
qed

lemma gates_mask_disabled:
  "ApplyGates env is (enabled, fs) = (gs, enabled', fs') \<Longrightarrow> i \<in> set is \<Longrightarrow> i \<in> set driver_modules \<Longrightarrow>
   HasAutoDisabledMarker env (GetModule i) fs \<Longrightarrow> \<not> enabled' i"
proof (induction "is" arbitrary: enabled fs gs)
  case (Cons k "is")
  obtain g e1 f1 where one: "ApplySafetyGate env k (enabled, fs) = (g, e1, f1)" by (metis prod_cases3)
  obtain gs' where rest: "ApplyGates env is (e1, f1) = (gs', enabled', fs')"
    using Cons.prems(1) one by (auto simp: Let_def split: prod.splits)
  have kept: "HasAutoDisabledMarker env (GetModule i) f1"
    using gate_store [OF one] safety.assess_all_keeps [OF Cons.prems(4)] by auto
  show ?case
  proof (cases "i \<in> set is")
    case True
    then show ?thesis using Cons.IH [OF rest] Cons.prems(3) kept by simp
  next
    case False
    then have "i = k" using Cons.prems(2) by simp
    then have "\<not> e1 i" using gate_masks_disabled [OF one] Cons.prems(3,4) by simp
    then show ?thesis using gates_only_disable [OF rest] by blast
  qed
qed simp

lemma backoff_only_disables:
  "ApplyRepeatedActiveOnlyBackoff env gates (enabled, fs) = (enabled', fs') \<Longrightarrow> enabled' j \<Longrightarrow> enabled j"
  by (auto simp: ApplyRepeatedActiveOnlyBackoff_def split: list.splits option.splits if_splits)


section \<open>Detection\<close>

text \<open>The steps of a detection that finds its resources directory, and the bits it returns.\<close>

definition needs_router :: "ModuleId \<Rightarrow> bool" where
  "needs_router i \<longleftrightarrow> i = FaceTracking \<or> i = Captions"

lemma Detect_steps:
  assumes "GetDriverResourcesDir dll = dir" "dir \<noteq> []" "DetectFeatureFlags env dll fs = (flags, fs')"
  obtains gates safe1 fs1 orGate safe3 fs2 safe4 where
    "ApplyGates env gated_modules (flags_on dir fs, fs) = (gates, safe1, fs1)"
    "ApplySafetyGate env OscRouterModule (router_on dir fs safe1, fs1) = (orGate, safe3, fs2)"
    "ApplyRepeatedActiveOnlyBackoff env (gates @ [orGate]) (safe3, fs2) = (safe4, fs')"
    "\<forall>i. has_bit flags i \<longleftrightarrow> i \<in> set driver_modules \<and> safe4 i \<and> (needs_router i \<longrightarrow> safe4 OscRouterModule)"
proof -
  obtain gates safe1 fs1 where 1: "ApplyGates env gated_modules (flags_on dir fs, fs) = (gates, safe1, fs1)"
    by (cases "ApplyGates env gated_modules (flags_on dir fs, fs)") auto
  obtain orGate safe3 fs2 where 2: "ApplySafetyGate env OscRouterModule (router_on dir fs safe1, fs1) = (orGate, safe3, fs2)"
    by (cases "ApplySafetyGate env OscRouterModule (router_on dir fs safe1, fs1)") auto
  obtain safe4 fs3 where 3: "ApplyRepeatedActiveOnlyBackoff env (gates @ [orGate]) (safe3, fs2) = (safe4, fs3)"
    by (cases "ApplyRepeatedActiveOnlyBackoff env (gates @ [orGate]) (safe3, fs2)") auto
  define s5 where "s5 = (if \<not> safe4 OscRouterModule \<and> (safe4 FaceTracking \<or> safe4 Captions)
      then safe4(FaceTracking := False, Captions := False) else safe4)"
  have r: "flags = ComposeFeatureFlags (s5 Calibration) (s5 Smoothing) (s5 InputHealth) (s5 FaceTracking)
                 (s5 OscRouterModule) (s5 Captions) (s5 PhantomModule)" "fs' = fs3"
    using assms 1 2 3 by (simp_all add: DetectFeatureFlags_def s5_def [symmetric])
  have h: "has_bit flags i \<longleftrightarrow> i \<in> set driver_modules \<and> safe4 i \<and> (needs_router i \<longrightarrow> safe4 OscRouterModule)" for i
    unfolding r has_bit_Compose by (cases i) (auto simp: driver_modules_def needs_router_def s5_def)
  show thesis by (rule that [OF 1 2 3 [folded r(2)]]) (use h in blast)
qed

lemma Detect_no_dir: "GetDriverResourcesDir dll = [] \<Longrightarrow> DetectFeatureFlags env dll fs = (0, fs)"
  by (simp add: DetectFeatureFlags_def)

lemma has_bit_0 [simp]: "\<not> has_bit 0 i"
  by (simp add: has_bit_def)

section \<open>Detection on the state of the guard\<close>

text \<open>
  What a launch does, in terms of the flag files and of the state of each module's crash guard.
\<close>

definition assessed :: "guard_state \<Rightarrow> guard_state" where
  "assessed g = guard_spec (Do_AssessLaunch False) g"

definition passes :: "(ModuleId \<Rightarrow> guard_state) \<Rightarrow> ModuleId \<Rightarrow> bool" where
  "passes gs i \<longleftrightarrow> g_disabled (assessed (gs i)) = None"

text \<open>The modules whose gate is consulted: those with a flag, and the router when it has a flag or a client that passed.\<close>

definition consulted :: "enables \<Rightarrow> (ModuleId \<Rightarrow> guard_state) \<Rightarrow> ModuleId \<Rightarrow> bool" where
  "consulted flag gs i \<longleftrightarrow>
     (if i = OscRouterModule
      then flag OscRouterModule \<or> flag FaceTracking \<and> passes gs FaceTracking \<or> flag Captions \<and> passes gs Captions
      else i \<in> set gated_modules \<and> flag i)"

definition third_strike :: "guard_state \<Rightarrow> bool" where
  "third_strike g \<longleftrightarrow> g_active g \<and> g_suspect g = None \<and> active_unclean (g_count g) + 1 \<ge> 3"

definition strikers :: "enables \<Rightarrow> (ModuleId \<Rightarrow> guard_state) \<Rightarrow> ModuleId list" where
  "strikers flag gs =
     filter (\<lambda>i. consulted flag gs i \<and> passes gs i \<and> third_strike (gs i)) (gated_modules @ [OscRouterModule])"

definition survives :: "enables \<Rightarrow> (ModuleId \<Rightarrow> guard_state) \<Rightarrow> ModuleId \<Rightarrow> bool" where
  "survives flag gs i \<longleftrightarrow> consulted flag gs i \<and> passes gs i \<and> strikers flag gs \<noteq> [i]"

definition detect_guard :: "enables \<Rightarrow> (ModuleId \<Rightarrow> guard_state) \<Rightarrow> ModuleId \<Rightarrow> guard_state" where
  "detect_guard flag gs i =
     (let g = (if consulted flag gs i then assessed (gs i) else gs i)
      in if strikers flag gs = [i] then fault_spec repeated g else g)"

text \<open>One gate.\<close>

definition gate_report :: "bool \<Rightarrow> ModuleId \<Rightarrow> guard_state \<Rightarrow> SafetyGateResult" where
  "gate_report on i g =
     \<lparr>gate_enabled = i, gate_spec = (if on then Some (GetModule i) else None),
      gate_assessment = (if on then launch_report False g else no_assessment)\<rparr>"

lemma disabled_iff: "HasAutoDisabledMarker env spec fs \<longleftrightarrow> g_disabled (guard env spec fs) \<noteq> None"
  by (simp add: guard_def)

lemma gate_on_guard:
  assumes "guard_env env" "i \<in> set driver_modules" "ApplySafetyGate env i (enabled, fs) = (g, enabled', fs')"
  shows "g = gate_report (enabled i) i (guard env (GetModule i) fs)"
    and "enabled' = enabled(i := enabled i \<and> passes (\<lambda>j. guard env (GetModule j) fs) i)"
    and "guard env (GetModule j) fs' =
      (if j = i \<and> enabled i then assessed (guard env (GetModule j) fs) else guard env (GetModule j) fs)"
proof -
  have s: "snd (AssessLaunch env (GetModule i) False fs) = launch_report False (guard env (GetModule i) fs)"
    by (rule snd_AssessLaunch [OF assms(1) GetModule_mem])
  have f: "guard env (GetModule j) (fst (AssessLaunch env (GetModule i) False fs)) =
      (if j = i then assessed (guard env (GetModule j) fs) else guard env (GetModule j) fs)" for j
    using guard_AssessLaunch [OF assms(1) GetModule_mem GetModule_mem, of j i False fs]
    by (simp add: GetModule_eq assessed_def del: guard_spec.simps)
  note u = ApplySafetyGate_def Let_def case_prod_beta Safety_FindById_driver [OF assms(2)] s disabled_iff
  show "g = gate_report (enabled i) i (guard env (GetModule i) fs)"
    using assms(3) by (auto simp: u gate_report_def split: if_splits)
  show "enabled' = enabled(i := enabled i \<and> passes (\<lambda>j. guard env (GetModule j) fs) i)"
    using assms(3) f [of i] by (auto simp: u passes_def fun_eq_iff split: if_splits)
  show "guard env (GetModule j) fs' =
      (if j = i \<and> enabled i then assessed (guard env (GetModule j) fs) else guard env (GetModule j) fs)"
    using assms(3) f by (auto simp: u split: if_splits)
qed

lemma gates_on_guard:
  assumes "guard_env env"
  shows "ApplyGates env is (enabled, fs) = (gs, enabled', fs') \<Longrightarrow> distinct is \<Longrightarrow> set is \<subseteq> set driver_modules \<Longrightarrow>
     gs = map (\<lambda>i. gate_report (enabled i) i (guard env (GetModule i) fs)) is \<and>
     (\<forall>i. enabled' i \<longleftrightarrow> enabled i \<and> (i \<in> set is \<longrightarrow> passes (\<lambda>j. guard env (GetModule j) fs) i)) \<and>
     (\<forall>i. guard env (GetModule i) fs' =
        (if i \<in> set is \<and> enabled i then assessed (guard env (GetModule i) fs) else guard env (GetModule i) fs))"
proof (induction "is" arbitrary: enabled fs gs)
  case (Cons k "is")
  obtain g e1 f1 where one: "ApplySafetyGate env k (enabled, fs) = (g, e1, f1)"
    by (cases "ApplySafetyGate env k (enabled, fs)") auto
  obtain gs' where rest: "ApplyGates env is (e1, f1) = (gs', enabled', fs')" and gs: "gs = g # gs'"
    using Cons.prems(1) one by (auto simp: Let_def split: prod.splits)
  have k: "k \<in> set driver_modules" "k \<notin> set is" using Cons.prems by auto
  note 1 = gate_on_guard [OF assms k(1) one]
  have f1: "guard env (GetModule j) f1 = guard env (GetModule j) fs" if "j \<noteq> k" for j using 1(3) that by simp
  have e1: "e1 j = enabled j" if "j \<noteq> k" for j using 1(2) that by simp
  have ih: "gs' = map (\<lambda>i. gate_report (e1 i) i (guard env (GetModule i) f1)) is"
    "\<And>i. enabled' i \<longleftrightarrow> e1 i \<and> (i \<in> set is \<longrightarrow> passes (\<lambda>j. guard env (GetModule j) f1) i)"
    "\<And>i. guard env (GetModule i) fs' =
        (if i \<in> set is \<and> e1 i then assessed (guard env (GetModule i) f1) else guard env (GetModule i) f1)"
    using Cons.IH [OF rest] Cons.prems by auto
  have "gs' = map (\<lambda>i. gate_report (enabled i) i (guard env (GetModule i) fs)) is"
    unfolding ih(1)
  proof (rule map_cong)
    fix x assume "x \<in> set is"
    then have "x \<noteq> k" using k(2) by blast
    then show "gate_report (e1 x) x (guard env (GetModule x) f1) = gate_report (enabled x) x (guard env (GetModule x) fs)"
      by (simp add: f1 e1)
  qed simp
  moreover have "enabled' i \<longleftrightarrow> enabled i \<and> (i \<in> set (k # is) \<longrightarrow> passes (\<lambda>j. guard env (GetModule j) fs) i)" for i
    using k(2) f1 [of i] e1 [of i] by (cases "i = k") (auto simp: ih(2) 1(2) passes_def)
  moreover have "guard env (GetModule i) fs' =
        (if i \<in> set (k # is) \<and> enabled i then assessed (guard env (GetModule i) fs) else guard env (GetModule i) fs)" for i
    using k(2) f1 [of i] e1 [of i] 1(3) [of i] by (cases "i = k") (auto simp: ih(3))
  ultimately show ?case using 1(1) gs by simp
qed simp

text \<open>The backoff.\<close>

lemma backoff_candidate_report:
  assumes "passes gs i \<Longrightarrow> enabled i = on" "\<not> passes gs i \<Longrightarrow> \<not> enabled i"
  shows "backoff_candidate enabled (gate_report on i (gs i)) \<longleftrightarrow> on \<and> passes gs i \<and> third_strike (gs i)"
proof (cases "on \<and> passes gs i")
  case True
  then have e: "enabled i" using assms by blast
  have v: "\<not> auto_disabled (launch_report False (gs i))" if "g_suspect (gs i) = None"
    using that by (simp add: launch_report_def launch_verdict_def no_assessment_def)
  have r: "had_stale_active (launch_report False (gs i)) = g_active (gs i)"
    "had_stale_suspect (launch_report False (gs i)) = (g_suspect (gs i) \<noteq> None)"
    by (auto simp: launch_report_def no_assessment_def)
  have c: "active_unclean_count (launch_report False (gs i)) = active_unclean (g_count (gs i)) + 1"
    if "g_active (gs i)" "g_suspect (gs i) = None"
    using that by (simp add: launch_report_def launch_counts_def)
  show ?thesis using True e v c
    by (auto simp: backoff_candidate_def gate_report_def Let_def r third_strike_def linorder_not_less)
next
  case False
  then show ?thesis using assms by (auto simp: backoff_candidate_def gate_report_def)
qed

lemma backoff_on_guard:
  assumes "guard_env env" "set is \<subseteq> set driver_modules"
    and "ApplyRepeatedActiveOnlyBackoff env (map (\<lambda>i. gate_report (on i) i (gs i)) is) (enabled, fs) = (enabled', fs')"
    and "\<And>i. i \<in> set is \<Longrightarrow> enabled i \<longleftrightarrow> on i \<and> passes gs i"
    and "strike = filter (\<lambda>i. on i \<and> passes gs i \<and> third_strike (gs i)) is"
  shows "enabled' j \<longleftrightarrow> enabled j \<and> strike \<noteq> [j]"
    and "guard env (GetModule j) fs' =
      (if strike = [j] then fault_spec repeated (guard env (GetModule j) fs) else guard env (GetModule j) fs)"
proof -
  have "filter (backoff_candidate enabled) (map (\<lambda>i. gate_report (on i) i (gs i)) is) =
      map (\<lambda>i. gate_report (on i) i (gs i)) strike"
    unfolding filter_map o_def assms(5)
    by (intro arg_cong [where f = "map _"] filter_cong refl backoff_candidate_report) (use assms(4) in blast)+
  then have "(case map (\<lambda>i. gate_report (on i) i (gs i)) strike of
          [candidate] \<Rightarrow>
            (case gate_spec candidate of
               Some spec \<Rightarrow> (enabled(gate_enabled candidate := False), fst (MarkFault env spec repeated fs))
             | None \<Rightarrow> (enabled, fs))
        | _ \<Rightarrow> (enabled, fs)) = (enabled', fs')"
    unfolding repeated_def using assms(3) by (simp add: ApplyRepeatedActiveOnlyBackoff_def)
  note r = this [symmetric]
  have "plain_reason repeated" by (simp add: repeated_def)
  note mf = guard_MarkFault(1) [OF assms(1) GetModule_mem GetModule_mem this]
  consider i where "strike = [i]" "on i" | "\<And>i. strike \<noteq> [i]" "enabled' = enabled" "fs' = fs"
  proof (cases "\<exists>i. strike = [i]")
    case True
    then obtain i where i: "strike = [i]" by blast
    then have "i \<in> set strike" by simp
    then have "on i" unfolding assms(5) by simp
    with i that(1) show ?thesis by blast
  next
    case False
    then have "enabled' = enabled \<and> fs' = fs" using r by (cases strike rule: remdups_adj.cases) auto
    with False that(2) show ?thesis by blast
  qed
  then have "(enabled' j \<longleftrightarrow> enabled j \<and> strike \<noteq> [j]) \<and> guard env (GetModule j) fs' =
      (if strike = [j] then fault_spec repeated (guard env (GetModule j) fs) else guard env (GetModule j) fs)"
    by cases (use r in \<open>auto simp: gate_report_def mf GetModule_eq\<close>)
  then show "enabled' j \<longleftrightarrow> enabled j \<and> strike \<noteq> [j]"
    and "guard env (GetModule j) fs' =
      (if strike = [j] then fault_spec repeated (guard env (GetModule j) fs) else guard env (GetModule j) fs)" by blast+
qed

text \<open>The whole detection.\<close>

definition flag_present :: "path option \<Rightarrow> store \<Rightarrow> enables" where
  "flag_present dll fs i \<longleftrightarrow> ModuleFlagFileExists (GetDriverResourcesDir dll) (GetModule i) fs"

lemma strikers_last:
  "strikers flag gs = filter (\<lambda>i. on i \<and> passes gs i \<and> third_strike (gs i)) (gated_modules @ [OscRouterModule])"
  if "\<And>i. i \<in> set (gated_modules @ [OscRouterModule]) \<Longrightarrow> on i = consulted flag gs i"
  unfolding strikers_def by (rule filter_cong [OF refl]) (use that in blast)

lemma Detect_on_guard:
  assumes "guard_env env" "GetDriverResourcesDir dll \<noteq> []" "DetectFeatureFlags env dll fs = (flags, fs')"
    and "flag = flag_present dll fs" "gs = (\<lambda>i. guard env (GetModule i) fs)"
  shows "(has_bit flags i \<longleftrightarrow> survives flag gs i \<and> (needs_router i \<longrightarrow> survives flag gs OscRouterModule)) \<and>
         guard env (GetModule i) fs' = detect_guard flag gs i"
proof -
  obtain gates safe1 fs1 orGate safe3 fs2 safe4 where
    1: "ApplyGates env gated_modules (flags_on (GetDriverResourcesDir dll) fs, fs) = (gates, safe1, fs1)" and
    2: "ApplySafetyGate env OscRouterModule (router_on (GetDriverResourcesDir dll) fs safe1, fs1) = (orGate, safe3, fs2)" and
    3: "ApplyRepeatedActiveOnlyBackoff env (gates @ [orGate]) (safe3, fs2) = (safe4, fs')" and
    b: "\<forall>i. has_bit flags i \<longleftrightarrow> i \<in> set driver_modules \<and> safe4 i \<and> (needs_router i \<longrightarrow> safe4 OscRouterModule)"
    by (rule Detect_steps [OF refl assms(2,3)], erule (3) that)
  let ?all = "gated_modules @ [OscRouterModule]"
  have ids: "distinct gated_modules" "set ?all = set driver_modules" "OscRouterModule \<notin> set gated_modules"
    "FaceTracking \<in> set gated_modules" "Captions \<in> set gated_modules" "set gated_modules \<subseteq> set driver_modules"
    by (auto simp: gated_modules_def driver_modules_def)
  define on where "on i = (if i = OscRouterModule then router_on (GetDriverResourcesDir dll) fs safe1 i else flags_on (GetDriverResourcesDir dll) fs i)" for i
  have g1: "gates = map (\<lambda>i. gate_report (flags_on (GetDriverResourcesDir dll) fs i) i (gs i)) gated_modules"
    "\<And>i. safe1 i \<longleftrightarrow> flags_on (GetDriverResourcesDir dll) fs i \<and> (i \<in> set gated_modules \<longrightarrow> passes gs i)"
    "\<And>i. guard env (GetModule i) fs1 = (if i \<in> set gated_modules \<and> flags_on (GetDriverResourcesDir dll) fs i then assessed (gs i) else gs i)"
    using gates_on_guard [OF assms(1) 1 ids(1,6)] unfolding assms(5) by simp_all
  have con: "on i = consulted flag gs i" for i
    using ids(4,5) by (auto simp: on_def consulted_def router_on_def flags_on_def assms(4) flag_present_def g1(2))
  have or1: "guard env (GetModule OscRouterModule) fs1 = gs OscRouterModule" using g1(3) ids(3) by simp
  have "OscRouterModule \<in> set driver_modules" using ids(2) by auto
  note g2 = gate_on_guard [OF assms(1) this 2, unfolded or1]
  have pass1: "passes (\<lambda>j. guard env (GetModule j) fs1) OscRouterModule = passes gs OscRouterModule"
    by (simp add: passes_def or1)
  have e3: "safe3 i \<longleftrightarrow> on i \<and> passes gs i" if "i \<in> set ?all" for i
    using that ids(3) by (auto simp: g2(2) pass1 on_def router_on_def g1(2))
  have s: "strikers flag gs = filter (\<lambda>i. on i \<and> passes gs i \<and> third_strike (gs i)) ?all"
    by (rule strikers_last) (rule con)
  have m: "gates @ [orGate] = map (\<lambda>i. gate_report (on i) i (gs i)) ?all"
    using ids(3) by (auto simp: g1(1) g2(1) on_def)
  have out: "\<not> safe3 i" "\<not> consulted flag gs i" if "i \<notin> set driver_modules" for i
    using that ids(2,3) by (auto simp: g2(2) router_on_def g1(2) flags_on_def consulted_def)
  note b4 = backoff_on_guard [OF assms(1) _ 3 [unfolded m] e3 s, unfolded ids(2), OF subset_refl]
  have "guard env (GetModule i) fs2 = (if on i then assessed (gs i) else gs i)"
    using g2(3) [of i] g1(3) [of i] ids(3) by (auto simp: on_def flags_on_def or1)
  then have "guard env (GetModule i) fs' = detect_guard flag gs i"
    by (simp add: b4(2) detect_guard_def Let_def con)
  moreover have "safe4 j \<and> j \<in> set driver_modules \<longleftrightarrow> survives flag gs j" for j
    using out e3 [of j] ids(2) by (auto simp: b4(1) survives_def con)
  ultimately show ?thesis using b ids(2) by auto
qed

section \<open>Properties\<close>

text \<open>C20. Whatever the state of the files and whatever the operating system refuses, a launch never enables a module that
  is marked disabled, and with the OSC router disabled it enables none of the modules that publish
  through it.\<close>

theorem disabled_never_enabled:
  assumes "HasAutoDisabledMarker env (GetModule i) fs" "i \<in> set driver_modules" "DetectFeatureFlags env dll fs = (flags, fs')"
  shows "\<not> has_bit flags i \<and> (i = OscRouterModule \<longrightarrow> \<not> has_bit flags FaceTracking \<and> \<not> has_bit flags Captions)"
proof (cases "GetDriverResourcesDir dll = []")
  case True
  then show ?thesis using assms(3) by (simp add: Detect_no_dir)
next
  case False
  obtain gates safe1 fs1 orGate safe3 fs2 safe4 where
    1: "ApplyGates env gated_modules (flags_on (GetDriverResourcesDir dll) fs, fs) = (gates, safe1, fs1)" and
    2: "ApplySafetyGate env OscRouterModule (router_on (GetDriverResourcesDir dll) fs safe1, fs1) = (orGate, safe3, fs2)" and
    3: "ApplyRepeatedActiveOnlyBackoff env (gates @ [orGate]) (safe3, fs2) = (safe4, fs')" and
    b: "\<forall>i. has_bit flags i \<longleftrightarrow> i \<in> set driver_modules \<and> safe4 i \<and> (needs_router i \<longrightarrow> safe4 OscRouterModule)"
    by (rule Detect_steps [OF refl False assms(3)], erule (3) that)
  have "\<not> safe3 i"
  proof (cases "i = OscRouterModule")
    case True
    have "HasAutoDisabledMarker env (GetModule i) fs1"
      using gates_store [OF 1] safety.assess_all_keeps [OF assms(1)] by auto
    then show ?thesis using gate_masks_disabled [OF 2] True by (simp add: driver_modules_def)
  next
    case False
    then have "\<not> safe1 i" using gates_mask_disabled [OF 1 _ assms(2,1)] assms(2) False
      by (auto simp: driver_modules_def gated_modules_def)
    then show ?thesis using gate_only_disables(2) [OF 2 False] False by (simp add: router_on_def)
  qed
  then have "\<not> safe4 i" using backoff_only_disables [OF 3] by blast
  then show ?thesis by (auto simp: b needs_router_def)
qed


definition sample_dll :: "path option" where
  "sample_dll = Some (''D:'' @ [backslash] @ ''wk'' @ [backslash] @ ''bin'' @ [backslash] @ ''win64'' @ [backslash] @ ''driver.dll'')"

definition sample_dir :: path where
  "sample_dir = ''D:'' @ [backslash] @ ''wk'' @ [backslash] @ ''resources''"

lemma sample_dir: "GetDriverResourcesDir sample_dll = sample_dir"
  by code_simp

lemma plain_root: "RootPath plain_env False = ''C'' @ [backslash] @ ''WKOpenVR'' @ [backslash] @ ''module_safety''"
  by code_simp

text \<open>A store without any file of the guard.\<close>

definition fresh_guard :: guard_state where
  "fresh_guard = \<lparr>g_active = False, g_suspect = None, g_clean = False, g_count = no_counts, g_disabled = None\<rparr>"

lemma guard_fresh:
  assumes "guard_env env" "\<And>x. fs (JoinPath (RootPath env False) x) = None"
  shows "guard env spec fs = fresh_guard"
  using assms(2)
  by (simp add: guard_def fresh_guard_def HasActiveMarker_def HasSuspectMarker_def HasCleanMarker_def HasAutoDisabledMarker_def
      FileExists_def domIff guard_path_simps [OF assms(1)] ReadCounters_def read_good [OF assms(1)] ReadUnsignedField_Nil str_def
      no_counts_def)

lemma fresh_passes: "gs i = fresh_guard \<Longrightarrow> passes gs i \<and> \<not> third_strike (gs i)"
  by (simp add: passes_def assessed_def third_strike_def fresh_guard_def launch_verdict_def)

text \<open>The store of an installation with the face tracking flag only.\<close>

definition ft_files :: store where
  "ft_files = [sample_dir @ [backslash] @ ''enable_facetracking.flag'' \<mapsto> []]"

lemma ft_files_guard: "guard plain_env spec ft_files = fresh_guard"
proof (rule guard_fresh [OF guard_env_plain])
  show "ft_files (JoinPath (RootPath plain_env False) x) = None" for x
    unfolding plain_root ft_files_def sample_dir_def by (simp add: JoinPath_def)
qed

lemma ft_files_flags:
  "flag_present sample_dll ft_files FaceTracking" "\<not> flag_present sample_dll ft_files Captions"
proof -
  have f: "flag_file_wide (GetModule FaceTracking) = ''enable_facetracking.flag''"
    "flag_file_wide (GetModule Captions) = ''enable_captions.flag''"
    "legacy_flag_file_wide (GetModule Captions) = Some ''enable_translator.flag''" by code_simp+
  show "flag_present sample_dll ft_files FaceTracking" "\<not> flag_present sample_dll ft_files Captions"
    unfolding flag_present_def sample_dir ModuleFlagFileExists_def f FlagFileExists_def FileExists_def ft_files_def by simp_all
qed

theorem disabled_never_enabled_witness:
  "\<not> has_bit (fst (DetectFeatureFlags plain_env sample_dll
      (ft_files(AutoDisabledMarkerPath plain_env (GetModule OscRouterModule) False \<mapsto> [])))) FaceTracking"
proof -
  let ?fs = "ft_files(AutoDisabledMarkerPath plain_env (GetModule OscRouterModule) False \<mapsto> [])"
  have "HasAutoDisabledMarker plain_env (GetModule OscRouterModule) ?fs"
    using path_nonempty(5) [OF guard_env_plain] by (simp add: HasAutoDisabledMarker_def FileExists_def)
  then show ?thesis
    using disabled_never_enabled [of plain_env OscRouterModule ?fs sample_dll]
    by (cases "DetectFeatureFlags plain_env sample_dll ?fs") (simp add: driver_modules_def)
qed

text \<open>C21. What a launch enables, exactly. Where the operating system refuses nothing, the bits and the crash guard state of
  every module after the launch are functions of the flag files and of the states before: a module is
  consulted when its flag file is present (the OSC router also for a client that passed its own gate), passes when its launch
  check leaves it enabled, and loses its bit when it is the only one on its third strike; face tracking and captions
  need the router's bit as well.\<close>

theorem detection_exact:
  assumes "guard_env env" "GetDriverResourcesDir dll \<noteq> []" "DetectFeatureFlags env dll fs = (flags, fs')"
    and "flag = flag_present dll fs" "gs = (\<lambda>i. guard env (GetModule i) fs)"
  shows "(has_bit flags i \<longleftrightarrow> survives flag gs i \<and> (needs_router i \<longrightarrow> survives flag gs OscRouterModule)) \<and>
         guard env (GetModule i) fs' = detect_guard flag gs i"
  by (rule Detect_on_guard [OF assms])

theorem detection_exact_witness:
  "has_bit (fst (DetectFeatureFlags plain_env sample_dll ft_files)) FaceTracking \<and>
   \<not> has_bit (fst (DetectFeatureFlags plain_env sample_dll ft_files)) Captions"
proof -
  let ?gs = "\<lambda>i. guard plain_env (GetModule i) ft_files" and ?flag = "flag_present sample_dll ft_files"
  have p: "passes ?gs i" "\<not> third_strike (?gs i)" for i using fresh_passes [of ?gs i] ft_files_guard by simp_all
  then have k: "strikers ?flag ?gs = []" by (simp add: strikers_def)
  have c: "consulted ?flag ?gs FaceTracking" "consulted ?flag ?gs OscRouterModule" "\<not> consulted ?flag ?gs Captions"
    using ft_files_flags p by (simp_all add: consulted_def gated_modules_def)
  have "sample_dir \<noteq> []" by (simp add: sample_dir_def)
  note d = detection_exact [OF guard_env_plain _ prod.collapse [symmetric] refl refl, of sample_dll ft_files, unfolded sample_dir, OF this]
  have "survives ?flag ?gs FaceTracking" "survives ?flag ?gs OscRouterModule" "\<not> survives ?flag ?gs Captions"
    using c p k by (simp_all add: survives_def)
  then show ?thesis using d [of FaceTracking] d [of Captions] by simp
qed

end
