(* ===== verification/DriverProvider.thy ===== *)
theory DriverProvider
  imports FeatureFlags
begin

text \<open>
  The driver's module host (\<open>core/src/driver/ServerTrackedDeviceProvider.cpp\<close>): activation of the modules at start-up, the
  crash-guard brackets around every call into a module, request dispatch, run-time disabling and shutdown,
  and the freeze switch. A module is known by what its calls do: return, throw, or take the process
  down.
\<close>

section \<open>Calls into modules\<close>

datatype 'a outcome = Returns 'a | Throws | Dies

text \<open>The process goes on, or it is gone and only the files remain.\<close>

datatype 'a run = Alive 'a | Dead store

fun run_bind :: "'a run \<Rightarrow> ('a \<Rightarrow> 'b run) \<Rightarrow> 'b run" where
  "run_bind (Alive x) f = f x"
| "run_bind (Dead fs) f = Dead fs"

definition SafetySpecForFeatureMask :: "u32 \<Rightarrow> ModuleInfo option" where
  "SafetySpecForFeatureMask featureMask =
     (if featureMask = kFeatureCalibration then Safety_FindById Calibration
      else if featureMask = kFeatureSmoothing then Safety_FindById Smoothing
      else if featureMask = kFeatureInputHealth then Safety_FindById InputHealth
      else if featureMask = kFeatureFaceTracking then Safety_FindById FaceTracking
      else if featureMask = kFeatureOscRouter then Safety_FindById OscRouterModule
      else if featureMask = kFeatureCaptions then Safety_FindById Captions
      else if featureMask = kFeaturePhantom then Safety_FindById PhantomModule
      else None)"

definition ModuleDisableReason :: "bytes \<Rightarrow> bytes" where
  "ModuleDisableReason reason = (if reason \<noteq> [] then reason else str ''module_fault'')"

text \<open>The bracket: its constructor marks the module suspect, its destructor clears the mark when the constructor could write it.\<close>

definition scope_enter :: "fs_env \<Rightarrow> ModuleInfo option \<Rightarrow> bytes \<Rightarrow> store \<Rightarrow> store \<times> bool" where
  "scope_enter env spec reason fs =
     (case spec of None \<Rightarrow> (fs, False) | Some s \<Rightarrow> MarkSuspect env s (ModuleDisableReason reason) fs)"

definition scope_exit :: "fs_env \<Rightarrow> ModuleInfo option \<Rightarrow> bool \<Rightarrow> store \<Rightarrow> store" where
  "scope_exit env spec active fs =
     (case spec of None \<Rightarrow> fs | Some s \<Rightarrow> if active then fst (ClearSuspect env s fs) else fs)"

text \<open>A bracketed call: its value, or \<open>None\<close> for a caught exception.\<close>

definition guarded :: "fs_env \<Rightarrow> ModuleInfo option \<Rightarrow> bytes \<Rightarrow> 'a outcome \<Rightarrow> store \<Rightarrow> (store \<times> 'a option) run" where
  "guarded env spec reason out fs =
     (let (fs1, active) = scope_enter env spec reason fs
      in case out of
          Dies \<Rightarrow> Dead fs1
        | Returns x \<Rightarrow> Alive (scope_exit env spec active fs1, Some x)
        | Throws \<Rightarrow> Alive (scope_exit env spec active fs1, None))"

text \<open>\<open>if (safety) f(*safety)\<close>.\<close>

definition on_spec :: "(ModuleInfo \<Rightarrow> store \<Rightarrow> store) \<Rightarrow> ModuleInfo option \<Rightarrow> store \<Rightarrow> store" where
  "on_spec f spec fs = (case spec of None \<Rightarrow> fs | Some s \<Rightarrow> f s fs)"

section \<open>The provider\<close>

record ActiveDriverModule =
  am_module :: ModuleId
  am_safety :: "ModuleInfo option"

text \<open>\<open>servers\<close> holds the modules whose request pipe runs.\<close>

record provider =
  featureFlags :: u32
  activeModules :: "ActiveDriverModule list"
  servers :: "ModuleId list"
  files :: store
  lastSidecarFlagCheckMs :: u64
  freezeAllTracking :: bool
  freezeIncludeHmd :: bool
  freezeHeartbeatQpc :: int

abbreviation clear_mask :: "u32 \<Rightarrow> provider \<Rightarrow> provider" where
  "clear_mask m p \<equiv> p\<lparr>featureFlags := featureFlags p AND NOT m\<rparr>"

definition activateModule ::
  "fs_env \<Rightarrow> (ModuleId \<Rightarrow> bool outcome) \<Rightarrow> (ModuleId \<Rightarrow> unit outcome) \<Rightarrow> ModuleId \<Rightarrow> provider \<Rightarrow> provider run" where
  "activateModule env init shut i p =
     (let moduleMask = FeatureMaskForModule i;
          safety = SafetySpecForFeatureMask moduleMask
      in if featureFlags p AND moduleMask = 0 then Alive p
         else if (case safety of None \<Rightarrow> False | Some s \<Rightarrow> HasAutoDisabledMarker env s (files p))
         then Alive (clear_mask moduleMask p)
         else
           let fs1 = on_spec (\<lambda>s fs. fst (MarkActive env s fs)) safety (files p)
           in run_bind (guarded env safety (str ''init'') (init i) fs1) (\<lambda>(fs2, initialized).
                case initialized of
                  None \<Rightarrow>
                    (let fs3 = on_spec (\<lambda>s fs. fst (MarkFault env s (str ''init_exception'') fs)) safety fs2
                     in if shut i = Dies then Dead fs3 else Alive (clear_mask moduleMask (p\<lparr>files := fs3\<rparr>)))
                | Some False \<Rightarrow> Alive (p\<lparr>files := on_spec (\<lambda>s fs. fst (MarkClean env s fs)) safety fs2\<rparr>)
                | Some True \<Rightarrow>
                    Alive (p\<lparr>files := fs2, activeModules := activeModules p @ [\<lparr>am_module = i, am_safety = safety\<rparr>]\<rparr>)))"

fun activate_all ::
  "fs_env \<Rightarrow> (ModuleId \<Rightarrow> bool outcome) \<Rightarrow> (ModuleId \<Rightarrow> unit outcome) \<Rightarrow> ModuleId list \<Rightarrow> provider \<Rightarrow> provider run" where
  "activate_all env init shut [] p = Alive p"
| "activate_all env init shut (i # is) p = run_bind (activateModule env init shut i p) (activate_all env init shut is)"

text \<open>The shutdown loops of \<open>Init\<close> and \<open>Cleanup\<close>; they walk the modules from the last to the first.\<close>

definition shutdown_module :: "fs_env \<Rightarrow> (ModuleId \<Rightarrow> unit outcome) \<Rightarrow> ActiveDriverModule \<Rightarrow> store \<Rightarrow> store run" where
  "shutdown_module env shut entry fs =
     run_bind (guarded env (am_safety entry) (str ''shutdown'') (shut (am_module entry)) fs) (\<lambda>(fs1, clean).
       Alive (if clean \<noteq> None then on_spec (\<lambda>s fs. fst (MarkClean env s fs)) (am_safety entry) fs1
              else on_spec (\<lambda>s fs. fst (MarkFault env s (str ''shutdown_exception'') fs)) (am_safety entry) fs1))"

fun shutdown_all :: "fs_env \<Rightarrow> (ModuleId \<Rightarrow> unit outcome) \<Rightarrow> ActiveDriverModule list \<Rightarrow> store \<Rightarrow> store run" where
  "shutdown_all env shut [] fs = Alive fs"
| "shutdown_all env shut (e # es) fs = run_bind (shutdown_module env shut e fs) (shutdown_all env shut es)"

text \<open>The order in which modules are activated and in which pipes are opened.\<close>

definition activation_order :: "ModuleId list" where
  "activation_order = [OscRouterModule, Calibration, Smoothing, InputHealth, FaceTracking, Captions, PhantomModule]"

text \<open>
  \<open>Provider_Init\<close>: \<open>init\<close> and \<open>shut\<close> are what the modules' calls do, \<open>hooks\<close> whether the hooks could be installed. The result is the
  provider and whether it reports success.
\<close>

definition Provider_Init ::
  "fs_env \<Rightarrow> path option \<Rightarrow> (ModuleId \<Rightarrow> bool outcome) \<Rightarrow> (ModuleId \<Rightarrow> unit outcome) \<Rightarrow> (ModuleId \<Rightarrow> unit outcome) \<Rightarrow> bool \<Rightarrow>
   provider \<Rightarrow> (provider \<times> bool) run" where
  "Provider_Init env dll init shut shut2 hooks p =
     (let (flags, fs1) = DetectFeatureFlags env dll (files p);
          p1 = p\<lparr>featureFlags := flags, files := fs1, activeModules := []\<rparr>
      in run_bind (activate_all env init shut activation_order p1) (\<lambda>p2.
           let p3 = p2\<lparr>servers := filter (has_bit (featureFlags p2)) driver_modules\<rparr>
           in if hooks then Alive (p3, True)
              else run_bind (shutdown_all env shut2 (rev (activeModules p3)) (files p3)) (\<lambda>fs.
                     Alive (p3\<lparr>servers := [], activeModules := [], files := fs\<rparr>, False))))"

definition DisableDetachedModule ::
  "fs_env \<Rightarrow> ActiveDriverModule \<Rightarrow> bytes \<Rightarrow> bool \<Rightarrow> unit outcome \<Rightarrow> store \<Rightarrow> store run" where
  "DisableDetachedModule env entry reason markClean out fs =
     (let disableReason = ModuleDisableReason reason;
          safety = am_safety entry;
          fs1 = (if \<not> markClean then on_spec (\<lambda>s fs. fst (MarkFault env s disableReason fs)) safety fs else fs)
      in run_bind (guarded env safety (if markClean then disableReason else str ''fault_shutdown'') out fs1) (\<lambda>(fs2, clean).
           Alive (if \<not> markClean then fs2
                  else if clean \<noteq> None then on_spec (\<lambda>s fs. fst (MarkClean env s fs)) safety fs2
                  else on_spec (\<lambda>s fs. fst (MarkFault env s (str ''shutdown_exception'') fs)) safety fs2)))"

definition remove_at :: "nat \<Rightarrow> 'a list \<Rightarrow> 'a list" where
  "remove_at i xs = take i xs @ drop (Suc i) xs"

text \<open>Detach the module at an index: out of the list, its mask off.\<close>

definition detach_at :: "nat \<Rightarrow> u32 \<Rightarrow> provider \<Rightarrow> provider" where
  "detach_at index m p = clear_mask m (p\<lparr>activeModules := remove_at index (activeModules p)\<rparr>)"

definition DisableActiveModuleAt :: "fs_env \<Rightarrow> nat \<Rightarrow> bytes \<Rightarrow> unit outcome \<Rightarrow> provider \<Rightarrow> provider run" where
  "DisableActiveModuleAt env index reason out p =
     (if index \<ge> length (activeModules p) then Alive p
      else
        let entry = activeModules p ! index;
            p1 = detach_at index (FeatureMaskForModule (am_module entry)) p
        in run_bind (DisableDetachedModule env entry reason False out (files p1)) (\<lambda>fs. Alive (p1\<lparr>files := fs\<rparr>)))"

definition StopIpcServerForFeatureMask :: "u32 \<Rightarrow> provider \<Rightarrow> provider" where
  "StopIpcServerForFeatureMask featureMask p =
     (if featureMask = kFeatureFaceTracking then p\<lparr>servers := filter (\<lambda>i. i \<noteq> FaceTracking) (servers p)\<rparr>
      else if featureMask = kFeatureCaptions then p\<lparr>servers := filter (\<lambda>i. i \<noteq> Captions) (servers p)\<rparr>
      else if featureMask = kFeaturePhantom then p\<lparr>servers := filter (\<lambda>i. i \<noteq> PhantomModule) (servers p)\<rparr>
      else p)"

definition DisableActiveModuleByMask ::
  "fs_env \<Rightarrow> u32 \<Rightarrow> bytes \<Rightarrow> bool \<Rightarrow> (ModuleId \<Rightarrow> unit outcome) \<Rightarrow> provider \<Rightarrow> (provider \<times> bool) run" where
  "DisableActiveModuleByMask env featureMask reason markClean shut p =
     (case first_index (\<lambda>e. FeatureMaskForModule (am_module e) AND featureMask \<noteq> 0) (activeModules p) of
        Some i \<Rightarrow>
          (let entry = activeModules p ! i;
               p1 = detach_at i featureMask p
           in run_bind (DisableDetachedModule env entry reason markClean (shut (am_module entry)) (files p1)) (\<lambda>fs.
                let p2 = p1\<lparr>files := fs\<rparr>
                in Alive (if markClean then StopIpcServerForFeatureMask featureMask p2 else p2, True)))
      | None \<Rightarrow>
          (let fs = (if \<not> markClean
                     then on_spec (\<lambda>s fs. fst (MarkFault env s (ModuleDisableReason reason) fs)) (SafetySpecForFeatureMask featureMask) (files p)
                     else files p);
               p1 = clear_mask featureMask (p\<lparr>files := fs\<rparr>)
           in Alive (if markClean then StopIpcServerForFeatureMask featureMask p1 else p1, False)))"

text \<open>One of the three checks of the reconciliation.\<close>

definition reconcile_one ::
  "fs_env \<Rightarrow> path option \<Rightarrow> (ModuleId \<Rightarrow> unit outcome) \<Rightarrow> ModuleId \<Rightarrow> provider \<Rightarrow> provider run" where
  "reconcile_one env dll shut i p =
     (if featureFlags p AND FeatureMaskForModule i \<noteq> 0 \<and> \<not> IsRuntimeFeatureFlagPresent dll (FeatureMaskForModule i) (files p)
      then run_bind (DisableActiveModuleByMask env (FeatureMaskForModule i) (str ''flag_removed'') True shut p) (\<lambda>r. Alive (fst r))
      else Alive p)"

definition ReconcileSidecarFeatureFlags ::
  "fs_env \<Rightarrow> path option \<Rightarrow> (ModuleId \<Rightarrow> unit outcome) \<Rightarrow> u64 \<Rightarrow> provider \<Rightarrow> provider run" where
  "ReconcileSidecarFeatureFlags env dll shut nowMs p =
     (if lastSidecarFlagCheckMs p \<noteq> 0 \<and> nowMs - lastSidecarFlagCheckMs p < 1000 then Alive p
      else run_bind (reconcile_one env dll shut FaceTracking (p\<lparr>lastSidecarFlagCheckMs := nowMs\<rparr>)) (\<lambda>p1.
           run_bind (reconcile_one env dll shut Captions p1) (reconcile_one env dll shut PhantomModule)))"

definition Cleanup :: "fs_env \<Rightarrow> (ModuleId \<Rightarrow> unit outcome) \<Rightarrow> provider \<Rightarrow> provider run" where
  "Cleanup env shut p =
     run_bind (shutdown_all env shut (rev (activeModules p)) (files p)) (\<lambda>fs.
       Alive (p\<lparr>activeModules := [], files := fs, servers := []\<rparr>))"


section \<open>Requests\<close>

text \<open>The requests the host answers itself, and all others, which go to the modules of the pipe.\<close>

datatype ipc_request = RequestHandshake | RequestSetFreezeAllTracking bool bool | RequestModule

datatype ipc_reply = ReplyHandshake | ReplySuccess | ReplyModule | ReplyInvalid

text \<open>
  The loop over the active modules. A module that throws is detached and disabled, and the scan goes on at the
  same index, where its successor now is.
\<close>

function request_loop ::
  "fs_env \<Rightarrow> u32 \<Rightarrow> (ModuleId \<Rightarrow> bool outcome) \<Rightarrow> (ModuleId \<Rightarrow> unit outcome) \<Rightarrow> nat \<Rightarrow> provider \<Rightarrow> (provider \<times> bool) run" where
  "request_loop env featureMask handle shut index p =
     (if index \<ge> length (activeModules p) then Alive (p, False)
      else
        let entry = activeModules p ! index
        in if FeatureMaskForModule (am_module entry) AND featureMask = 0
           then request_loop env featureMask handle shut (Suc index) p
           else case guarded env (am_safety entry) (str ''request'') (handle (am_module entry)) (files p) of
               Dead fs \<Rightarrow> Dead fs
             | Alive (fs1, Some True) \<Rightarrow> Alive (p\<lparr>files := fs1\<rparr>, True)
             | Alive (fs1, Some False) \<Rightarrow> request_loop env featureMask handle shut (Suc index) (p\<lparr>files := fs1\<rparr>)
             | Alive (fs1, None) \<Rightarrow>
                 (case DisableDetachedModule env entry (str ''request_exception'') False (shut (am_module entry)) fs1 of
                    Dead fs \<Rightarrow> Dead fs
                  | Alive fs2 \<Rightarrow>
                      request_loop env featureMask handle shut index
                        ((detach_at index (FeatureMaskForModule (am_module entry)) p)\<lparr>files := fs2\<rparr>)))"
  by pat_completeness auto

lemma length_remove_at [simp]: "i < length xs \<Longrightarrow> length (remove_at i xs) = length xs - 1"
  by (simp add: remove_at_def)

termination request_loop
  by (relation "measure (\<lambda>(env, m, h, s, index, p). length (activeModules p) - index)") (auto simp: detach_at_def)

declare request_loop.simps [simp del]

definition HandleIpcRequest ::
  "fs_env \<Rightarrow> u32 \<Rightarrow> ipc_request \<Rightarrow> (ModuleId \<Rightarrow> bool outcome) \<Rightarrow> (ModuleId \<Rightarrow> unit outcome) \<Rightarrow> int \<Rightarrow> provider \<Rightarrow>
   (provider \<times> ipc_reply option) run" where
  "HandleIpcRequest env featureMask request handle shut now p =
     (case request of
        RequestHandshake \<Rightarrow> Alive (p, Some ReplyHandshake)
      | RequestSetFreezeAllTracking frozen includeHmd \<Rightarrow>
          (let p1 = p\<lparr>freezeAllTracking := frozen, freezeIncludeHmd := includeHmd\<rparr>
           in Alive (if frozen then p1\<lparr>freezeHeartbeatQpc := now\<rparr> else p1, Some ReplySuccess))
      | RequestModule \<Rightarrow>
          run_bind (request_loop env featureMask handle shut 0 p) (\<lambda>(p1, handled).
            Alive (p1, if handled then Some ReplyModule else None)))"

text \<open>\<open>IPCServer::HandleRequest\<close>: a request nobody handled is answered as invalid.\<close>

definition IPCServer_HandleRequest ::
  "fs_env \<Rightarrow> u32 \<Rightarrow> ipc_request \<Rightarrow> (ModuleId \<Rightarrow> bool outcome) \<Rightarrow> (ModuleId \<Rightarrow> unit outcome) \<Rightarrow> int \<Rightarrow> provider \<Rightarrow>
   (provider \<times> ipc_reply) run" where
  "IPCServer_HandleRequest env featureMask request handle shut now p =
     run_bind (HandleIpcRequest env featureMask request handle shut now p) (\<lambda>(p1, reply).
       Alive (p1, case reply of Some r \<Rightarrow> r | None \<Rightarrow> ReplyInvalid))"

function interface_loop ::
  "fs_env \<Rightarrow> (ModuleId \<Rightarrow> unit outcome) \<Rightarrow> (ModuleId \<Rightarrow> unit outcome) \<Rightarrow> nat \<Rightarrow> provider \<Rightarrow> provider run" where
  "interface_loop env hook shut index p =
     (if index \<ge> length (activeModules p) then Alive p
      else
        let entry = activeModules p ! index
        in case guarded env (am_safety entry) (str ''interface'') (hook (am_module entry)) (files p) of
               Dead fs \<Rightarrow> Dead fs
             | Alive (fs1, Some _) \<Rightarrow> interface_loop env hook shut (Suc index) (p\<lparr>files := fs1\<rparr>)
             | Alive (fs1, None) \<Rightarrow>
                 (case DisableDetachedModule env entry (str ''interface_exception'') False (shut (am_module entry)) fs1 of
                    Dead fs \<Rightarrow> Dead fs
                  | Alive fs2 \<Rightarrow>
                      interface_loop env hook shut index
                        ((detach_at index (FeatureMaskForModule (am_module entry)) p)\<lparr>files := fs2\<rparr>)))"
  by pat_completeness auto

termination interface_loop
  by (relation "measure (\<lambda>(env, h, s, index, p). length (activeModules p) - index)") (auto simp: detach_at_def)

declare interface_loop.simps [simp del]

definition OnGetGenericInterface ::
  "fs_env \<Rightarrow> (ModuleId \<Rightarrow> unit outcome) \<Rightarrow> (ModuleId \<Rightarrow> unit outcome) \<Rightarrow> provider \<Rightarrow> provider run" where
  "OnGetGenericInterface env hook shut p = interface_loop env hook shut 0 p"

section \<open>The freeze switch\<close>

text \<open>
  The age of the last heartbeat in counter ticks against three seconds of ticks. The code divides in double precision, which
  decides the same comparison for counter frequencies below \<open>2^50\<close>.
\<close>

definition FreezeActive :: "int \<Rightarrow> int \<Rightarrow> provider \<Rightarrow> bool" where
  "FreezeActive qpcFreq now p \<longleftrightarrow>
     freezeAllTracking p \<and> qpcFreq \<noteq> 0 \<and> now - freezeHeartbeatQpc p \<le> 3 * qpcFreq"

definition ShouldHold :: "bool \<Rightarrow> bool \<Rightarrow> u32 \<Rightarrow> bool \<Rightarrow> bool" where
  "ShouldHold frozen includeHmd openVRID haveCached \<longleftrightarrow>
     (if \<not> frozen \<or> \<not> haveCached then False else if openVRID = 0 \<and> \<not> includeHmd then False else True)"

text \<open>A pose, with its vectors as the bit patterns of their doubles.\<close>

record DriverPose =
  vecPosition :: "u64 list"
  qRotation :: "u64 list"
  vecVelocity :: "u64 list"
  vecAngularVelocity :: "u64 list"
  poseIsValid :: bool
  result_running_ok :: bool
  deviceIsConnected :: bool

definition MakeHeldPose :: "DriverPose \<Rightarrow> DriverPose" where
  "MakeHeldPose cached =
     cached\<lparr>vecVelocity := [0, 0, 0], vecAngularVelocity := [0, 0, 0], poseIsValid := True, result_running_ok := True,
            deviceIsConnected := True\<rparr>"

section \<open>The phantom pose hook\<close>

text \<open>
  The first pose that reaches the phantom pipeline marks the module suspect once per process; a throw disables it. Poses of
  hidden devices (\<open>quash\<close>) do not reach it.
\<close>

definition phantom_pose ::
  "fs_env \<Rightarrow> bool \<Rightarrow> bool \<Rightarrow> unit outcome \<Rightarrow> (ModuleId \<Rightarrow> unit outcome) \<Rightarrow> provider \<Rightarrow> (provider \<times> bool) run" where
  "phantom_pose env quash marked out shut p =
     (if featureFlags p AND kFeaturePhantom = 0 \<or> quash then Alive (p, marked)
      else
        let fs1 = (if \<not> marked
                   then on_spec (\<lambda>s fs. fst (MarkSuspect env s (str ''pose_pipeline'') fs)) (SafetySpecForFeatureMask kFeaturePhantom) (files p)
                   else files p);
            p1 = p\<lparr>files := fs1\<rparr>
        in case out of
            Dies \<Rightarrow> Dead fs1
          | Returns _ \<Rightarrow> Alive (p1, True)
          | Throws \<Rightarrow>
              run_bind (DisableActiveModuleByMask env kFeaturePhantom (str ''pose_exception'') False shut p1) (\<lambda>r. Alive (fst r, True)))"


section \<open>Facts about masks and brackets\<close>

lemma masks_disjoint:
  "i \<in> set driver_modules \<Longrightarrow> j \<in> set driver_modules \<Longrightarrow>
   FeatureMaskForModule i AND FeatureMaskForModule j = (if i = j then FeatureMaskForModule i else 0)"
  by (auto simp: driver_modules_def feature_masks)

lemma mask_nonzero: "i \<in> set driver_modules \<Longrightarrow> FeatureMaskForModule i \<noteq> 0"
  by (auto simp: driver_modules_def feature_masks)

lemma has_bit_driver: "has_bit flags i \<Longrightarrow> i \<in> set driver_modules"
  by (cases i) (auto simp: has_bit_def driver_modules_def)

lemma has_bit_clear:
  assumes "i \<in> set driver_modules"
  shows "has_bit (flags AND NOT (FeatureMaskForModule i)) j \<longleftrightarrow> has_bit flags j \<and> j \<noteq> i"
proof (cases "j \<in> set driver_modules")
  case True
  have "NOT (FeatureMaskForModule i) AND FeatureMaskForModule j = (if j = i then 0 else FeatureMaskForModule j)"
    using assms True by (auto simp: driver_modules_def feature_masks)
  then show ?thesis by (auto simp: has_bit_def and.assoc)
next
  case False
  then show ?thesis using has_bit_driver by blast
qed

lemma SafetySpec_driver:
  "i \<in> set driver_modules \<Longrightarrow> SafetySpecForFeatureMask (FeatureMaskForModule i) = Some (GetModule i)"
  by (auto simp: driver_modules_def SafetySpecForFeatureMask_def feature_masks Safety_FindById_driver)

text \<open>The state of every module's guard.\<close>

definition gmap :: "fs_env \<Rightarrow> store \<Rightarrow> ModuleId \<Rightarrow> guard_state" where
  "gmap env fs i = guard env (GetModule i) fs"

lemma gmap_run:
  assumes "guard_env env" "op_ok op"
  shows "gmap env (guard_run env (GetModule i) op fs) = (gmap env fs)(i := guard_spec op (gmap env fs i))"
  using guard_op_refines [OF assms(1) GetModule_mem GetModule_mem assms(2)]
  by (auto simp: gmap_def GetModule_eq)

lemma gmap_ops:
  assumes "guard_env env"
  shows "gmap env (fst (MarkActive env (GetModule i) fs)) = (gmap env fs)(i := (gmap env fs i)\<lparr>g_clean := False, g_active := True\<rparr>)"
    and "plain_reason r \<Longrightarrow> gmap env (fst (MarkSuspect env (GetModule i) r fs)) = (gmap env fs)(i := (gmap env fs i)\<lparr>g_suspect := Some r\<rparr>)"
    and "gmap env (fst (ClearSuspect env (GetModule i) fs)) = (gmap env fs)(i := (gmap env fs i)\<lparr>g_suspect := None\<rparr>)"
    and "gmap env (fst (MarkClean env (GetModule i) fs)) =
      (gmap env fs)(i := (gmap env fs i)\<lparr>g_active := False, g_suspect := None, g_count := no_counts, g_clean := True\<rparr>)"
    and "plain_reason r \<Longrightarrow> gmap env (fst (MarkFault env (GetModule i) r fs)) = (gmap env fs)(i := fault_spec r (gmap env fs i))"
  using gmap_run [OF assms, of Do_MarkActive] gmap_run [OF assms, of "Do_MarkSuspect r"] gmap_run [OF assms, of Do_ClearSuspect]
    gmap_run [OF assms, of Do_MarkClean] gmap_run [OF assms, of "Do_MarkFault r"]
  by simp_all

lemma MarkSuspect_ok: "guard_env env \<Longrightarrow> snd (MarkSuspect env spec r fs)"
  by (simp add: MarkSuspect_def guard_steps)

lemma guarded_Some:
  assumes "guard_env env" "plain_reason r" "r \<noteq> []"
  obtains fs1 fs2 where
    "guarded env (Some (GetModule i)) r out fs =
       (case out of Dies \<Rightarrow> Dead fs1 | Returns x \<Rightarrow> Alive (fs2, Some x) | Throws \<Rightarrow> Alive (fs2, None))"
    "gmap env fs1 = (gmap env fs)(i := (gmap env fs i)\<lparr>g_suspect := Some r\<rparr>)"
    "gmap env fs2 = (gmap env fs)(i := (gmap env fs i)\<lparr>g_suspect := None\<rparr>)"
proof -
  define fs1 where "fs1 = fst (MarkSuspect env (GetModule i) r fs)"
  define fs2 where "fs2 = fst (ClearSuspect env (GetModule i) fs1)"
  have "MarkSuspect env (GetModule i) r fs = (fs1, True)"
    using MarkSuspect_ok [OF assms(1)] by (simp add: fs1_def prod_eq_iff)
  then have "guarded env (Some (GetModule i)) r out fs =
       (case out of Dies \<Rightarrow> Dead fs1 | Returns x \<Rightarrow> Alive (fs2, Some x) | Throws \<Rightarrow> Alive (fs2, None))"
    using assms(3) by (simp add: guarded_def scope_enter_def scope_exit_def ModuleDisableReason_def fs2_def split: outcome.split)
  moreover have "gmap env fs1 = (gmap env fs)(i := (gmap env fs i)\<lparr>g_suspect := Some r\<rparr>)"
    unfolding fs1_def by (rule gmap_ops(2) [OF assms(1,2)])
  moreover have "gmap env fs2 = (gmap env fs)(i := (gmap env fs i)\<lparr>g_suspect := None\<rparr>)"
    unfolding fs2_def gmap_ops(3) [OF assms(1)] calculation(2) by simp
  ultimately show thesis by (rule that)
qed

lemma run_reasons [simp]:
  "plain_reason (str ''init'')" "plain_reason (str ''request'')" "plain_reason (str ''interface'')" "plain_reason (str ''shutdown'')"
  "plain_reason (str ''fault_shutdown'')" "plain_reason (str ''init_exception'')" "plain_reason (str ''shutdown_exception'')"
  "plain_reason (str ''request_exception'')" "plain_reason (str ''interface_exception'')" "plain_reason (str ''module_fault'')"
  "plain_reason (str ''flag_removed'')" "plain_reason (str ''pose_pipeline'')" "plain_reason (str ''pose_exception'')"
  "plain_reason repeated"
  by (simp_all add: plain_reason_def str_def repeated_def)

lemma str_eq_Nil [simp]: "str s = [] \<longleftrightarrow> s = []"
  by (simp add: str_def)


section \<open>The invariant of a running host\<close>

definition entry_ok :: "provider \<Rightarrow> ActiveDriverModule \<Rightarrow> bool" where
  "entry_ok p e \<longleftrightarrow> am_safety e = Some (GetModule (am_module e)) \<and> has_bit (featureFlags p) (am_module e)"

definition active_ids :: "provider \<Rightarrow> ModuleId list" where
  "active_ids p = map am_module (activeModules p)"

text \<open>
  Every active module is listed once, with its bit and its active marker; no module is inside a bracket; no module
  with a bit is marked disabled.
\<close>

definition provider_inv :: "fs_env \<Rightarrow> provider \<Rightarrow> bool" where
  "provider_inv env p \<longleftrightarrow>
     list_all (entry_ok p) (activeModules p) \<and> distinct (active_ids p) \<and>
     (\<forall>i. g_suspect (gmap env (files p) i) = None) \<and>
     (\<forall>i \<in> set (active_ids p). g_active (gmap env (files p) i)) \<and>
     (\<forall>i. has_bit (featureFlags p) i \<longrightarrow> g_disabled (gmap env (files p) i) = None)"

lemma provider_inv_entry:
  assumes "provider_inv env p" "k < length (activeModules p)" "e = activeModules p ! k"
  shows "am_safety e = Some (GetModule (am_module e))" "has_bit (featureFlags p) (am_module e)"
    "am_module e \<in> set driver_modules" "am_module e \<in> set (active_ids p)"
  using assms has_bit_driver by (auto simp: provider_inv_def list_all_length entry_ok_def active_ids_def)

lemma set_remove_at:
  assumes "distinct (map f xs)" "k < length xs"
  shows "set (map f (remove_at k xs)) = set (map f xs) - {f (xs ! k)}" "distinct (map f (remove_at k xs))"
    "set (remove_at k xs) \<subseteq> set xs"
proof -
  have e: "xs = take k xs @ xs ! k # drop (Suc k) xs" using assms(2) by (rule id_take_nth_drop)
  then have d: "distinct (map f (take k xs) @ f (xs ! k) # map f (drop (Suc k) xs))"
    using assms(1) by (metis list.simps(9) map_append)
  have m: "map f xs = map f (take k xs) @ f (xs ! k) # map f (drop (Suc k) xs)"
    using e by (metis list.simps(9) map_append)
  show "set (map f (remove_at k xs)) = set (map f xs) - {f (xs ! k)}" "distinct (map f (remove_at k xs))"
    unfolding m using d by (auto simp: remove_at_def)
  show "set (remove_at k xs) \<subseteq> set xs" by (auto simp: remove_at_def dest: in_set_takeD in_set_dropD)
qed

lemma detach_inv:
  assumes "provider_inv env p" "k < length (activeModules p)" "m = am_module (activeModules p ! k)"
    and "gmap env fs = (gmap env (files p))(m := g)" "g_suspect g = None"
  shows "provider_inv env ((detach_at k (FeatureMaskForModule m) p)\<lparr>files := fs\<rparr>)"
    and "set (active_ids ((detach_at k (FeatureMaskForModule m) p)\<lparr>files := fs\<rparr>)) = set (active_ids p) - {m}"
proof -
  let ?p = "(detach_at k (FeatureMaskForModule m) p)\<lparr>files := fs\<rparr>"
  have d: "distinct (map am_module (activeModules p))" using assms(1) by (simp add: provider_inv_def active_ids_def)
  note r = set_remove_at [OF d assms(2)]
  show ids: "set (active_ids ?p) = set (active_ids p) - {m}"
    using r(1) assms(3) by (simp add: active_ids_def detach_at_def)
  have m: "m \<in> set driver_modules" using provider_inv_entry(3) [OF assms(1,2) refl] assms(3) by simp
  have "am_module e \<noteq> m" if "e \<in> set (remove_at k (activeModules p))" for e
    using that r(1) assms(3) by (metis Diff_iff image_eqI insertI1 list.set_map)
  then have "list_all (entry_ok ?p) (activeModules ?p)"
    using assms(1) r(3) has_bit_clear [OF m] by (auto simp: list_all_iff provider_inv_def entry_ok_def detach_at_def)
  moreover have "distinct (active_ids ?p)" using r(2) by (simp add: active_ids_def detach_at_def)
  ultimately show "provider_inv env ?p"
    using assms(1,4,5) ids has_bit_clear [OF m] by (auto simp: provider_inv_def detach_at_def)
qed

lemma files_inv:
  assumes "provider_inv env p" "gmap env fs = gmap env (files p)"
  shows "provider_inv env (p\<lparr>files := fs\<rparr>)"
  using assms by (simp add: provider_inv_def active_ids_def entry_ok_def list_all_iff)

lemma fault_spec_suspect: "(fault_spec r g)\<lparr>g_suspect := None\<rparr> = fault_spec r g"
  by (cases g) (simp add: fault_spec_def)

lemma DisableDetached_fault:
  assumes "guard_env env" "am_safety e = Some (GetModule (am_module e))" "plain_reason r" "r \<noteq> []"
  obtains fs1 fs2 where
    "DisableDetachedModule env e r False out fs = (if out = Dies then Dead fs1 else Alive fs2)"
    "gmap env fs1 = (gmap env fs)(am_module e := (fault_spec r (gmap env fs (am_module e)))\<lparr>g_suspect := Some (str ''fault_shutdown'')\<rparr>)"
    "gmap env fs2 = (gmap env fs)(am_module e := fault_spec r (gmap env fs (am_module e)))"
proof -
  define fs0 where "fs0 = fst (MarkFault env (GetModule (am_module e)) r fs)"
  have g0: "gmap env fs0 = (gmap env fs)(am_module e := fault_spec r (gmap env fs (am_module e)))"
    unfolding fs0_def by (rule gmap_ops(5) [OF assms(1,3)])
  obtain fs1 fs2 where g: "guarded env (Some (GetModule (am_module e))) (str ''fault_shutdown'') out fs0 =
       (case out of Dies \<Rightarrow> Dead fs1 | Returns x \<Rightarrow> Alive (fs2, Some x) | Throws \<Rightarrow> Alive (fs2, None))"
    and g1: "gmap env fs1 = (gmap env fs0)(am_module e := (gmap env fs0 (am_module e))\<lparr>g_suspect := Some (str ''fault_shutdown'')\<rparr>)"
    and g2: "gmap env fs2 = (gmap env fs0)(am_module e := (gmap env fs0 (am_module e))\<lparr>g_suspect := None\<rparr>)"
    by (rule guarded_Some [OF assms(1), of "str ''fault_shutdown''" "am_module e" out fs0]) auto
  have "DisableDetachedModule env e r False out fs = (if out = Dies then Dead fs1 else Alive fs2)"
    using g assms(2,4) by (cases out) (simp_all add: DisableDetachedModule_def ModuleDisableReason_def on_spec_def fs0_def)
  then show thesis using g1 g2 by (intro that) (simp_all add: g0 fault_spec_suspect)
qed


text \<open>Files that make the next launch disable the module.\<close>

definition blamed :: "guard_state \<Rightarrow> bool" where
  "blamed g \<longleftrightarrow> g_disabled g \<noteq> None \<or> (case g_suspect g of None \<Rightarrow> False | Some r \<Rightarrow> \<not> IsCleanupOnlySuspectReason r)"

lemma blamed_not_passes: "blamed (gs i) \<Longrightarrow> \<not> passes gs i"
  by (auto simp: blamed_def passes_def assessed_def launch_verdict_def IsCleanupOnlySuspectReason_def Let_def fault_spec_def
      split: option.splits)

lemma unsuspected_passes: "g_suspect (gs i) = None \<Longrightarrow> passes gs i \<longleftrightarrow> g_disabled (gs i) = None"
  by (simp add: passes_def assessed_def launch_verdict_def Let_def)

text \<open>
  What a scan over the modules does, for calls made on behalf of some of them: it ends with the host intact except
  for the modules that threw, or with exactly one module to blame.
\<close>

definition scan_ok ::
  "fs_env \<Rightarrow> (ModuleId \<Rightarrow> bool) \<Rightarrow> (ModuleId \<Rightarrow> 'a outcome) \<Rightarrow> (ModuleId \<Rightarrow> unit outcome) \<Rightarrow> provider \<Rightarrow> provider run \<Rightarrow> bool" where
  "scan_ok env asked call shut p r \<longleftrightarrow>
     (case r of
        Alive p' \<Rightarrow>
          provider_inv env p' \<and> set (active_ids p') \<subseteq> set (active_ids p) \<and>
          (\<forall>i \<in> set (active_ids p) - set (active_ids p').
             asked i \<and> call i = Throws \<and> \<not> has_bit (featureFlags p') i \<and> g_disabled (gmap env (files p') i) \<noteq> None) \<and>
          (\<forall>i. i \<notin> set (active_ids p) \<or> i \<in> set (active_ids p') \<longrightarrow>
             gmap env (files p') i = gmap env (files p) i \<and> has_bit (featureFlags p') i = has_bit (featureFlags p) i)
      | Dead fs \<Rightarrow>
          \<exists>m \<in> set (active_ids p). asked m \<and> (call m = Dies \<or> call m = Throws \<and> shut m = Dies) \<and> blamed (gmap env fs m) \<and>
            (\<forall>j. j \<noteq> m \<longrightarrow> g_suspect (gmap env fs j) = None \<and>
               (call j \<noteq> Throws \<longrightarrow> gmap env fs j = gmap env (files p) j)))"

lemma scan_ok_done: "provider_inv env p \<Longrightarrow> scan_ok env asked call shut p (Alive p)"
  by (simp add: scan_ok_def)

lemma scan_ok_same:
  assumes "scan_ok env asked call shut (p\<lparr>files := fs\<rparr>) r" "gmap env fs = gmap env (files p)"
  shows "scan_ok env asked call shut p r"
  using assms by (cases r) (simp_all add: scan_ok_def active_ids_def)

text \<open>A module that died, and one that threw and was detached, inside a scan.\<close>

lemma scan_ok_died:
  assumes "provider_inv env p" "m \<in> set (active_ids p)" "asked m" "call m = Dies \<or> call m = Throws \<and> shut m = Dies"
    and "gmap env fs = (gmap env (files p))(m := g)" "blamed g"
  shows "scan_ok env asked call shut p (Dead fs)"
  using assms by (auto simp: scan_ok_def provider_inv_def)

lemma scan_ok_threw:
  assumes "provider_inv env p" "k < length (activeModules p)" "m = am_module (activeModules p ! k)" "asked m" "call m = Throws"
    and "gmap env fs = (gmap env (files p))(m := fault_spec r g)"
    and "p' = (detach_at k (FeatureMaskForModule m) p)\<lparr>files := fs\<rparr>" "scan_ok env asked call shut p' res"
  shows "scan_ok env asked call shut p res"
proof -
  have m: "m \<in> set driver_modules" "m \<in> set (active_ids p)"
    using provider_inv_entry(3,4) [OF assms(1,2) refl] assms(3) by simp_all
  have ids: "set (active_ids p') = set (active_ids p) - {m}"
    using detach_inv(2) [OF assms(1-3) assms(6)] assms(7) by (simp add: fault_spec_def)
  have files: "files p' = fs" "featureFlags p' = featureFlags p AND NOT (FeatureMaskForModule m)"
    by (simp_all add: assms(7) detach_at_def)
  show ?thesis
  proof (cases res)
    case (Alive p2)
    then have s: "provider_inv env p2" "set (active_ids p2) \<subseteq> set (active_ids p) - {m}"
      "\<And>i. i \<in> set (active_ids p) - {m} - set (active_ids p2) \<Longrightarrow>
         asked i \<and> call i = Throws \<and> \<not> has_bit (featureFlags p2) i \<and> g_disabled (gmap env (files p2) i) \<noteq> None"
      "\<And>i. i \<notin> set (active_ids p) - {m} \<or> i \<in> set (active_ids p2) \<Longrightarrow>
         gmap env (files p2) i = gmap env fs i \<and> has_bit (featureFlags p2) i = has_bit (featureFlags p') i"
      using assms(8) by (auto simp: scan_ok_def ids files)
    have mm: "\<not> has_bit (featureFlags p2) m" "g_disabled (gmap env (files p2) m) \<noteq> None"
      using s(4) [of m] assms(6) has_bit_clear [OF m(1)] by (simp_all add: files fault_spec_def)
    have "asked i \<and> call i = Throws \<and> \<not> has_bit (featureFlags p2) i \<and> g_disabled (gmap env (files p2) i) \<noteq> None"
      if "i \<in> set (active_ids p) - set (active_ids p2)" for i
      using that s(3) [of i] mm assms(4,5) by (cases "i = m") auto
    moreover have "gmap env (files p2) i = gmap env (files p) i \<and> has_bit (featureFlags p2) i = has_bit (featureFlags p) i"
      if "i \<notin> set (active_ids p) \<or> i \<in> set (active_ids p2)" for i
      using that s(2) s(4) [of i] assms(6) m(2) has_bit_clear [OF m(1)] files by auto
    ultimately show ?thesis using Alive s(1,2) by (auto simp: scan_ok_def)
  next
    case (Dead fs')
    then show ?thesis using assms(5,6,8) ids files by (auto simp: scan_ok_def)
  qed
qed


text \<open>One bracketed call of a scan.\<close>

lemma scan_call:
  assumes "guard_env env" "provider_inv env p" "index < length (activeModules p)" "e = activeModules p ! index"
    and "asked (am_module e)" "plain_reason r" "r \<noteq> []" "\<not> IsCleanupOnlySuspectReason r" "plain_reason x" "x \<noteq> []"
  obtains
    (Returned) v fs where "call (am_module e) = Returns v"
      "guarded env (am_safety e) r (call (am_module e)) (files p) = Alive (fs, Some v)" "gmap env fs = gmap env (files p)"
  | (Died) fs where "guarded env (am_safety e) r (call (am_module e)) (files p) = Dead fs"
      "scan_ok env asked call shut p (Dead fs)"
  | (Threw_died) fs fs' where "guarded env (am_safety e) r (call (am_module e)) (files p) = Alive (fs, None)"
      "DisableDetachedModule env e x False (shut (am_module e)) fs = Dead fs'" "scan_ok env asked call shut p (Dead fs')"
  | (Threw) fs fs' where "guarded env (am_safety e) r (call (am_module e)) (files p) = Alive (fs, None)"
      "DisableDetachedModule env e x False (shut (am_module e)) fs = Alive fs'"
      "provider_inv env ((detach_at index (FeatureMaskForModule (am_module e)) p)\<lparr>files := fs'\<rparr>)"
      "\<And>res. scan_ok env asked call shut ((detach_at index (FeatureMaskForModule (am_module e)) p)\<lparr>files := fs'\<rparr>) res \<Longrightarrow>
         scan_ok env asked call shut p res"
proof -
  let ?m = "am_module e"
  note e = provider_inv_entry [OF assms(2-4)]
  obtain fs1 fs2 where g: "guarded env (am_safety e) r (call ?m) (files p) =
       (case call ?m of Dies \<Rightarrow> Dead fs1 | Returns v \<Rightarrow> Alive (fs2, Some v) | Throws \<Rightarrow> Alive (fs2, None))"
    and g1: "gmap env fs1 = (gmap env (files p))(?m := (gmap env (files p) ?m)\<lparr>g_suspect := Some r\<rparr>)"
    and g2: "gmap env fs2 = (gmap env (files p))(?m := (gmap env (files p) ?m)\<lparr>g_suspect := None\<rparr>)"
    unfolding e(1) by (rule guarded_Some [OF assms(1,6,7), of ?m "call ?m" "files p"]) auto
  have "g_suspect (gmap env (files p) ?m) = None" using assms(2) by (simp add: provider_inv_def)
  then have g2': "gmap env fs2 = gmap env (files p)"
    using g2 by (cases "gmap env (files p) ?m") (simp add: fun_upd_idem_iff)
  obtain fs3 fs4 where d: "DisableDetachedModule env e x False (shut ?m) fs2 = (if shut ?m = Dies then Dead fs3 else Alive fs4)"
    and d1: "gmap env fs3 = (gmap env fs2)(?m := (fault_spec x (gmap env fs2 ?m))\<lparr>g_suspect := Some (str ''fault_shutdown'')\<rparr>)"
    and d2: "gmap env fs4 = (gmap env fs2)(?m := fault_spec x (gmap env fs2 ?m))"
    by (rule DisableDetached_fault [OF assms(1) e(1) assms(9,10), of "shut ?m" fs2]) auto
  show thesis
  proof (cases "call ?m")
    case (Returns v)
    then show ?thesis using Returned [OF Returns _ g2'] g by simp
  next
    case Dies
    have "blamed ((gmap env (files p) ?m)\<lparr>g_suspect := Some r\<rparr>)" using assms(8) by (simp add: blamed_def)
    then have "scan_ok env asked call shut p (Dead fs1)"
      using scan_ok_died [where call = call and asked = asked and shut = shut, OF assms(2) e(4) assms(5) _ g1] Dies by simp
    then show ?thesis using Died [of fs1] g Dies by simp
  next
    case Throws
    show ?thesis
    proof (cases "shut ?m = Dies")
      case True
      have "blamed ((fault_spec x (gmap env (files p) ?m))\<lparr>g_suspect := Some (str ''fault_shutdown'')\<rparr>)"
        by (simp add: blamed_def fault_spec_def)
      then have "scan_ok env asked call shut p (Dead fs3)"
        using scan_ok_died [where call = call and asked = asked and shut = shut, OF assms(2) e(4) assms(5) _ d1 [unfolded g2']] Throws True
        by simp
      then show ?thesis using Threw_died [of fs2 fs3] g d Throws True by simp
    next
      case False
      have "provider_inv env ((detach_at index (FeatureMaskForModule ?m) p)\<lparr>files := fs4\<rparr>)"
        using detach_inv(1) [OF assms(2,3) arg_cong [OF assms(4), of am_module] d2 [unfolded g2']] by (simp add: fault_spec_def)
      moreover note scan_ok_threw [where call = call and asked = asked and shut = shut,
        OF assms(2,3) arg_cong [OF assms(4), of am_module] assms(5) Throws d2 [unfolded g2'] refl]
      ultimately show ?thesis using Threw [of fs2 fs4] g d Throws False by simp
    qed
  qed
qed

lemma request_loop_scan:
  assumes "guard_env env"
  shows "provider_inv env p \<Longrightarrow>
     scan_ok env (\<lambda>i. FeatureMaskForModule i AND featureMask \<noteq> 0) handle shut p
       (run_bind (request_loop env featureMask handle shut index p) (\<lambda>r. Alive (fst r)))"
proof (induction "length (activeModules p) - index" arbitrary: index p rule: less_induct)
  case less
  let ?asked = "\<lambda>i. FeatureMaskForModule i AND featureMask \<noteq> 0"
  let ?loop = "request_loop env featureMask handle shut"
  note step = request_loop.simps [of env featureMask handle shut index p]
  show ?case
  proof (cases "index < length (activeModules p)")
    case False
    then show ?thesis using less.prems by (simp add: step scan_ok_done)
  next
    case True
    define e where "e = activeModules p ! index"
    show ?thesis
    proof (cases "?asked (am_module e)")
      case False
      then have "?loop index p = ?loop (Suc index) p" using True by (subst step) (simp add: e_def [symmetric])
      then show ?thesis using less.hyps [of p "Suc index"] less.prems True by simp
    next
      case asked: True
      note c = True asked e_def [symmetric]
      show ?thesis
      proof (rule scan_call [where asked = ?asked and r = "str ''request''" and x = "str ''request_exception''" and call = handle and shut = shut,
            OF assms less.prems True e_def asked])
        fix v fs assume v: "guarded env (am_safety e) (str ''request'') (handle (am_module e)) (files p) = Alive (fs, Some v)"
          and fs: "gmap env fs = gmap env (files p)"
        note inv = files_inv [OF less.prems fs]
        have "?loop index p = (if v then Alive (p\<lparr>files := fs\<rparr>, True) else ?loop (Suc index) (p\<lparr>files := fs\<rparr>))"
          using c v by (subst step) simp
        moreover have "scan_ok env ?asked handle shut p (Alive (p\<lparr>files := fs\<rparr>))"
          by (rule scan_ok_same [OF scan_ok_done [OF inv] fs])
        ultimately show ?thesis
          using scan_ok_same [OF less.hyps [OF _ inv, of "Suc index"] fs] True by simp
      next
        fix fs assume "guarded env (am_safety e) (str ''request'') (handle (am_module e)) (files p) = Dead fs"
          and fs: "scan_ok env ?asked handle shut p (Dead fs)"
        then have "?loop index p = Dead fs" using c by (subst step) simp
        then show ?thesis using fs by simp
      next
        fix fs fs' assume "guarded env (am_safety e) (str ''request'') (handle (am_module e)) (files p) = Alive (fs, None)"
          and "DisableDetachedModule env e (str ''request_exception'') False (shut (am_module e)) fs = Dead fs'"
          and fs: "scan_ok env ?asked handle shut p (Dead fs')"
        then have "?loop index p = Dead fs'" using c by (subst step) simp
        then show ?thesis using fs by simp
      next
        fix fs fs'
        let ?p = "(detach_at index (FeatureMaskForModule (am_module e)) p)\<lparr>files := fs'\<rparr>"
        assume t: "guarded env (am_safety e) (str ''request'') (handle (am_module e)) (files p) = Alive (fs, None)"
          "DisableDetachedModule env e (str ''request_exception'') False (shut (am_module e)) fs = Alive fs'"
          and p: "provider_inv env ?p" "\<And>res. scan_ok env ?asked handle shut ?p res \<Longrightarrow> scan_ok env ?asked handle shut p res"
        have "?loop index p = ?loop index ?p" using c t by (subst step) simp
        moreover have "length (activeModules ?p) - index < length (activeModules p) - index" using True by (simp add: detach_at_def)
        ultimately show ?thesis using p(2) [OF less.hyps [OF _ p(1)]] by simp
      qed (simp_all add: IsCleanupOnlySuspectReason_def str_def plain_reason_def)
    qed
  qed
qed


lemma interface_loop_scan:
  assumes "guard_env env"
  shows "provider_inv env p \<Longrightarrow> scan_ok env (\<lambda>i. True) hook shut p (interface_loop env hook shut index p)"
proof (induction "length (activeModules p) - index" arbitrary: index p rule: less_induct)
  case less
  let ?loop = "interface_loop env hook shut"
  note step = interface_loop.simps [of env hook shut index p]
  show ?case
  proof (cases "index < length (activeModules p)")
    case False
    then show ?thesis using less.prems by (simp add: step scan_ok_done)
  next
    case True
    define e where "e = activeModules p ! index"
    note c = True e_def [symmetric]
    show ?thesis
    proof (rule scan_call [where asked = "\<lambda>i. True" and r = "str ''interface''" and x = "str ''interface_exception''" and call = hook and shut = shut,
          OF assms less.prems True e_def TrueI])
      fix v fs assume v: "guarded env (am_safety e) (str ''interface'') (hook (am_module e)) (files p) = Alive (fs, Some v)"
        and fs: "gmap env fs = gmap env (files p)"
      have "?loop index p = ?loop (Suc index) (p\<lparr>files := fs\<rparr>)" using c v by (subst step) simp
      then show ?thesis using scan_ok_same [OF less.hyps [OF _ files_inv [OF less.prems fs], of "Suc index"] fs] True by simp
    next
      fix fs assume "guarded env (am_safety e) (str ''interface'') (hook (am_module e)) (files p) = Dead fs"
        and fs: "scan_ok env (\<lambda>i. True) hook shut p (Dead fs)"
      then have "?loop index p = Dead fs" using c by (subst step) simp
      then show ?thesis using fs by simp
    next
      fix fs fs' assume "guarded env (am_safety e) (str ''interface'') (hook (am_module e)) (files p) = Alive (fs, None)"
        and "DisableDetachedModule env e (str ''interface_exception'') False (shut (am_module e)) fs = Dead fs'"
        and fs: "scan_ok env (\<lambda>i. True) hook shut p (Dead fs')"
      then have "?loop index p = Dead fs'" using c by (subst step) simp
      then show ?thesis using fs by simp
    next
      fix fs fs'
      let ?p = "(detach_at index (FeatureMaskForModule (am_module e)) p)\<lparr>files := fs'\<rparr>"
      assume t: "guarded env (am_safety e) (str ''interface'') (hook (am_module e)) (files p) = Alive (fs, None)"
        "DisableDetachedModule env e (str ''interface_exception'') False (shut (am_module e)) fs = Alive fs'"
        and p: "provider_inv env ?p" "\<And>res. scan_ok env (\<lambda>i. True) hook shut ?p res \<Longrightarrow> scan_ok env (\<lambda>i. True) hook shut p res"
      have "?loop index p = ?loop index ?p" using c t by (subst step) simp
      moreover have "length (activeModules ?p) - index < length (activeModules p) - index" using True by (simp add: detach_at_def)
      ultimately show ?thesis using p(2) [OF less.hyps [OF _ p(1)]] by simp
    qed (simp_all add: IsCleanupOnlySuspectReason_def str_def plain_reason_def)
  qed
qed

section \<open>Start-up\<close>

text \<open>What activating a module does to its guard.\<close>

fun activated :: "bool outcome \<Rightarrow> guard_state \<Rightarrow> guard_state" where
  "activated (Returns True) g = g\<lparr>g_clean := False, g_active := True, g_suspect := None\<rparr>"
| "activated (Returns False) g = g\<lparr>g_active := False, g_suspect := None, g_count := no_counts, g_clean := True\<rparr>"
| "activated Throws g = fault_spec (str ''init_exception'') g"
| "activated Dies g = g\<lparr>g_clean := False, g_active := True, g_suspect := Some (str ''init'')\<rparr>"

lemma activateModule_on_guard:
  assumes "guard_env env" "i \<in> set driver_modules" "has_bit (featureFlags p) i" "g_disabled (gmap env (files p) i) = None"
  obtains fs where "gmap env fs = (gmap env (files p))(i := activated (init i) (gmap env (files p) i))"
    "activateModule env init shut i p =
       (if init i = Dies \<or> init i = Throws \<and> shut i = Dies then Dead fs
        else if init i = Throws then Alive (clear_mask (FeatureMaskForModule i) (p\<lparr>files := fs\<rparr>))
        else if init i = Returns True
        then Alive (p\<lparr>files := fs, activeModules := activeModules p @ [\<lparr>am_module = i, am_safety = Some (GetModule i)\<rparr>]\<rparr>)
        else Alive (p\<lparr>files := fs\<rparr>))"
proof -
  let ?s = "GetModule i"
  have d: "\<not> HasAutoDisabledMarker env ?s (files p)" using assms(4) by (simp add: disabled_iff gmap_def)
  define fs1 where "fs1 = fst (MarkActive env ?s (files p))"
  obtain fs2 fs3 where g: "guarded env (Some ?s) (str ''init'') (init i) fs1 =
       (case init i of Dies \<Rightarrow> Dead fs2 | Returns x \<Rightarrow> Alive (fs3, Some x) | Throws \<Rightarrow> Alive (fs3, None))"
    and g2: "gmap env fs2 = (gmap env fs1)(i := (gmap env fs1 i)\<lparr>g_suspect := Some (str ''init'')\<rparr>)"
    and g3: "gmap env fs3 = (gmap env fs1)(i := (gmap env fs1 i)\<lparr>g_suspect := None\<rparr>)"
    by (rule guarded_Some [OF assms(1), of "str ''init''" i "init i" fs1]) auto
  have g1: "gmap env fs1 = (gmap env (files p))(i := (gmap env (files p) i)\<lparr>g_clean := False, g_active := True\<rparr>)"
    unfolding fs1_def by (rule gmap_ops(1) [OF assms(1)])
  define fs4 where "fs4 = fst (MarkFault env ?s (str ''init_exception'') fs3)"
  define fs5 where "fs5 = fst (MarkClean env ?s fs3)"
  have g4: "gmap env fs4 = (gmap env fs3)(i := fault_spec (str ''init_exception'') (gmap env fs3 i))"
    unfolding fs4_def by (rule gmap_ops(5) [OF assms(1)]) simp
  have g5: "gmap env fs5 = (gmap env fs3)(i := (gmap env fs3 i)\<lparr>g_active := False, g_suspect := None, g_count := no_counts, g_clean := True\<rparr>)"
    unfolding fs5_def by (rule gmap_ops(4) [OF assms(1)])
  have bit: "featureFlags p AND FeatureMaskForModule i \<noteq> 0" using assms(3) by (simp add: has_bit_def)
  note def = activateModule_def [of env init shut i p, unfolded Let_def SafetySpec_driver [OF assms(2)] on_spec_def option.case
      fs1_def [symmetric] g fs4_def [symmetric] fs5_def [symmetric]]
  show thesis
  proof (cases "init i")
    case (Returns b)
    show ?thesis
    proof (cases b)
      case True
      then show ?thesis using that [of fs3] Returns bit d by (simp add: def g3 g1)
    next
      case False
      then show ?thesis using that [of fs5] Returns bit d by (simp add: def fs5_def [symmetric] g5 g3 g1)
    qed
  next
    case Throws
    then show ?thesis using that [of fs4] bit d by (simp add: def fs4_def [symmetric] g4 g3 g1 fault_spec_def)
  next
    case Dies
    then show ?thesis using that [of fs2] bit d by (simp add: def g2 g1)
  qed
qed


lemma activated_suspect: "out \<noteq> Dies \<Longrightarrow> g_suspect (activated out g) = None"
  by (cases "(out, g)" rule: activated.cases) (simp_all add: fault_spec_def)

text \<open>One activation keeps the invariant, and a module that takes the process down is the one to blame.\<close>

lemma activateModule_inv:
  assumes "guard_env env" "provider_inv env p" "i \<in> set driver_modules" "i \<notin> set (active_ids p)"
    and "activateModule env init shut i p = Alive p'"
  shows "provider_inv env p'"
    and "active_ids p' = active_ids p @ (if has_bit (featureFlags p) i \<and> init i = Returns True then [i] else [])"
    and "has_bit (featureFlags p') j \<longleftrightarrow> has_bit (featureFlags p) j \<and> \<not> (j = i \<and> init i = Throws)"
    and "gmap env (files p') = (gmap env (files p))(i := (if has_bit (featureFlags p) i then activated (init i) else id) (gmap env (files p) i))"
proof -
  have "provider_inv env p' \<and> active_ids p' = active_ids p @ (if has_bit (featureFlags p) i \<and> init i = Returns True then [i] else []) \<and>
      (\<forall>j. has_bit (featureFlags p') j \<longleftrightarrow> has_bit (featureFlags p) j \<and> \<not> (j = i \<and> init i = Throws)) \<and>
      gmap env (files p') = (gmap env (files p))(i := (if has_bit (featureFlags p) i then activated (init i) else id) (gmap env (files p) i))"
  proof (cases "has_bit (featureFlags p) i")
    case False
    then have "p' = p" using assms(5) by (simp add: activateModule_def has_bit_def)
    then show ?thesis using False assms(2) by auto
  next
    case True
    have dis: "g_disabled (gmap env (files p) i) = None" using assms(2) True by (simp add: provider_inv_def)
    obtain fs where g: "gmap env fs = (gmap env (files p))(i := activated (init i) (gmap env (files p) i))"
      and a: "activateModule env init shut i p =
       (if init i = Dies \<or> init i = Throws \<and> shut i = Dies then Dead fs
        else if init i = Throws then Alive (clear_mask (FeatureMaskForModule i) (p\<lparr>files := fs\<rparr>))
        else if init i = Returns True
        then Alive (p\<lparr>files := fs, activeModules := activeModules p @ [\<lparr>am_module = i, am_safety = Some (GetModule i)\<rparr>]\<rparr>)
        else Alive (p\<lparr>files := fs\<rparr>))"
      by (rule activateModule_on_guard [OF assms(1,3) True dis, of init shut])
    have s: "init i \<noteq> Dies" "g_suspect (gmap env fs j) = None" for j
      using a assms(2,5) activated_suspect by (auto simp: g provider_inv_def split: if_splits)
    note u = provider_inv_def active_ids_def entry_ok_def list_all_iff has_bit_clear [OF assms(3)]
    consider "init i = Throws" "p' = clear_mask (FeatureMaskForModule i) (p\<lparr>files := fs\<rparr>)"
      | "init i = Returns True" "p' = p\<lparr>files := fs, activeModules := activeModules p @ [\<lparr>am_module = i, am_safety = Some (GetModule i)\<rparr>]\<rparr>"
      | "init i = Returns False" "p' = p\<lparr>files := fs\<rparr>"
      using a assms(5) s(1) by (cases "init i") (auto split: if_splits)
    then show ?thesis
      by cases (use assms(2,4) True dis s g in \<open>auto simp: u\<close>)
  qed
  then show "provider_inv env p'"
    and "active_ids p' = active_ids p @ (if has_bit (featureFlags p) i \<and> init i = Returns True then [i] else [])"
    and "has_bit (featureFlags p') j \<longleftrightarrow> has_bit (featureFlags p) j \<and> \<not> (j = i \<and> init i = Throws)"
    and "gmap env (files p') = (gmap env (files p))(i := (if has_bit (featureFlags p) i then activated (init i) else id) (gmap env (files p) i))"
    by blast+
qed

lemma activateModule_dead:
  assumes "guard_env env" "provider_inv env p" "i \<in> set driver_modules" "activateModule env init shut i p = Dead fs"
  shows "has_bit (featureFlags p) i \<and> (init i = Dies \<or> init i = Throws \<and> shut i = Dies) \<and> blamed (gmap env fs i) \<and>
         (\<forall>j. j \<noteq> i \<longrightarrow> gmap env fs j = gmap env (files p) j)"
proof -
  have b: "has_bit (featureFlags p) i" using assms(4) by (auto simp: activateModule_def has_bit_def split: if_splits)
  then have dis: "g_disabled (gmap env (files p) i) = None" using assms(2) by (simp add: provider_inv_def)
  obtain fs' where g: "gmap env fs' = (gmap env (files p))(i := activated (init i) (gmap env (files p) i))"
    and a: "activateModule env init shut i p =
       (if init i = Dies \<or> init i = Throws \<and> shut i = Dies then Dead fs'
        else if init i = Throws then Alive (clear_mask (FeatureMaskForModule i) (p\<lparr>files := fs'\<rparr>))
        else if init i = Returns True
        then Alive (p\<lparr>files := fs', activeModules := activeModules p @ [\<lparr>am_module = i, am_safety = Some (GetModule i)\<rparr>]\<rparr>)
        else Alive (p\<lparr>files := fs'\<rparr>))"
    by (rule activateModule_on_guard [OF assms(1,3) b dis, of init shut])
  have "init i = Dies \<or> init i = Throws \<and> shut i = Dies" "fs' = fs"
    using a assms(4) by (auto split: if_splits)
  then show ?thesis using b g
    by (auto simp: blamed_def IsCleanupOnlySuspectReason_def str_def fault_spec_def)
qed


lemma activate_all_inv:
  assumes "guard_env env"
  shows "provider_inv env p \<Longrightarrow> distinct is \<Longrightarrow> set is \<subseteq> set driver_modules \<Longrightarrow> set is \<inter> set (active_ids p) = {} \<Longrightarrow>
     (case activate_all env init shut is p of
        Alive p' \<Rightarrow>
          provider_inv env p' \<and>
          active_ids p' = active_ids p @ filter (\<lambda>i. has_bit (featureFlags p) i \<and> init i = Returns True) is \<and>
          (\<forall>j. has_bit (featureFlags p') j \<longleftrightarrow> has_bit (featureFlags p) j \<and> \<not> (j \<in> set is \<and> init j = Throws)) \<and>
          (\<forall>j. gmap env (files p') j =
             (if j \<in> set is \<and> has_bit (featureFlags p) j then activated (init j) (gmap env (files p) j) else gmap env (files p) j))
      | Dead fs \<Rightarrow>
          \<exists>m \<in> set is. has_bit (featureFlags p) m \<and> (init m = Dies \<or> init m = Throws \<and> shut m = Dies) \<and> blamed (gmap env fs m) \<and>
            (\<forall>j. j \<noteq> m \<longrightarrow> g_suspect (gmap env fs j) = None \<and>
               (init j \<noteq> Throws \<longrightarrow> g_disabled (gmap env fs j) = g_disabled (gmap env (files p) j))))"
proof (induction "is" arbitrary: p)
  case (Cons i "is")
  have i: "i \<in> set driver_modules" "i \<notin> set (active_ids p)" "i \<notin> set is" using Cons.prems by auto
  show ?case
  proof (cases "activateModule env init shut i p")
    case (Dead fs)
    from activateModule_dead [OF assms Cons.prems(1) i(1) Dead] Cons.prems(1)
    show ?thesis by (auto simp: Dead provider_inv_def)
  next
    case (Alive p1)
    note a = activateModule_inv [OF assms Cons.prems(1) i(1,2) Alive]
    have b: "has_bit (featureFlags p1) j = has_bit (featureFlags p) j" if "j \<in> set is" for j
      using a(3) [of j] that i(3) by auto
    have g: "gmap env (files p1) j = gmap env (files p) j" if "j \<noteq> i" for j using a(4) that by simp
    have dis: "g_disabled (activated (init j) h) = g_disabled h" if "init j \<noteq> Throws" for j h
      using that by (cases "(init j, h)" rule: activated.cases) auto
    have "set is \<inter> set (active_ids p1) = {}" using a(2) i(3) Cons.prems(4) by auto
    note ih = Cons.IH [OF a(1) _ _ this]
    show ?thesis
    proof (cases "activate_all env init shut is p1")
      case (Alive p2)
      have "filter (\<lambda>i. has_bit (featureFlags p1) i \<and> init i = Returns True) is =
          filter (\<lambda>i. has_bit (featureFlags p) i \<and> init i = Returns True) is"
        by (rule filter_cong [OF refl]) (simp add: b)
      then show ?thesis using ih Cons.prems(2,3) Alive \<open>activateModule env init shut i p = Alive p1\<close> a b g i(3)
        by auto
    next
      case (Dead fs)
      then obtain m where m: "m \<in> set is" "has_bit (featureFlags p1) m" "init m = Dies \<or> init m = Throws \<and> shut m = Dies"
        "blamed (gmap env fs m)" "\<And>j. j \<noteq> m \<Longrightarrow> g_suspect (gmap env fs j) = None \<and>
               (init j \<noteq> Throws \<longrightarrow> g_disabled (gmap env fs j) = g_disabled (gmap env (files p1) j))"
        using ih Cons.prems(2,3) by auto
      have "g_disabled (gmap env (files p1) j) = g_disabled (gmap env (files p) j)" if "init j \<noteq> Throws" for j
        using a(4) dis that by (cases "j = i") auto
      then have "has_bit (featureFlags p) m \<and> (init m = Dies \<or> init m = Throws \<and> shut m = Dies) \<and> blamed (gmap env fs m) \<and>
            (\<forall>j. j \<noteq> m \<longrightarrow> g_suspect (gmap env fs j) = None \<and>
               (init j \<noteq> Throws \<longrightarrow> g_disabled (gmap env fs j) = g_disabled (gmap env (files p) j)))"
        using m(2-5) b [OF m(1)] by simp
      then show ?thesis using m(1) Dead \<open>activateModule env init shut i p = Alive p1\<close> by auto
    qed
  qed
qed simp

text \<open>Every module whose guard is not consulted at start-up must not be left inside a bracket.\<close>

definition quiet_start :: "fs_env \<Rightarrow> path option \<Rightarrow> store \<Rightarrow> bool" where
  "quiet_start env dll fs \<longleftrightarrow>
     guard_env env \<and> GetDriverResourcesDir dll \<noteq> [] \<and>
     (\<forall>i. \<not> consulted (flag_present dll fs) (gmap env fs) i \<longrightarrow> g_suspect (gmap env fs i) = None)"

lemma detect_inv:
  assumes "quiet_start env dll (files p)" "DetectFeatureFlags env dll (files p) = (flags, fs1)"
  shows "provider_inv env (p\<lparr>featureFlags := flags, files := fs1, activeModules := []\<rparr>)"
proof -
  let ?flag = "flag_present dll (files p)" and ?gs = "gmap env (files p)"
  have gs: "?gs = (\<lambda>i. guard env (GetModule i) (files p))" by (simp add: gmap_def fun_eq_iff)
  have d: "has_bit flags i \<longleftrightarrow> survives ?flag ?gs i \<and> (needs_router i \<longrightarrow> survives ?flag ?gs OscRouterModule)"
    "gmap env fs1 i = detect_guard ?flag ?gs i" for i
    using Detect_on_guard [OF _ _ assms(2) refl gs] assms(1) by (auto simp: quiet_start_def gmap_def)
  have "g_suspect (gmap env fs1 i) = None" for i
    using assms(1) by (auto simp: d(2) detect_guard_def quiet_start_def assessed_def fault_spec_def Let_def split: option.split)
  moreover have "g_disabled (gmap env fs1 i) = None" if "has_bit flags i" for i
    using that by (auto simp: d detect_guard_def survives_def passes_def)
  ultimately show ?thesis by (simp add: provider_inv_def active_ids_def)
qed


lemma activation_order_props:
  "distinct activation_order" "set activation_order = set driver_modules"
  by (auto simp: activation_order_def driver_modules_def)

text \<open>The activations of a start-up, from the detected mask on.\<close>

lemma Init_steps:
  assumes "quiet_start env dll (files p)" "DetectFeatureFlags env dll (files p) = (flags, fs1)"
    and "p1 = p\<lparr>featureFlags := flags, files := fs1, activeModules := []\<rparr>"
  shows "case activate_all env init shut activation_order p1 of
      Alive p2 \<Rightarrow> provider_inv env p2 \<and>
        active_ids p2 = filter (\<lambda>i. has_bit flags i \<and> init i = Returns True) activation_order \<and>
        (\<forall>j. has_bit (featureFlags p2) j \<longleftrightarrow> has_bit flags j \<and> init j \<noteq> Throws) \<and>
        (\<forall>j. gmap env (files p2) j = (if has_bit flags j then activated (init j) else id) (gmap env fs1 j))
    | Dead fs \<Rightarrow>
        \<exists>m. has_bit flags m \<and> (init m = Dies \<or> init m = Throws \<and> shut m = Dies) \<and> blamed (gmap env fs m) \<and>
          (\<forall>j. j \<noteq> m \<longrightarrow> g_suspect (gmap env fs j) = None \<and>
             (init j \<noteq> Throws \<longrightarrow> g_disabled (gmap env fs j) = g_disabled (gmap env fs1 j)))"
proof -
  have g: "guard_env env" using assms(1) by (simp add: quiet_start_def)
  have p1: "featureFlags p1 = flags" "files p1 = fs1" "active_ids p1 = []" by (simp_all add: assms(3) active_ids_def)
  have "provider_inv env p1" unfolding assms(3) by (rule detect_inv [OF assms(1,2)])
  from activate_all_inv [OF g this activation_order_props(1), of init shut] activation_order_props(2) p1(3)
  have a: "case activate_all env init shut activation_order p1 of
        Alive p' \<Rightarrow>
          provider_inv env p' \<and>
          active_ids p' = active_ids p1 @ filter (\<lambda>i. has_bit (featureFlags p1) i \<and> init i = Returns True) activation_order \<and>
          (\<forall>j. has_bit (featureFlags p') j \<longleftrightarrow> has_bit (featureFlags p1) j \<and> \<not> (j \<in> set activation_order \<and> init j = Throws)) \<and>
          (\<forall>j. gmap env (files p') j =
             (if j \<in> set activation_order \<and> has_bit (featureFlags p1) j then activated (init j) (gmap env (files p1) j) else gmap env (files p1) j))
      | Dead fs \<Rightarrow>
          \<exists>m \<in> set activation_order. has_bit (featureFlags p1) m \<and> (init m = Dies \<or> init m = Throws \<and> shut m = Dies) \<and> blamed (gmap env fs m) \<and>
            (\<forall>j. j \<noteq> m \<longrightarrow> g_suspect (gmap env fs j) = None \<and>
               (init j \<noteq> Throws \<longrightarrow> g_disabled (gmap env fs j) = g_disabled (gmap env (files p1) j)))" by simp
  have o: "has_bit flags j \<Longrightarrow> j \<in> set activation_order" for j using has_bit_driver activation_order_props(2) by auto
  show ?thesis
  proof (cases "activate_all env init shut activation_order p1")
    case (Alive p2)
    with a p1 o show ?thesis by auto
  next
    case (Dead fs)
    with a p1 o show ?thesis by auto
  qed
qed

lemma blamed_next_launch:
  assumes "guard_env env" "GetDriverResourcesDir dll \<noteq> []" "blamed (gmap env fs m)"
  shows "\<not> has_bit (fst (DetectFeatureFlags env dll fs)) m"
proof -
  have gs: "gmap env fs = (\<lambda>i. guard env (GetModule i) fs)" by (simp add: gmap_def fun_eq_iff)
  show ?thesis
    using Detect_on_guard [OF assms(1,2) prod.collapse [symmetric] refl gs] blamed_not_passes [of "gmap env fs" m, OF assms(3)]
    by (auto simp: survives_def)
qed

text \<open>A start-up in which an enabled module dies does not.\<close>

lemma Init_dies:
  assumes "quiet_start env dll (files p)" "has_bit (fst (DetectFeatureFlags env dll (files p))) i" "init i = Dies"
  shows "\<exists>fs. Provider_Init env dll init shut shut2 True p = Dead fs"
proof -
  obtain flags fs1 where d: "DetectFeatureFlags env dll (files p) = (flags, fs1)" by (cases "DetectFeatureFlags env dll (files p)")
  let ?p1 = "p\<lparr>featureFlags := flags, files := fs1, activeModules := []\<rparr>"
  have "activate_all env init shut activation_order ?p1 \<noteq> Alive p2" for p2
  proof
    assume a: "activate_all env init shut activation_order ?p1 = Alive p2"
    from Init_steps [OF assms(1) d refl, of init shut] have "g_suspect (gmap env (files p2) i) = Some (str ''init'')" "provider_inv env p2"
      using assms(2,3) d unfolding a by simp_all
    then show False by (auto simp: provider_inv_def dest!: spec [of _ i])
  qed
  then obtain fs where "activate_all env init shut activation_order ?p1 = Dead fs"
    by (cases "activate_all env init shut activation_order ?p1") auto
  then show ?thesis by (simp add: Provider_Init_def d Let_def)
qed

section \<open>Shutting modules down\<close>

text \<open>What the shutdown of a module does to its guard.\<close>

fun shut_down :: "unit outcome \<Rightarrow> guard_state \<Rightarrow> guard_state" where
  "shut_down (Returns _) g = g\<lparr>g_active := False, g_suspect := None, g_count := no_counts, g_clean := True\<rparr>"
| "shut_down Throws g = fault_spec (str ''shutdown_exception'') g"
| "shut_down Dies g = g\<lparr>g_suspect := Some (str ''shutdown'')\<rparr>"

lemma shutdown_module_on_guard:
  assumes "guard_env env" "am_safety e = Some (GetModule (am_module e))"
  obtains fs' where "gmap env fs' = (gmap env fs)(am_module e := shut_down (shut (am_module e)) (gmap env fs (am_module e)))"
    "shutdown_module env shut e fs = (if shut (am_module e) = Dies then Dead fs' else Alive fs')"
proof -
  let ?m = "am_module e"
  obtain fs1 fs2 where g: "guarded env (Some (GetModule ?m)) (str ''shutdown'') (shut ?m) fs =
       (case shut ?m of Dies \<Rightarrow> Dead fs1 | Returns x \<Rightarrow> Alive (fs2, Some x) | Throws \<Rightarrow> Alive (fs2, None))"
    and g1: "gmap env fs1 = (gmap env fs)(?m := (gmap env fs ?m)\<lparr>g_suspect := Some (str ''shutdown'')\<rparr>)"
    and g2: "gmap env fs2 = (gmap env fs)(?m := (gmap env fs ?m)\<lparr>g_suspect := None\<rparr>)"
    by (rule guarded_Some [OF assms(1), of "str ''shutdown''" ?m "shut ?m" fs]) auto
  define fs3 where "fs3 = fst (MarkClean env (GetModule ?m) fs2)"
  define fs4 where "fs4 = fst (MarkFault env (GetModule ?m) (str ''shutdown_exception'') fs2)"
  have g3: "gmap env fs3 = (gmap env fs)(?m := (gmap env fs ?m)\<lparr>g_active := False, g_suspect := None, g_count := no_counts, g_clean := True\<rparr>)"
    unfolding fs3_def gmap_ops(4) [OF assms(1)] g2 by simp
  have g4: "gmap env fs4 = (gmap env fs)(?m := fault_spec (str ''shutdown_exception'') (gmap env fs ?m))"
    unfolding fs4_def gmap_ops(5) [OF assms(1) run_reasons(7)] g2 by (simp add: fault_spec_def)
  note d = shutdown_module_def [of env shut e fs, unfolded assms(2) g on_spec_def option.case]
  show thesis
  proof (cases "shut ?m")
    case (Returns u)
    then show ?thesis using that [of fs3] g3 by (simp add: d fs3_def)
  next
    case Throws
    then show ?thesis using that [of fs4] g4 by (simp add: d fs4_def)
  next
    case Dies
    then show ?thesis using that [of fs1] g1 by (simp add: d)
  qed
qed

text \<open>The loop shuts every module down, or stops at the first one that takes the process down.\<close>

lemma shutdown_all_on_guard:
  assumes "guard_env env"
  shows "\<forall>e \<in> set es. am_safety e = Some (GetModule (am_module e)) \<Longrightarrow> distinct (map am_module es) \<Longrightarrow>
     (case shutdown_all env shut es fs of
        Alive fs' \<Rightarrow> \<forall>j. gmap env fs' j = (if j \<in> am_module ` set es then shut_down (shut j) (gmap env fs j) else gmap env fs j) \<and>
                        (j \<in> am_module ` set es \<longrightarrow> shut j \<noteq> Dies)
      | Dead fs' \<Rightarrow> \<exists>m \<in> am_module ` set es. shut m = Dies \<and> gmap env fs' m = shut_down Dies (gmap env fs m) \<and>
                        (\<forall>j. j \<noteq> m \<longrightarrow> gmap env fs' j = gmap env fs j \<or>
                           j \<in> am_module ` set es \<and> shut j \<noteq> Dies \<and> gmap env fs' j = shut_down (shut j) (gmap env fs j)))"
proof (induction es arbitrary: fs)
  case (Cons e es)
  let ?m = "am_module e"
  have sf: "am_safety e = Some (GetModule ?m)" and n: "?m \<notin> am_module ` set es" using Cons.prems by auto
  obtain fs1 where g: "gmap env fs1 = (gmap env fs)(?m := shut_down (shut ?m) (gmap env fs ?m))"
    and s: "shutdown_module env shut e fs = (if shut ?m = Dies then Dead fs1 else Alive fs1)"
    by (rule shutdown_module_on_guard [OF assms sf, of fs shut])
  show ?case
  proof (cases "shut ?m = Dies")
    case True
    then show ?thesis using s g by simp
  next
    case False
    note ih = Cons.IH [of fs1]
    show ?thesis
    proof (cases "shutdown_all env shut es fs1")
      case (Alive fs2)
      then show ?thesis using ih Cons.prems False s g n by auto
    next
      case (Dead fs2)
      then obtain m where m: "m \<in> am_module ` set es" "shut m = Dies" "gmap env fs2 m = shut_down Dies (gmap env fs1 m)"
        "\<And>j. j \<noteq> m \<Longrightarrow> gmap env fs2 j = gmap env fs1 j \<or> j \<in> am_module ` set es \<and> shut j \<noteq> Dies \<and> gmap env fs2 j = shut_down (shut j) (gmap env fs1 j)"
        using ih Cons.prems by auto
      have "m \<noteq> ?m" using m(1) n by blast
      have "gmap env fs2 j = gmap env fs j \<or> j \<in> am_module ` set (e # es) \<and> shut j \<noteq> Dies \<and> gmap env fs2 j = shut_down (shut j) (gmap env fs j)" if "j \<noteq> m" for j
        using m(4) [OF that] g False n by (cases "j = ?m") auto
      then show ?thesis using Dead False s m(1-3) g \<open>m \<noteq> ?m\<close> by auto
    qed
  qed
qed simp

text \<open>The shutdown of the modules a start-up had activated.\<close>

lemma shutdown_active:
  assumes "guard_env env" "provider_inv env p"
  shows "case shutdown_all env shut (rev (activeModules p)) (files p) of
      Alive fs' \<Rightarrow> \<forall>j. gmap env fs' j = (if j \<in> set (active_ids p) then shut_down (shut j) (gmap env (files p) j) else gmap env (files p) j) \<and>
                      (j \<in> set (active_ids p) \<longrightarrow> shut j \<noteq> Dies)
    | Dead fs' \<Rightarrow> \<exists>m \<in> set (active_ids p). shut m = Dies \<and> gmap env fs' m = shut_down Dies (gmap env (files p) m) \<and>
                      (\<forall>j. j \<noteq> m \<longrightarrow> gmap env fs' j = gmap env (files p) j \<or>
                         j \<in> set (active_ids p) \<and> shut j \<noteq> Dies \<and> gmap env fs' j = shut_down (shut j) (gmap env (files p) j))"
proof -
  have "\<forall>e \<in> set (rev (activeModules p)). am_safety e = Some (GetModule (am_module e))"
    using assms(2) by (auto simp: provider_inv_def entry_ok_def list_all_iff)
  moreover have "distinct (map am_module (rev (activeModules p)))"
    using assms(2) by (simp add: provider_inv_def active_ids_def rev_map [symmetric])
  moreover have ids: "am_module ` set (rev (activeModules p)) = set (active_ids p)" by (simp add: active_ids_def)
  ultimately show ?thesis using shutdown_all_on_guard [OF assms(1), of "rev (activeModules p)" shut "files p"]
    unfolding ids by blast
qed

lemma shut_down_suspect: "out \<noteq> Dies \<Longrightarrow> g_suspect (shut_down out g) = None"
  by (cases "(out, g)" rule: shut_down.cases) (simp_all add: fault_spec_def)

text \<open>A module that was only being shut down is not disabled by the next launch.\<close>

lemma cleanup_next_launch:
  assumes "guard_env env" "GetDriverResourcesDir dll \<noteq> []"
    and "g_suspect (gmap env fs m) = Some (str ''shutdown'')" "g_disabled (gmap env fs m) = None"
  shows "\<not> HasAutoDisabledMarker env (GetModule m) (snd (DetectFeatureFlags env dll fs))"
proof -
  have gs: "gmap env fs = (\<lambda>i. guard env (GetModule i) fs)" by (simp add: gmap_def fun_eq_iff)
  have "m \<notin> set (strikers (flag_present dll fs) (gmap env fs))"
    using assms(3) by (auto simp: strikers_def third_strike_def)
  then have "g_disabled (detect_guard (flag_present dll fs) (gmap env fs) m) = None"
    using assms(3,4) by (auto simp: detect_guard_def assessed_def launch_verdict_def IsCleanupOnlySuspectReason_def Let_def)
  then show ?thesis
    using Detect_on_guard [OF assms(1,2) prod.collapse [symmetric] refl gs, of m] by (simp add: disabled_iff)
qed

text \<open>
  The modules of a pipe that a request reaches: those of its mask, up to and including the first one that handles it.
\<close>

fun reached :: "u32 \<Rightarrow> (ModuleId \<Rightarrow> bool outcome) \<Rightarrow> ModuleId list \<Rightarrow> ModuleId list" where
  "reached featureMask handle [] = []"
| "reached featureMask handle (i # is) =
     (if FeatureMaskForModule i AND featureMask = 0 then reached featureMask handle is
      else if handle i = Returns True then [i] else i # reached featureMask handle is)"

lemma reached_subset: "set (reached featureMask handle is) \<subseteq> set is"
  by (induction "is") auto

lemma guarded_out:
  "\<exists>fs1. guarded env spec r out fs =
     (case out of Dies \<Rightarrow> Dead fs1 | Returns x \<Rightarrow> Alive (fs1, Some x) | Throws \<Rightarrow> Alive (fs1, None))"
  by (cases out) (auto simp: guarded_def split: prod.split)

lemma active_ids_detach:
  "k < length (activeModules p) \<Longrightarrow>
   active_ids ((detach_at k m p)\<lparr>files := fs\<rparr>) = take k (active_ids p) @ drop (Suc k) (active_ids p)"
  by (simp add: active_ids_def detach_at_def remove_at_def take_map drop_map)

lemma active_ids_files [simp]: "active_ids (p\<lparr>files := fs\<rparr>) = active_ids p"
  by (simp add: active_ids_def)

text \<open>The list after a scan: exactly the reached modules that threw are gone, the others keep their order.\<close>

fun kept :: "u32 \<Rightarrow> (ModuleId \<Rightarrow> bool outcome) \<Rightarrow> ModuleId list \<Rightarrow> ModuleId list" where
  "kept featureMask handle [] = []"
| "kept featureMask handle (i # is) =
     (if FeatureMaskForModule i AND featureMask = 0 then i # kept featureMask handle is
      else if handle i = Returns True then i # is
      else if handle i = Returns False then i # kept featureMask handle is
      else kept featureMask handle is)"

lemma kept_filter:
  "distinct is \<Longrightarrow> \<forall>i \<in> set (reached featureMask handle is). handle i \<noteq> Dies \<Longrightarrow>
   kept featureMask handle is = filter (\<lambda>i. i \<notin> set (reached featureMask handle is) \<or> handle i \<noteq> Throws) is"
proof (induction "is")
  case (Cons i "is")
  have o: "handle i = Returns True \<or> handle i = Returns False \<or> handle i = Throws \<or> handle i = Dies"
    by (cases "handle i") auto
  have n: "filter (\<lambda>j. j \<noteq> i \<and> R j) is = filter R is" for R
    using Cons.prems(1) by (intro filter_cong) auto
  have "i \<notin> set (reached featureMask handle is)" using Cons.prems(1) reached_subset by fastforce
  moreover have "filter (\<lambda>j. j \<noteq> i \<or> R j) is = is" for R
    using Cons.prems(1) by (auto simp: filter_id_conv)
  ultimately show ?case using Cons o n by (auto split: if_splits)
qed simp

lemma request_loop_list:
  "request_loop env featureMask handle shut index p = Alive (p', handled) \<Longrightarrow>
   active_ids p' = take index (active_ids p) @ kept featureMask handle (drop index (active_ids p)) \<and>
   (handled \<longleftrightarrow> (\<exists>i \<in> set (reached featureMask handle (drop index (active_ids p))). handle i = Returns True)) \<and>
   (\<forall>i \<in> set (reached featureMask handle (drop index (active_ids p))). handle i \<noteq> Dies)"
proof (induction "length (activeModules p) - index" arbitrary: index p rule: less_induct)
  case less
  let ?loop = "request_loop env featureMask handle shut" and ?ids = "active_ids p"
  note step = request_loop.simps [of env featureMask handle shut index p]
  show ?case
  proof (cases "index < length (activeModules p)")
    case False
    then show ?thesis using less.prems step by (simp add: active_ids_def)
  next
    case True
    define e where "e = activeModules p ! index"
    define i where "i = am_module e"
    have i: "drop index ?ids = i # drop (Suc index) ?ids" "take (Suc index) ?ids = take index ?ids @ [i]"
      using True by (simp_all add: active_ids_def i_def e_def Cons_nth_drop_Suc [symmetric] take_Suc_conv_app_nth drop_map take_map)
    have next_at: "length (activeModules p1) - Suc index < length (activeModules p) - index" if "activeModules p1 = activeModules p" for p1
      using True that by simp
    note skip = less.hyps [OF next_at]
    note l = step [unfolded Let_def e_def [symmetric] i_def [symmetric], simplified True]
    obtain fs1 where g: "guarded env (am_safety e) (str ''request'') (handle i) (files p) =
       (case handle i of Dies \<Rightarrow> Dead fs1 | Returns x \<Rightarrow> Alive (fs1, Some x) | Throws \<Rightarrow> Alive (fs1, None))"
      using guarded_out by blast
    show ?thesis
    proof (cases "FeatureMaskForModule i AND featureMask = 0")
      case off: True
      then have "?loop (Suc index) p = Alive (p', handled)" using less.prems l True by simp
      then show ?thesis using skip [of p] off i by simp
    next
      case on: False
      consider "handle i = Returns True" | "handle i = Returns False" | "handle i = Throws" | "handle i = Dies"
        by (cases "handle i") auto
      then show ?thesis
      proof cases
        case 1
        then have "p' = p\<lparr>files := fs1\<rparr>" "handled" using less.prems l g on True by simp_all
        moreover have "take index ?ids @ i # drop (Suc index) ?ids = ?ids" by (metis i(1) append_take_drop_id)
        ultimately show ?thesis using 1 on i(1) by simp
      next
        case 2
        then have "?loop (Suc index) (p\<lparr>files := fs1\<rparr>) = Alive (p', handled)" using less.prems l g on True by simp
        then show ?thesis using skip [of "p\<lparr>files := fs1\<rparr>"] 2 on i by simp
      next
        case 3
        then obtain fs2 where "DisableDetachedModule env e (str ''request_exception'') False (shut i) fs1 = Alive fs2"
          and h: "?loop index ((detach_at index (FeatureMaskForModule i) p)\<lparr>files := fs2\<rparr>) = Alive (p', handled)"
          using less.prems l g on True by (auto split: run.splits)
        have "length (activeModules ((detach_at index (FeatureMaskForModule i) p)\<lparr>files := fs2\<rparr>)) - index < length (activeModules p) - index"
          using True by (simp add: detach_at_def)
        note less.hyps [OF this h, unfolded active_ids_detach [OF True]]
        moreover have "length ?ids > index" using True by (simp add: active_ids_def)
        ultimately show ?thesis using 3 on i by simp
      next
        case 4
        then show ?thesis using less.prems l g on True by simp
      qed
    qed
  qed
qed

lemma activated_disabled: "out \<noteq> Throws \<Longrightarrow> g_disabled (activated out g) = g_disabled g"
  by (cases "(out, g)" rule: activated.cases) simp_all

lemma shut_down_disabled: "out \<noteq> Throws \<Longrightarrow> g_disabled (shut_down out g) = g_disabled g"
  by (cases "(out, g)" rule: shut_down.cases) simp_all

text \<open>The guard's fields as the module safety functions report them.\<close>

lemma guard_reasons: "g_disabled (guard env spec fs) = Some r \<Longrightarrow> AutoDisabledReason env spec fs = r"
  by (simp add: guard_def split: if_splits)

lemma guards_differ:
  assumes "g_suspect (gmap env fs' j) = None \<and> (P \<longrightarrow> g_disabled (gmap env fs' j) = g_disabled (gmap env fs j))"
  shows "\<not> HasSuspectMarker env (GetModule j) fs' \<and>
    (P \<longrightarrow> HasAutoDisabledMarker env (GetModule j) fs' = HasAutoDisabledMarker env (GetModule j) fs)"
  using assms by (simp add: gmap_def guard_fields(2) disabled_iff)

text \<open>A start-up in which nothing dies returns.\<close>

lemma Init_returns:
  assumes "quiet_start env dll (files p)" "\<And>i. init i \<noteq> Dies" "\<And>i. shut i \<noteq> Dies" "\<And>i. shut2 i \<noteq> Dies"
  shows "\<exists>p'. Provider_Init env dll init shut shut2 hooks p = Alive (p', hooks)"
proof -
  obtain flags fs1 where d: "DetectFeatureFlags env dll (files p) = (flags, fs1)" by (cases "DetectFeatureFlags env dll (files p)")
  let ?p1 = "p\<lparr>featureFlags := flags, files := fs1, activeModules := []\<rparr>"
  from Init_steps [OF assms(1) d refl, of init shut] assms(2,3)
  obtain p2 where p2: "activate_all env init shut activation_order ?p1 = Alive p2" "provider_inv env p2"
    by (cases "activate_all env init shut activation_order ?p1") auto
  then obtain fs where "shutdown_all env shut2 (rev (activeModules p2)) (files p2) = Alive fs"
    using shutdown_active [of env p2 shut2] assms(1,4)
    by (cases "shutdown_all env shut2 (rev (activeModules p2)) (files p2)") (auto simp: quiet_start_def)
  then show ?thesis using p2 by (simp add: Provider_Init_def d Let_def)
qed

text \<open>A host that has not been started.\<close>

definition idle :: "store \<Rightarrow> provider" where
  "idle fs = \<lparr>featureFlags = 0, activeModules = [], servers = [], files = fs, lastSidecarFlagCheckMs = 0,
     freezeAllTracking = False, freezeIncludeHmd = False, freezeHeartbeatQpc = 0\<rparr>"

lemma files_idle [simp]: "files (idle fs) = fs"
  by (simp add: idle_def)

lemma ft_quiet: "quiet_start plain_env sample_dll ft_files"
  by (simp add: quiet_start_def guard_env_plain sample_dir gmap_def ft_files_guard fresh_guard_def) (simp add: sample_dir_def)

lemma ft_enabled: "has_bit (fst (DetectFeatureFlags plain_env sample_dll ft_files)) FaceTracking"
proof -
  let ?gs = "\<lambda>i. guard plain_env (GetModule i) ft_files" and ?flag = "flag_present sample_dll ft_files"
  have p: "passes ?gs i" "\<not> third_strike (?gs i)" for i using fresh_passes [of ?gs i] ft_files_guard by simp_all
  then have k: "strikers ?flag ?gs = []" by (simp add: strikers_def)
  have "survives ?flag ?gs FaceTracking" "survives ?flag ?gs OscRouterModule"
    using ft_files_flags p k by (simp_all add: survives_def consulted_def gated_modules_def)
  moreover have "GetDriverResourcesDir sample_dll \<noteq> []" by (simp add: sample_dir) (simp add: sample_dir_def)
  ultimately show ?thesis using Detect_on_guard [OF guard_env_plain _ prod.collapse [symmetric] refl refl, of sample_dll ft_files FaceTracking]
    by simp
qed

section \<open>Properties\<close>







definition osc_host :: provider where
  "osc_host = (idle (fst (MarkActive plain_env (GetModule OscRouterModule) Map.empty)))
     \<lparr>featureFlags := 16, activeModules := [\<lparr>am_module = OscRouterModule, am_safety = Some (GetModule OscRouterModule)\<rparr>]\<rparr>"

lemma osc_host_inv: "provider_inv plain_env osc_host"
proof -
  have f: "gmap plain_env Map.empty i = fresh_guard" for i
    unfolding gmap_def by (rule guard_fresh [OF guard_env_plain]) simp
  show ?thesis
    by (simp add: provider_inv_def osc_host_def active_ids_def entry_ok_def has_bit_def feature_masks gmap_ops(1) [OF guard_env_plain] f fresh_guard_def)
qed


end
