(* ===== verification/CrashLoop.thy ===== *)
theory CrashLoop
  imports DriverProvider
begin

text \<open>
  Repeated crashes outside any bracket: launch after launch in which every module initialises and the process then
  dies with its modules active. The composition of detection, crash guard and start-up decides when such a
  module is switched off.
\<close>

section \<open>Files outside the guard's directory\<close>

definition outside :: "fs_env \<Rightarrow> store \<Rightarrow> store \<Rightarrow> bool" where
  "outside env fs fs' \<longleftrightarrow> (\<forall>q. (\<forall>x. q \<noteq> JoinPath (RootPath env False) x) \<longrightarrow> fs' q = fs q)"

lemma outside_refl [simp, intro]: "outside env fs fs"
  by (simp add: outside_def)

lemma outside_trans: "outside env fs fs1 \<Longrightarrow> outside env fs1 fs2 \<Longrightarrow> outside env fs fs2"
  by (simp add: outside_def)

lemma outside_file:
  assumes "guard_env env"
  shows "outside env fs (fst (WriteTextFile env (StatePath env spec pre suf c) b fs))"
    and "outside env fs (fst (DeleteFileIfPresent env (StatePath env spec pre suf c) fs))"
  unfolding outside_def StatePath_guard_env(1) [OF assms] by (metis write_other, metis delete_other)

lemma outside_then:
  assumes "guard_env env" "outside env fs fs1"
  shows "outside env fs (fst (WriteTextFile env (StatePath env spec pre suf c) b fs1))"
    and "outside env fs (fst (DeleteFileIfPresent env (StatePath env spec pre suf c) fs1))"
  using outside_trans [OF assms(2)] outside_file [OF assms(1)] by blast+

lemma outside_MarkFault: "guard_env env \<Longrightarrow> outside env fs fs1 \<Longrightarrow> outside env fs (fst (MarkFault env spec r fs1))"
  by (simp add: MarkFault_def WriteMarker_def ClearRuntimeMarkers_def path_defs Let_def case_prod_beta outside_then)

lemma outside_AssessLaunch: "guard_env env \<Longrightarrow> outside env fs fs1 \<Longrightarrow> outside env fs (fst (AssessLaunch env spec a fs1))"
  by (simp add: AssessLaunch_alt WriteCounters_def ClearRuntimeMarkers_def path_defs Let_def case_prod_beta outside_then
      outside_MarkFault split: option.split)

lemma outside_guard_run: "guard_env env \<Longrightarrow> outside env fs fs1 \<Longrightarrow> outside env fs (guard_run env spec op fs1)"
  by (cases op) (simp_all add: outside_MarkFault outside_AssessLaunch MarkActive_def MarkSuspect_def ClearSuspect_def MarkClean_def
      ClearAutoDisabled_def WriteMarker_def path_defs Let_def case_prod_beta outside_then)

lemma outside_assess_all:
  "guard_env env \<Longrightarrow> outside env fs fs1 \<Longrightarrow> outside env fs (fold (\<lambda>spec fs. fst (AssessLaunch env spec a fs)) ms fs1)"
  by (induction ms arbitrary: fs1) (simp_all add: outside_AssessLaunch)

lemma outside_backoff:
  "guard_env env \<Longrightarrow> outside env fs fs1 \<Longrightarrow> outside env fs (snd (ApplyRepeatedActiveOnlyBackoff env gates (enabled, fs1)))"
  by (auto simp: ApplyRepeatedActiveOnlyBackoff_def outside_MarkFault split: list.split option.split)

lemma outside_Detect:
  assumes "guard_env env" "GetDriverResourcesDir dll \<noteq> []" "DetectFeatureFlags env dll fs = (flags, fs')"
  shows "outside env fs fs'"
proof -
  obtain gates safe1 fs1 orGate safe3 fs2 safe4 where
    1: "ApplyGates env gated_modules (flags_on (GetDriverResourcesDir dll) fs, fs) = (gates, safe1, fs1)" and
    2: "ApplySafetyGate env OscRouterModule (router_on (GetDriverResourcesDir dll) fs safe1, fs1) = (orGate, safe3, fs2)" and
    3: "ApplyRepeatedActiveOnlyBackoff env (gates @ [orGate]) (safe3, fs2) = (safe4, fs')"
    by (rule Detect_steps [OF refl assms(2,3)]) blast
  obtain ms where "fs1 = fold (\<lambda>spec fs. fst (AssessLaunch env spec False fs)) ms fs" using gates_store [OF 1] by blast
  then have "outside env fs fs1" using outside_assess_all [OF assms(1) outside_refl] by simp
  moreover obtain ms where "fs2 = fold (\<lambda>spec fs. fst (AssessLaunch env spec False fs)) ms fs1" using gate_store [OF 2] by blast
  ultimately have "outside env fs fs2" using outside_assess_all [OF assms(1)] by simp
  then show ?thesis using outside_backoff [OF assms(1), of fs fs2 "gates @ [orGate]" safe3] 3 by simp
qed

lemma outside_on_spec:
  "guard_env env \<Longrightarrow> outside env fs fs1 \<Longrightarrow> (\<And>s. f s fs1 = guard_run env s op fs1) \<Longrightarrow> outside env fs (on_spec f spec fs1)"
  by (simp add: on_spec_def outside_guard_run split: option.split)

lemma outside_guarded:
  assumes "guard_env env" "outside env fs fs1" "guarded env spec r out fs1 = Alive (fs2, v)"
  shows "outside env fs fs2"
proof -
  have "outside env fs (fst (MarkSuspect env s x fs1))" for s x
    using outside_guard_run [OF assms(1,2), of s "Do_MarkSuspect x"] by simp
  moreover have "outside env fs g \<Longrightarrow> outside env fs (fst (ClearSuspect env s g))" for s g
    using outside_guard_run [OF assms(1), of fs g s Do_ClearSuspect] by simp
  ultimately show ?thesis using assms(2,3)
    by (auto simp: guarded_def scope_enter_def scope_exit_def Let_def case_prod_beta split: outcome.splits option.splits if_splits)
qed

lemma outside_activate:
  assumes "guard_env env" "outside env fs (files p)" "activateModule env (\<lambda>_. Returns True) shut i p = Alive p'"
  shows "outside env fs (files p')"
proof -
  let ?s = "SafetySpecForFeatureMask (FeatureMaskForModule i)"
  let ?fs1 = "on_spec (\<lambda>s fs. fst (MarkActive env s fs)) ?s (files p)"
  have 1: "outside env fs ?fs1" by (rule outside_on_spec [where op = Do_MarkActive, OF assms(1,2)]) simp
  obtain fs2 where g: "guarded env ?s (str ''init'') (Returns True) ?fs1 = Alive (fs2, Some True)"
    by (simp add: guarded_def Let_def case_prod_beta)
  have "outside env fs fs2" by (rule outside_guarded [OF assms(1) 1 g])
  then show ?thesis using assms(2,3) g by (auto simp: activateModule_def Let_def split: if_splits option.splits)
qed

lemma outside_activate_all:
  assumes "guard_env env"
  shows "outside env fs (files p) \<Longrightarrow> activate_all env (\<lambda>_. Returns True) shut is p = Alive p' \<Longrightarrow> outside env fs (files p')"
proof (induction "is" arbitrary: p)
  case (Cons i "is")
  then obtain p1 where "activateModule env (\<lambda>_. Returns True) shut i p = Alive p1" "activate_all env (\<lambda>_. Returns True) shut is p1 = Alive p'"
    by (cases "activateModule env (\<lambda>_. Returns True) shut i p") auto
  then show ?case using Cons.IH outside_activate [OF assms Cons.prems(1)] by blast
qed simp


section \<open>A launch that crashes later\<close>

definition crash_launch :: "fs_env \<Rightarrow> path option \<Rightarrow> store \<Rightarrow> u32 \<times> store" where
  "crash_launch env dll fs =
     (case Provider_Init env dll (\<lambda>_. Returns True) (\<lambda>_. Returns ()) (\<lambda>_. Returns ()) True (idle fs) of
        Alive (p, _) \<Rightarrow> (featureFlags p, files p)
      | Dead fs' \<Rightarrow> (0, fs'))"

text \<open>The driver's resources are not inside the guard's directory.\<close>

definition separate_dirs :: "fs_env \<Rightarrow> path option \<Rightarrow> bool" where
  "separate_dirs env dll \<longleftrightarrow> (\<forall>x y. GetDriverResourcesDir dll @ [backslash] @ y \<noteq> JoinPath (RootPath env False) x)"

lemma flag_present_outside:
  assumes "separate_dirs env dll" "outside env fs fs'"
  shows "flag_present dll fs' = flag_present dll fs"
proof -
  have "fs' (GetDriverResourcesDir dll @ [backslash] @ y) = fs (GetDriverResourcesDir dll @ [backslash] @ y)" for y
    using assms by (simp add: outside_def separate_dirs_def)
  then show ?thesis
    by (simp add: flag_present_def ModuleFlagFileExists_def FlagFileExists_def FileExists_def domIff fun_eq_iff split: option.split)
qed

lemma crash_launch_on_guard:
  assumes "quiet_start env dll fs" "separate_dirs env dll" "crash_launch env dll fs = (flags, fs')"
    and "flag = flag_present dll fs" "gs = gmap env fs"
  shows "has_bit flags i \<longleftrightarrow> survives flag gs i \<and> (needs_router i \<longrightarrow> survives flag gs OscRouterModule)"
    and "gmap env fs' i = (if has_bit flags i then activated (Returns True) else id) (detect_guard flag gs i)"
    and "flag_present dll fs' = flag"
proof -
  have ge: "guard_env env" "GetDriverResourcesDir dll \<noteq> []" using assms(1) by (simp_all add: quiet_start_def)
  obtain fl fs1 where d: "DetectFeatureFlags env dll fs = (fl, fs1)" by (cases "DetectFeatureFlags env dll fs")
  let ?p1 = "(idle fs)\<lparr>featureFlags := fl, files := fs1, activeModules := []\<rparr>"
  let ?init = "\<lambda>_ :: ModuleId. Returns True" and ?shut = "\<lambda>_ :: ModuleId. Returns ()"
  have q: "quiet_start env dll (files (idle fs))" using assms(1) by simp
  have d': "DetectFeatureFlags env dll (files (idle fs)) = (fl, fs1)" using d by simp
  note st = Init_steps [OF q d' refl, of ?init ?shut]
  then obtain p2 where p2: "activate_all env ?init ?shut activation_order ?p1 = Alive p2"
    by (cases "activate_all env ?init ?shut activation_order ?p1") auto
  have r: "flags = featureFlags p2" "fs' = files p2"
    using assms(3) by (simp_all add: crash_launch_def Provider_Init_def d Let_def p2)
  have s: "\<And>j. has_bit flags j \<longleftrightarrow> has_bit fl j" "\<And>j. gmap env fs' j = (if has_bit fl j then activated (Returns True) else id) (gmap env fs1 j)"
    using st unfolding p2 r by simp_all
  have gs: "gs = (\<lambda>i. guard env (GetModule i) fs)" by (simp add: assms(5) gmap_def fun_eq_iff)
  have dg: "has_bit fl i \<longleftrightarrow> survives flag gs i \<and> (needs_router i \<longrightarrow> survives flag gs OscRouterModule)"
    "gmap env fs1 i = detect_guard flag gs i" for i
    using Detect_on_guard [OF ge d assms(4) gs] by (auto simp: gmap_def)
  show "has_bit flags i \<longleftrightarrow> survives flag gs i \<and> (needs_router i \<longrightarrow> survives flag gs OscRouterModule)" using s(1) dg(1) by simp
  show "gmap env fs' i = (if has_bit flags i then activated (Returns True) else id) (detect_guard flag gs i)" using s dg(2) by simp
  have "outside env fs fs1" by (rule outside_Detect [OF ge d])
  then have "outside env fs fs'" using outside_activate_all [OF ge(1) _ p2, of fs] by (simp add: r)
  then show "flag_present dll fs' = flag" using flag_present_outside [OF assms(2)] assms(4) by simp
qed

text \<open>The files after \<open>n\<close> such launches.\<close>

definition after_crashes :: "fs_env \<Rightarrow> path option \<Rightarrow> nat \<Rightarrow> store \<Rightarrow> store" where
  "after_crashes env dll n fs = ((\<lambda>fs. snd (crash_launch env dll fs)) ^^ n) fs"

lemma assessed_quiet:
  assumes "g_suspect g = None"
  shows "assessed g = g\<lparr>g_count := (if g_active g then (g_count g)\<lparr>active_unclean := active_unclean (g_count g) + 1\<rparr> else g_count g),
      g_active := False, g_suspect := None\<rparr>"
  using assms by (simp add: assessed_def launch_verdict_def launch_counts_def Let_def)

section \<open>A module that needs no router\<close>

text \<open>The guard of the lone module after \<open>n\<close> launches.\<close>

definition lone_state :: "nat \<Rightarrow> guard_state \<Rightarrow> bool" where
  "lone_state n g \<longleftrightarrow>
     g_suspect g = None \<and>
     (if n \<le> 3 then g_disabled g = None \<and> g_active g = (n > 0) \<and> active_unclean (g_count g) = word_of_nat (n - 1)
      else g_disabled g \<noteq> None)"

lemma lone_strike:
  assumes "lone_state n (gs i)"
  shows "passes gs i \<longleftrightarrow> n \<le> 3" "passes gs i \<and> \<not> third_strike (gs i) \<longleftrightarrow> n < 3"
proof -
  have s: "g_suspect (gs i) = None" using assms by (simp add: lone_state_def)
  show p: "passes gs i \<longleftrightarrow> n \<le> 3" using unsuspected_passes [of gs i, OF s] assms
    by (cases "n \<le> 3") (simp_all add: lone_state_def)
  show "passes gs i \<and> \<not> third_strike (gs i) \<longleftrightarrow> n < 3"
  proof (cases "n \<le> 3")
    case True
    then have "n = 0 \<or> n = 1 \<or> n = 2 \<or> n = 3" by linarith
    then show ?thesis unfolding p using assms by (auto simp: third_strike_def lone_state_def word_le_nat_alt)
  qed (simp add: p)
qed

lemma lone_step:
  assumes "lone_state n g" "n < 3"
  shows "lone_state (Suc n) (activated (Returns True) (assessed g))"
proof -
  have "g_suspect g = None" using assms(1) by (simp add: lone_state_def)
  moreover have "n = 0 \<or> n = 1 \<or> n = 2" using assms(2) by linarith
  ultimately show ?thesis using assms(1) by (auto simp: lone_state_def assessed_quiet)
qed

lemma lone_consulted:
  assumes "i \<in> set driver_modules" "\<not> needs_router i" "flag = (\<lambda>j. j = i)"
  shows "consulted flag gs j \<longleftrightarrow> j = i"
    and "strikers flag gs = (if passes gs i \<and> third_strike (gs i) then [i] else [])"
proof -
  show c: "consulted flag gs j \<longleftrightarrow> j = i" for j
    using assms by (auto simp: consulted_def driver_modules_def gated_modules_def needs_router_def)
  have f: "filter (\<lambda>j. j = i) (gated_modules @ [OscRouterModule]) = [i]"
    using assms(1) by (auto simp: driver_modules_def gated_modules_def)
  show "strikers flag gs = (if passes gs i \<and> third_strike (gs i) then [i] else [])"
  proof (cases "passes gs i \<and> third_strike (gs i)")
    case True
    then have "strikers flag gs = filter (\<lambda>j. j = i) (gated_modules @ [OscRouterModule])"
      unfolding strikers_def c by (intro filter_cong [OF refl]) auto
    then show ?thesis using f True by simp
  next
    case False
    then show ?thesis unfolding strikers_def c by auto
  qed
qed


lemma lone_launch:
  assumes "quiet_start env dll fs" "separate_dirs env dll" "crash_launch env dll fs = (flags, fs')"
    and "i \<in> set driver_modules" "\<not> needs_router i" "flag_present dll fs = (\<lambda>j. j = i)" "lone_state n (gmap env fs i)"
  shows "has_bit flags i \<longleftrightarrow> n < 3" and "lone_state (Suc n) (gmap env fs' i)" and "j \<noteq> i \<Longrightarrow> gmap env fs' j = gmap env fs j"
    and "flag_present dll fs' = (\<lambda>j. j = i)"
proof -
  let ?gs = "gmap env fs"
  note l = crash_launch_on_guard [OF assms(1-3) assms(6) [symmetric] refl]
  note c = lone_consulted [OF assms(4,5) refl, of ?gs]
  note st = lone_strike [of n ?gs i, OF assms(7)]
  show b: "has_bit flags i \<longleftrightarrow> n < 3" using st assms(5) by (auto simp: l(1) survives_def c)
  show "flag_present dll fs' = (\<lambda>j. j = i)" by (rule l(3))
  show "j \<noteq> i \<Longrightarrow> gmap env fs' j = gmap env fs j" by (auto simp: l(1,2) survives_def detect_guard_def c)
  consider "n < 3" | "n = 3" | "n > 3" by linarith
  then show "lone_state (Suc n) (gmap env fs' i)"
  proof cases
    case 1
    then have "passes ?gs i" "\<not> third_strike (?gs i)" using st by auto
    then have "gmap env fs' i = activated (Returns True) (assessed (?gs i))" using b 1 by (simp add: l(2) detect_guard_def c)
    then show ?thesis using lone_step [OF assms(7) 1] by simp
  next
    case 2
    then have "passes ?gs i" "third_strike (?gs i)" using st by auto
    then have "gmap env fs' i = fault_spec repeated (assessed (?gs i))" using b 2 by (simp add: l(2) detect_guard_def c)
    then show ?thesis using 2 by (simp add: lone_state_def fault_spec_def)
  next
    case 3
    then have "gmap env fs' i = assessed (?gs i)" using b st by (simp add: l(2) detect_guard_def c)
    then show ?thesis using 3 assms(7) by (simp add: lone_state_def assessed_quiet)
  qed
qed

lemma after_crashes_Suc: "after_crashes env dll (Suc n) fs = snd (crash_launch env dll (after_crashes env dll n fs))"
  by (simp add: after_crashes_def)

lemma lone_loop:
  assumes "quiet_start env dll fs" "separate_dirs env dll" "i \<in> set driver_modules" "\<not> needs_router i"
    and "flag_present dll fs = (\<lambda>j. j = i)" "lone_state 0 (gmap env fs i)"
  shows "quiet_start env dll (after_crashes env dll n fs) \<and> flag_present dll (after_crashes env dll n fs) = (\<lambda>j. j = i) \<and>
         lone_state n (gmap env (after_crashes env dll n fs) i) \<and>
         (\<forall>j. j \<noteq> i \<longrightarrow> gmap env (after_crashes env dll n fs) j = gmap env fs j)"
proof (induction n)
  case 0
  then show ?case using assms by (simp add: after_crashes_def)
next
  case (Suc n)
  let ?fs = "after_crashes env dll n fs"
  obtain flags fs' where c: "crash_launch env dll ?fs = (flags, fs')" by (cases "crash_launch env dll ?fs")
  have fs': "after_crashes env dll (Suc n) fs = fs'" by (simp add: after_crashes_Suc c)
  note l = lone_launch [OF conjunct1 [OF Suc] assms(2) c assms(3,4)]
  have "g_suspect (gmap env fs' j) = None" if "j \<noteq> i" for j
    using that l(3) Suc assms(1,3-5) by (auto simp: quiet_start_def lone_consulted(1) [OF assms(3,4) refl])
  then have "quiet_start env dll fs'"
    using l(4) Suc by (auto simp: quiet_start_def lone_consulted(1) [OF assms(3,4) refl])
  then show ?case unfolding fs' using l Suc by auto
qed

section \<open>A module that needs the router\<close>

text \<open>Face tracking or captions alone, and the router it brings along, keep the same counts.\<close>

definition pair_state :: "guard_state \<Rightarrow> guard_state \<Rightarrow> bool" where
  "pair_state g r \<longleftrightarrow>
     g_suspect g = None \<and> g_suspect r = None \<and> g_disabled g = None \<and> g_disabled r = None \<and> g_active g = g_active r \<and>
     active_unclean (g_count g) = active_unclean (g_count r)"

lemma pair_consulted:
  assumes "needs_router i" "flag = (\<lambda>j. j = i)" "pair_state (gs i) (gs OscRouterModule)"
  shows "consulted flag gs j \<longleftrightarrow> j = i \<or> j = OscRouterModule" and "strikers flag gs \<noteq> [j]"
    and "passes gs i" "passes gs OscRouterModule"
proof -
  show p: "passes gs i" "passes gs OscRouterModule"
    using unsuspected_passes [of gs i] unsuspected_passes [of gs OscRouterModule] assms(3) by (simp_all add: pair_state_def)
  show c: "consulted flag gs j \<longleftrightarrow> j = i \<or> j = OscRouterModule" for j
    using assms(1,2) p by (auto simp: consulted_def gated_modules_def needs_router_def)
  have "third_strike (gs i) = third_strike (gs OscRouterModule)" using assms(3) by (simp add: third_strike_def pair_state_def)
  then show "strikers flag gs \<noteq> [j]"
    using assms(1) p unfolding strikers_def c by (auto simp: gated_modules_def needs_router_def)
qed

lemma pair_loop:
  assumes "quiet_start env dll fs" "separate_dirs env dll" "needs_router i"
    and "flag_present dll fs = (\<lambda>j. j = i)" "pair_state (gmap env fs i) (gmap env fs OscRouterModule)"
  shows "quiet_start env dll (after_crashes env dll n fs) \<and> flag_present dll (after_crashes env dll n fs) = (\<lambda>j. j = i) \<and>
         pair_state (gmap env (after_crashes env dll n fs) i) (gmap env (after_crashes env dll n fs) OscRouterModule) \<and>
         has_bit (fst (crash_launch env dll (after_crashes env dll n fs))) i"
proof -
  have bit: "has_bit flags i \<and> has_bit flags OscRouterModule \<and> pair_state (gmap env fs' i) (gmap env fs' OscRouterModule) \<and>
      (\<forall>j. j \<noteq> i \<longrightarrow> j \<noteq> OscRouterModule \<longrightarrow> gmap env fs' j = gmap env fs j) \<and> flag_present dll fs' = (\<lambda>j. j = i)"
    if a: "quiet_start env dll fs" "crash_launch env dll fs = (flags, fs')" "flag_present dll fs = (\<lambda>j. j = i)"
      "pair_state (gmap env fs i) (gmap env fs OscRouterModule)" for fs flags fs'
  proof -
    note l = crash_launch_on_guard [OF a(1) assms(2) a(2) a(3) [symmetric] refl]
    note c = pair_consulted [where gs = "gmap env fs", OF assms(3) refl a(4)]
    have b: "has_bit flags i" "has_bit flags OscRouterModule"
      using c by (auto simp: l(1) survives_def needs_router_def)
    have "gmap env fs' i = activated (Returns True) (assessed (gmap env fs i))"
      "gmap env fs' OscRouterModule = activated (Returns True) (assessed (gmap env fs OscRouterModule))"
      using b c by (simp_all add: l(2) detect_guard_def)
    then have "pair_state (gmap env fs' i) (gmap env fs' OscRouterModule)"
      using a(4) by (simp add: pair_state_def assessed_quiet)
    moreover have "gmap env fs' j = gmap env fs j" if "j \<noteq> i" "j \<noteq> OscRouterModule" for j
      using that c by (auto simp: l(1,2) survives_def detect_guard_def)
    ultimately show ?thesis using b l(3) by blast
  qed
  have cons: "consulted (\<lambda>j. j = i) gs j \<Longrightarrow> j = i \<or> j = OscRouterModule" for gs j
    by (auto simp: consulted_def split: if_splits)
  have q: "quiet_start env dll fs'" if a: "quiet_start env dll fs" "crash_launch env dll fs = (flags, fs')"
      "flag_present dll fs = (\<lambda>j. j = i)" "pair_state (gmap env fs i) (gmap env fs OscRouterModule)" for fs flags fs'
  proof -
    have "g_suspect (gmap env fs' j) = None" for j
      using bit [OF a] a(1,3) cons [of "gmap env fs" j] by (cases "j = i \<or> j = OscRouterModule") (auto simp: pair_state_def quiet_start_def)
    then show ?thesis using a(1) by (simp add: quiet_start_def)
  qed
  show ?thesis
  proof (induction n)
    case 0
    then show ?case using assms bit [OF assms(1) prod.collapse [symmetric] assms(4,5)] by (simp add: after_crashes_def)
  next
    case (Suc n)
    let ?fs = "after_crashes env dll n fs"
    obtain flags fs' where c: "crash_launch env dll ?fs = (flags, fs')" by (cases "crash_launch env dll ?fs")
    have fs': "after_crashes env dll (Suc n) fs = fs'" by (simp add: after_crashes_Suc c)
    have q': "quiet_start env dll fs'" using q [OF _ c] Suc by blast
    have b: "pair_state (gmap env fs' i) (gmap env fs' OscRouterModule)" "flag_present dll fs' = (\<lambda>j. j = i)"
      using bit [OF _ c] Suc by blast+
    then show ?case unfolding fs' using q' bit [OF q' prod.collapse [symmetric] b(2,1)] by simp
  qed
qed


section \<open>The phantom pose hook\<close>

lemma phantom_driver: "PhantomModule \<in> set driver_modules"
  by (simp add: driver_modules_def)

lemma phantom_pose_first:
  assumes "guard_env env" "has_bit (featureFlags p) PhantomModule"
  obtains fs where "phantom_pose env False False (Returns ()) shut p = Alive (p\<lparr>files := fs\<rparr>, True)"
    "gmap env fs = (gmap env (files p))(PhantomModule := (gmap env (files p) PhantomModule)\<lparr>g_suspect := Some (str ''pose_pipeline'')\<rparr>)"
proof -
  have s: "SafetySpecForFeatureMask kFeaturePhantom = Some (GetModule PhantomModule)"
    using SafetySpec_driver [OF phantom_driver] by simp
  define fs where "fs = fst (MarkSuspect env (GetModule PhantomModule) (str ''pose_pipeline'') (files p))"
  have "gmap env fs = (gmap env (files p))(PhantomModule := (gmap env (files p) PhantomModule)\<lparr>g_suspect := Some (str ''pose_pipeline'')\<rparr>)"
    unfolding fs_def by (rule gmap_ops(2) [OF assms(1)]) simp
  moreover have "phantom_pose env False False (Returns ()) shut p = Alive (p\<lparr>files := fs\<rparr>, True)"
    using assms(2) s by (simp add: phantom_pose_def has_bit_def on_spec_def fs_def)
  ultimately show thesis by (rule that [rotated])
qed

section \<open>Properties\<close>

text \<open>C25. When a crash loop ends. An installation with one module enabled that crashes outside any bracket after every
  start-up starts that module on its first three launches and never again, unless the module is face tracking or
  captions: those bring the router along, the router's count moves with theirs, and since
  the backoff acts only on a single striking module they are started at every launch.\<close>

theorem crash_loop:
  assumes "guard_env env" "GetDriverResourcesDir dll \<noteq> []" "separate_dirs env dll" "i \<in> set driver_modules"
    and "flag_present dll fs = (\<lambda>j. j = i)" "gmap env fs = (\<lambda>j. fresh_guard)"
  shows "has_bit (fst (crash_launch env dll (after_crashes env dll n fs))) i \<longleftrightarrow> needs_router i \<or> n < 3"
proof -
  have q: "quiet_start env dll fs" using assms(1,2,6) by (simp add: quiet_start_def fresh_guard_def)
  show ?thesis
  proof (cases "needs_router i")
    case True
    have "pair_state (gmap env fs i) (gmap env fs OscRouterModule)" by (simp add: assms(6) pair_state_def fresh_guard_def)
    then show ?thesis using pair_loop [OF q assms(3) True assms(5)] True by blast
  next
    case False
    have "lone_state 0 (gmap env fs i)" by (simp add: assms(6) lone_state_def fresh_guard_def no_counts_def)
    from lone_loop [OF q assms(3,4) False assms(5) this, of n]
    show ?thesis using lone_launch(1) [OF _ assms(3) prod.collapse [symmetric] assms(4) False] False by blast
  qed
qed

lemma separate_sample: "separate_dirs plain_env sample_dll"
  unfolding separate_dirs_def sample_dir plain_root by (simp add: sample_dir_def JoinPath_def)

text \<open>An installation with one flag file.\<close>

definition one_flag :: "ModuleId \<Rightarrow> store" where
  "one_flag i = [sample_dir @ [backslash] @ flag_file_wide (GetModule i) \<mapsto> []]"

lemma flag_names: "flag_file_wide (GetModule i) = flag_file_wide (GetModule j) \<longleftrightarrow> i = j"
    "legacy_flag_file_wide (GetModule i) \<noteq> Some (flag_file_wide (GetModule j))"
proof -
  have "list_all (\<lambda>i. list_all (\<lambda>j. (flag_file_wide (GetModule i) = flag_file_wide (GetModule j)) = (i = j) \<and>
      legacy_flag_file_wide (GetModule i) \<noteq> Some (flag_file_wide (GetModule j))) enum_class.enum) enum_class.enum"
    by code_simp
  then have "(flag_file_wide (GetModule i) = flag_file_wide (GetModule j)) = (i = j) \<and>
      legacy_flag_file_wide (GetModule i) \<noteq> Some (flag_file_wide (GetModule j))"
    by (simp add: list_all_iff UNIV_enum [symmetric])
  then show "flag_file_wide (GetModule i) = flag_file_wide (GetModule j) \<longleftrightarrow> i = j"
    "legacy_flag_file_wide (GetModule i) \<noteq> Some (flag_file_wide (GetModule j))" by blast+
qed

lemma one_flag_present: "flag_present sample_dll (one_flag i) = (\<lambda>j. j = i)"
  using flag_names(1) flag_names(2)
  by (auto simp: fun_eq_iff flag_present_def sample_dir ModuleFlagFileExists_def FlagFileExists_def FileExists_def one_flag_def
      split: option.splits)

lemma one_flag_fresh: "gmap plain_env (one_flag i) = (\<lambda>j. fresh_guard)"
proof
  fix j
  show "gmap plain_env (one_flag i) j = fresh_guard"
    unfolding gmap_def
  proof (rule guard_fresh [OF guard_env_plain])
    show "one_flag i (JoinPath (RootPath plain_env False) x) = None" for x
      unfolding plain_root one_flag_def sample_dir_def by (simp add: JoinPath_def)
  qed
qed

theorem crash_loop_witness:
  "\<not> has_bit (fst (crash_launch plain_env sample_dll (after_crashes plain_env sample_dll 3 (one_flag Smoothing)))) Smoothing \<and>
   has_bit (fst (crash_launch plain_env sample_dll (after_crashes plain_env sample_dll 1000 (one_flag Captions)))) Captions"
proof -
  have d: "GetDriverResourcesDir sample_dll \<noteq> []" by (simp add: sample_dir) (simp add: sample_dir_def)
  note t = crash_loop [OF guard_env_plain d separate_sample _ one_flag_present one_flag_fresh]
  show ?thesis using t [of Smoothing 3] t [of Captions 1000] by (simp add: driver_modules_def needs_router_def)
qed

text \<open>C26. The phantom pose hook marks its module suspect on the first pose and does not clear the mark. From then on the next
  launch disables the module after any crash, whatever caused it; and once a request to the module has cleared the mark, a
  crash inside the pose hook itself leaves no mark.\<close>

theorem phantom_mark_lingers:
  assumes "guard_env env" "GetDriverResourcesDir dll \<noteq> []" "has_bit (featureFlags p) PhantomModule"
    and "activeModules p = [\<lparr>am_module = PhantomModule, am_safety = Some (GetModule PhantomModule)\<rparr>]"
    and "phantom_pose env False False (Returns ()) shut p = Alive (p', marked)"
    and "HandleIpcRequest env kFeaturePhantom RequestModule (\<lambda>_. Returns True) shut now p' = Alive (p'', reply)"
  shows "\<not> has_bit (fst (DetectFeatureFlags env dll (files p'))) PhantomModule \<and> marked \<and>
    \<not> HasSuspectMarker env (GetModule PhantomModule) (files p'') \<and>
    phantom_pose env False marked Dies shut p'' = Dead (files p'')"
proof -
  obtain fs where p: "p' = p\<lparr>files := fs\<rparr>" "marked"
    and g: "gmap env fs = (gmap env (files p))(PhantomModule := (gmap env (files p) PhantomModule)\<lparr>g_suspect := Some (str ''pose_pipeline'')\<rparr>)"
    using phantom_pose_first [OF assms(1,3), of shut] assms(5) by (metis Pair_inject run.inject(1))
  have "blamed (gmap env fs PhantomModule)" by (simp add: g blamed_def IsCleanupOnlySuspectReason_def str_def)
  then have 1: "\<not> has_bit (fst (DetectFeatureFlags env dll (files p'))) PhantomModule"
    using blamed_next_launch [OF assms(1,2)] by (simp add: p(1))
  obtain fs2 where gd: "guarded env (Some (GetModule PhantomModule)) (str ''request'') (Returns True) fs = Alive (fs2, Some True)"
    and g2: "gmap env fs2 = (gmap env fs)(PhantomModule := (gmap env fs PhantomModule)\<lparr>g_suspect := None\<rparr>)"
    by (rule guarded_Some [OF assms(1), of "str ''request''" PhantomModule "Returns True" fs]) auto
  have "request_loop env kFeaturePhantom (\<lambda>_. Returns True) shut 0 p' = Alive (p'\<lparr>files := fs2\<rparr>, True)"
    by (subst request_loop.simps) (simp add: p(1) assms(4) gd kFeaturePhantom_def)
  then have p'': "p'' = p'\<lparr>files := fs2\<rparr>" using assms(6) by (simp add: HandleIpcRequest_def)
  have "g_suspect (gmap env fs2 PhantomModule) = None" by (simp add: g2)
  then have "\<not> HasSuspectMarker env (GetModule PhantomModule) (files p'')" by (simp add: p'' gmap_def guard_fields(2))
  moreover have "phantom_pose env False marked Dies shut p'' = Dead (files p'')"
    using assms(3) p(2) by (simp add: phantom_pose_def p'' p(1) has_bit_def)
  ultimately show ?thesis using 1 p(2) by blast
qed

definition phantom_host :: provider where
  "phantom_host = (idle Map.empty)
     \<lparr>featureFlags := 64, activeModules := [\<lparr>am_module = PhantomModule, am_safety = Some (GetModule PhantomModule)\<rparr>]\<rparr>"

theorem phantom_mark_lingers_witness:
  "\<exists>p'. phantom_pose plain_env False False (Returns ()) (\<lambda>_. Returns ()) phantom_host = Alive (p', True) \<and>
        \<not> has_bit (fst (DetectFeatureFlags plain_env sample_dll (files p'))) PhantomModule"
proof -
  have b: "has_bit (featureFlags phantom_host) PhantomModule" by (simp add: phantom_host_def has_bit_def kFeaturePhantom_def)
  have m: "activeModules phantom_host = [\<lparr>am_module = PhantomModule, am_safety = Some (GetModule PhantomModule)\<rparr>]" by (simp add: phantom_host_def)
  have d: "GetDriverResourcesDir sample_dll \<noteq> []" by (simp add: sample_dir) (simp add: sample_dir_def)
  obtain fs where p: "phantom_pose plain_env False False (Returns ()) (\<lambda>_. Returns ()) phantom_host = Alive (phantom_host\<lparr>files := fs\<rparr>, True)"
    by (rule phantom_pose_first [OF guard_env_plain b, of "\<lambda>_. Returns ()"])
  obtain fs2 where "guarded plain_env (Some (GetModule PhantomModule)) (str ''request'') (Returns True) fs = Alive (fs2, Some True)"
    by (simp add: guarded_def Let_def case_prod_beta)
  then have "HandleIpcRequest plain_env kFeaturePhantom RequestModule (\<lambda>_. Returns True) (\<lambda>_. Returns ()) 0 (phantom_host\<lparr>files := fs\<rparr>) =
      Alive (phantom_host\<lparr>files := fs2\<rparr>, Some ReplyModule)"
    by (simp add: HandleIpcRequest_def request_loop.simps m kFeaturePhantom_def)
  from phantom_mark_lingers [OF guard_env_plain d b m p this] p show ?thesis by auto
qed

end
