(* ===== verification/IpcServer.thy ===== *)
theory IpcServer
  imports Prelude "HOL-Library.Multiset"
begin

text \<open>
  The request pipe server (\<open>core/src/driver/IPCServer.cpp\<close>): one thread that listens, keeps an instance per connected client and runs
  the completion routines in its alertable wait. Kernel handles are numbers; what each system call returns is an
  input of the step. The model accounts for every handle the server opens.
\<close>

section \<open>State\<close>

type_synonym handle = nat

text \<open>Each instance has exactly one overlapped operation under way.\<close>

datatype io_phase = Reading | Writing

text \<open>
  \<open>joinable\<close> is whether the thread has been started and not been joined. An instance's pipe is a handle, or \<open>None\<close> for \<open>INVALID_HANDLE_VALUE\<close>. \<open>opened\<close> and \<open>closed\<close> record the handles of pipes the server has
  created and closed, \<open>handled\<close> the requests it has dispatched.
\<close>

record PipeInstance =
  pi_pipe :: "handle option"
  pi_phase :: io_phase

record ipc_server =
  pipes :: "PipeInstance list"
  nextPipe :: "handle option"
  connectPending :: bool
  ev_signalled :: bool
  connectEvent :: bool
  srv_running :: bool
  srv_stop :: bool
  exited :: bool
  joinable :: bool
  opened :: "handle list"
  closed :: "handle list"
  handled :: "bytes list"

definition srv_new :: ipc_server where
  "srv_new = \<lparr>pipes = [], nextPipe = None, connectPending = False, ev_signalled = False, connectEvent = False, srv_running = False,
     srv_stop = False, exited = False, joinable = True, opened = [], closed = [], handled = []\<rparr>"

text \<open>\<open>CloseHandle\<close>, of a pipe that may be invalid.\<close>

definition close_pipe :: "handle option \<Rightarrow> ipc_server \<Rightarrow> ipc_server" where
  "close_pipe h s = (case h of None \<Rightarrow> s | Some x \<Rightarrow> s\<lparr>closed := closed s @ [x]\<rparr>)"

section \<open>Operations\<close>

definition CreatePipeInstance :: "handle option \<Rightarrow> ipc_server \<Rightarrow> ipc_server" where
  "CreatePipeInstance pipe s = s\<lparr>pipes := pipes s @ [\<lparr>pi_pipe = pipe, pi_phase = Writing\<rparr>]\<rparr>"

definition ClosePipeInstance :: "nat \<Rightarrow> ipc_server \<Rightarrow> ipc_server" where
  "ClosePipeInstance k s =
     (close_pipe (pi_pipe (pipes s ! k)) s)\<lparr>pipes := take k (pipes s) @ drop (Suc k) (pipes s)\<rparr>"

text \<open>What creating and connecting the next pipe meets.\<close>

datatype connect_outcome = Create_failed | Io_pending | Pipe_connected bool | Connect_failed

text \<open>
  \<open>ConnectNamedPipe\<close> resets the event before it starts. With a client already there the event is set by hand, and the
  argument says whether that succeeded. A fresh handle is the next number.
\<close>

definition CreateAndConnectInstance :: "connect_outcome \<Rightarrow> ipc_server \<Rightarrow> ipc_server" where
  "CreateAndConnectInstance out s =
     (let h = length (opened s);
          s1 = s\<lparr>opened := opened s @ [h], nextPipe := Some h, ev_signalled := False\<rparr>;
          failed = (close_pipe (Some h) s1)\<lparr>nextPipe := None, connectPending := False\<rparr>
      in case out of
          Create_failed \<Rightarrow> s\<lparr>nextPipe := None, connectPending := False\<rparr>
        | Io_pending \<Rightarrow> s1\<lparr>connectPending := True\<rparr>
        | Pipe_connected set_ok \<Rightarrow> if set_ok then s1\<lparr>ev_signalled := True, connectPending := False\<rparr> else failed
        | Connect_failed \<Rightarrow> failed)"

text \<open>
  The completion routines of instance \<open>k\<close>: \<open>err\<close> and \<open>bytes\<close> are what the system reports, \<open>started\<close> whether the next overlapped operation
  could be started; \<open>rq\<close> and \<open>rs\<close> are the sizes of a request and a response.
\<close>

definition CompletedWriteCallback :: "nat \<Rightarrow> nat \<Rightarrow> nat \<Rightarrow> nat \<Rightarrow> bool \<Rightarrow> ipc_server \<Rightarrow> ipc_server" where
  "CompletedWriteCallback rs k err bytesWritten started s =
     (if err = 0 \<and> bytesWritten = rs \<and> started
      then s\<lparr>pipes := upd_list k (\<lambda>p. p\<lparr>pi_phase := Reading\<rparr>) (pipes s)\<rparr>
      else ClosePipeInstance k s)"

definition CompletedReadCallback :: "nat \<Rightarrow> nat \<Rightarrow> nat \<Rightarrow> bytes \<Rightarrow> bool \<Rightarrow> ipc_server \<Rightarrow> ipc_server" where
  "CompletedReadCallback rq k err request started s =
     (if err = 0 \<and> length request = rq
      then
        let s1 = s\<lparr>handled := handled s @ [request]\<rparr>
        in if started then s1\<lparr>pipes := upd_list k (\<lambda>p. p\<lparr>pi_phase := Writing\<rparr>) (pipes s1)\<rparr> else ClosePipeInstance k s1
      else ClosePipeInstance k s)"

text \<open>The destructor of the thread guard: every instance is closed, then the event.\<close>

fun close_all :: "PipeInstance list \<Rightarrow> ipc_server \<Rightarrow> ipc_server" where
  "close_all [] s = s"
| "close_all (p # ps) s = close_all ps (close_pipe (pi_pipe p) s)"

definition thread_exit :: "ipc_server \<Rightarrow> ipc_server" where
  "thread_exit s = (close_all (pipes s) (s\<lparr>pipes := []\<rparr>))\<lparr>srv_running := False, connectEvent := False, exited := True\<rparr>"

text \<open>The start of the thread: the event is created signalled; without it the thread ends.\<close>

definition RunThread_begin :: "bool \<Rightarrow> connect_outcome \<Rightarrow> ipc_server \<Rightarrow> ipc_server" where
  "RunThread_begin event_ok out s =
     (let s1 = s\<lparr>srv_running := True\<rparr>
      in if \<not> event_ok then thread_exit s1
         else CreateAndConnectInstance out (s1\<lparr>connectEvent := True, ev_signalled := True\<rparr>))"

text \<open>
  One round of the loop after the wait: the event was signalled, a completion routine ran, or the wait failed. For a signalled event, \<open>overlapped\<close> says whether
  \<open>GetOverlappedResult\<close> succeeded, \<open>started\<close> whether the first read on the new instance could be started.
\<close>

datatype wait_result = Wait_event bool bool connect_outcome | Wait_io | Wait_failed

definition RunThread_round :: "nat \<Rightarrow> wait_result \<Rightarrow> ipc_server \<Rightarrow> ipc_server" where
  "RunThread_round rs w s =
     (if srv_stop s then thread_exit s
      else case w of
          Wait_event overlapped started out \<Rightarrow>
            if connectPending s \<and> \<not> overlapped
            then thread_exit ((close_pipe (nextPipe s) s)\<lparr>nextPipe := None\<rparr>)
            else
              let s1 = CreatePipeInstance (nextPipe s) s;
                  s2 = CompletedWriteCallback rs (length (pipes s)) 0 rs (started \<and> nextPipe s \<noteq> None) s1
              in CreateAndConnectInstance out s2
        | Wait_io \<Rightarrow> s
        | Wait_failed \<Rightarrow> thread_exit s)"

text \<open>\<open>Stop\<close> raises the flag and wakes the loop, unless the thread has been joined already; it then waits for the thread to end.\<close>

definition IPCServer_Stop :: "ipc_server \<Rightarrow> ipc_server" where
  "IPCServer_Stop s =
     (if joinable s then s\<lparr>srv_stop := True, ev_signalled := (if connectEvent s then True else ev_signalled s)\<rparr> else s)"

definition Stop_join :: "ipc_server \<Rightarrow> ipc_server" where
  "Stop_join s = s\<lparr>joinable := False\<rparr>"


section \<open>Every interleaving of the thread, its completion routines and \<open>Stop\<close>\<close>

inductive srv_step :: "nat \<Rightarrow> nat \<Rightarrow> ipc_server \<Rightarrow> ipc_server \<Rightarrow> bool" for rq rs where
  Begin: "\<not> srv_running s \<Longrightarrow> \<not> exited s \<Longrightarrow> srv_step rq rs s (RunThread_begin event_ok out s)"
| Round: "srv_running s \<Longrightarrow> (case w of Wait_event _ _ _ \<Rightarrow> ev_signalled s | _ \<Rightarrow> True) \<Longrightarrow> srv_step rq rs s (RunThread_round rs w s)"
| Read: "srv_running s \<Longrightarrow> k < length (pipes s) \<Longrightarrow> pi_phase (pipes s ! k) = Reading \<Longrightarrow>
    srv_step rq rs s (CompletedReadCallback rq k err request started s)"
| Write: "srv_running s \<Longrightarrow> k < length (pipes s) \<Longrightarrow> pi_phase (pipes s ! k) = Writing \<Longrightarrow>
    srv_step rq rs s (CompletedWriteCallback rs k err n started s)"
| Stop: "srv_step rq rs s (IPCServer_Stop s)"
| Join: "joinable s \<Longrightarrow> srv_stop s \<Longrightarrow> exited s \<Longrightarrow> srv_step rq rs s (Stop_join s)"

inductive_cases srv_stepE: "srv_step rq rs s s'"

text \<open>The handles of the instances and of the listening pipe.\<close>

fun opt_mset :: "'a option \<Rightarrow> 'a multiset" where
  "opt_mset None = {#}"
| "opt_mset (Some x) = {#x#}"

definition pipe_handles :: "PipeInstance list \<Rightarrow> handle multiset" where
  "pipe_handles ps = sum_list (map (\<lambda>p. opt_mset (pi_pipe p)) ps)"

lemma pipe_handles_simps [simp]:
  "pipe_handles [] = {#}" "pipe_handles (p # ps) = opt_mset (pi_pipe p) + pipe_handles ps"
  "pipe_handles (ps @ qs) = pipe_handles ps + pipe_handles qs"
  by (simp_all add: pipe_handles_def)

text \<open>
  Every handle opened is closed, held by an instance, or listening, and once each; a thread that has not begun or has ended
  holds no instance.
\<close>

definition srv_inv :: "ipc_server \<Rightarrow> bool" where
  "srv_inv s \<longleftrightarrow>
     opened s = [0..<length (opened s)] \<and>
     mset (opened s) = mset (closed s) + pipe_handles (pipes s) + opt_mset (nextPipe s) \<and>
     (\<not> srv_running s \<longrightarrow> pipes s = []) \<and> (\<not> srv_running s \<and> \<not> exited s \<longrightarrow> nextPipe s = None)"

lemma closed_close_pipe [simp]: "mset (closed (close_pipe h s)) = mset (closed s) + opt_mset h"
  by (cases h) (simp_all add: close_pipe_def)

lemma close_pipe_frame [simp]:
  "opened (close_pipe h s) = opened s" "pipes (close_pipe h s) = pipes s" "nextPipe (close_pipe h s) = nextPipe s"
  "srv_running (close_pipe h s) = srv_running s" "exited (close_pipe h s) = exited s" "srv_stop (close_pipe h s) = srv_stop s"
  "connectPending (close_pipe h s) = connectPending s" "ev_signalled (close_pipe h s) = ev_signalled s"
  by (cases h; simp add: close_pipe_def)+

lemma pipe_handles_nth:
  assumes "k < length ps"
  shows "pipe_handles ps = opt_mset (pi_pipe (ps ! k)) + pipe_handles (take k ps @ drop (Suc k) ps)"
  by (subst id_take_nth_drop [OF assms]) (simp add: ac_simps)

lemma pipe_handles_phase: "pipe_handles (upd_list k (\<lambda>p. p\<lparr>pi_phase := x\<rparr>) ps) = pipe_handles ps"
proof -
  have "map (\<lambda>p. opt_mset (pi_pipe p)) (upd_list k (\<lambda>p. p\<lparr>pi_phase := x\<rparr>) ps) = map (\<lambda>p. opt_mset (pi_pipe p)) ps"
    by (rule nth_equalityI) (auto simp: nth_upd_list)
  then show ?thesis by (simp add: pipe_handles_def)
qed

lemma ClosePipeInstance_inv: "srv_inv s \<Longrightarrow> srv_running s \<Longrightarrow> k < length (pipes s) \<Longrightarrow> srv_inv (ClosePipeInstance k s)"
  using pipe_handles_nth [of k "pipes s"] by (simp add: srv_inv_def ClosePipeInstance_def ac_simps)

lemma CompletedWrite_inv:
  "srv_inv s \<Longrightarrow> srv_running s \<Longrightarrow> k < length (pipes s) \<Longrightarrow> srv_inv (CompletedWriteCallback rs k err n started s)"
  using ClosePipeInstance_inv by (auto simp: CompletedWriteCallback_def srv_inv_def pipe_handles_phase)

lemma CompletedRead_inv:
  assumes "srv_inv s" "srv_running s" "k < length (pipes s)"
  shows "srv_inv (CompletedReadCallback rq k err request started s)"
proof -
  have "srv_inv (s\<lparr>handled := handled s @ [request]\<rparr>)" using assms(1) by (simp add: srv_inv_def)
  then show ?thesis
    using assms ClosePipeInstance_inv [of s k] ClosePipeInstance_inv [of "s\<lparr>handled := handled s @ [request]\<rparr>" k]
    by (auto simp: CompletedReadCallback_def Let_def srv_inv_def pipe_handles_phase)
qed

text \<open>Before the next pipe is created the listening handle has changed hands.\<close>

lemma CreateAndConnect_inv:
  assumes "srv_inv (s\<lparr>nextPipe := None\<rparr>)" "srv_running s"
  shows "srv_inv (CreateAndConnectInstance out s)"
proof -
  have "opened s = [0..<length (opened s)]" "mset (opened s) = mset (closed s) + pipe_handles (pipes s)"
    using assms by (simp_all add: srv_inv_def)
  then show ?thesis using assms(2)
    by (auto simp: srv_inv_def CreateAndConnectInstance_def Let_def split: connect_outcome.split)
qed

lemma closed_close_all [simp]: "mset (closed (close_all ps s)) = mset (closed s) + pipe_handles ps"
  by (induction ps arbitrary: s) (simp_all add: ac_simps)

lemma close_all_frame [simp]:
  "opened (close_all ps s) = opened s" "nextPipe (close_all ps s) = nextPipe s" "pipes (close_all ps s) = pipes s"
  by (induction ps arbitrary: s) simp_all

lemma thread_exit_inv: "srv_inv s \<Longrightarrow> srv_inv (thread_exit s)"
  by (simp add: srv_inv_def thread_exit_def)


lemma RunThread_round_inv:
  assumes "srv_inv s" "srv_running s"
  shows "srv_inv (RunThread_round rs w s)"
proof (cases "srv_stop s")
  case True
  then show ?thesis using thread_exit_inv [OF assms(1)] by (simp add: RunThread_round_def)
next
  case False
  show ?thesis
  proof (cases w)
    case (Wait_event overlapped started out)
    show ?thesis
    proof (cases "connectPending s \<and> \<not> overlapped")
      case True
      have "srv_inv ((close_pipe (nextPipe s) s)\<lparr>nextPipe := None\<rparr>)" using assms by (simp add: srv_inv_def ac_simps)
      then show ?thesis using True False thread_exit_inv by (simp add: RunThread_round_def Wait_event)
    next
      case go: False
      let ?s1 = "CreatePipeInstance (nextPipe s) s"
      let ?w = "\<lambda>s. CompletedWriteCallback rs (length (pipes (s :: ipc_server))) 0 rs (started \<and> nextPipe s \<noteq> None)"
      have "srv_inv (?s1\<lparr>nextPipe := None\<rparr>)" using assms by (simp add: srv_inv_def CreatePipeInstance_def ac_simps)
      then have "srv_inv (?w s (?s1\<lparr>nextPipe := None\<rparr>))"
        by (rule CompletedWrite_inv) (use assms in \<open>simp_all add: CreatePipeInstance_def\<close>)
      moreover have "?w s (?s1\<lparr>nextPipe := None\<rparr>) = (?w s ?s1)\<lparr>nextPipe := None\<rparr>"
        by (cases "pi_pipe (pipes ?s1 ! length (pipes s))") (auto simp: CompletedWriteCallback_def ClosePipeInstance_def close_pipe_def)
      moreover have "srv_running (?w s ?s1)"
        using assms(2) by (simp add: CompletedWriteCallback_def ClosePipeInstance_def CreatePipeInstance_def)
      moreover have "RunThread_round rs w s = CreateAndConnectInstance out (?w s ?s1)"
        using go False by (auto simp: RunThread_round_def Wait_event Let_def)
      ultimately show ?thesis using CreateAndConnect_inv [of "?w s ?s1" out] by simp
    qed
  qed (use assms False thread_exit_inv in \<open>simp_all add: RunThread_round_def\<close>)
qed

lemma srv_step_inv:
  assumes "srv_step rq rs s s'" "srv_inv s"
  shows "srv_inv s'"
  using assms(1)
proof cases
  case (Begin event_ok out)
  then have "srv_inv (s\<lparr>srv_running := True\<rparr>)" "srv_inv (s\<lparr>srv_running := True, connectEvent := True, ev_signalled := True, nextPipe := None\<rparr>)"
    using assms(2) by (simp_all add: srv_inv_def)
  moreover have "nextPipe s = None" using Begin assms(2) by (simp add: srv_inv_def)
  ultimately show ?thesis using Begin(1) thread_exit_inv
      CreateAndConnect_inv [of "s\<lparr>srv_running := True, connectEvent := True, ev_signalled := True\<rparr>" out]
    by (simp add: RunThread_begin_def Let_def)
next
  case (Round w)
  then show ?thesis using RunThread_round_inv assms(2) by blast
next
  case (Read k err request started)
  then show ?thesis using CompletedRead_inv assms(2) by blast
next
  case (Write k err n started)
  then show ?thesis using CompletedWrite_inv assms(2) by blast
next
  case Stop
  then show ?thesis using assms(2) by (simp add: IPCServer_Stop_def srv_inv_def)
next
  case Join
  then show ?thesis using assms(2) by (simp add: Stop_join_def srv_inv_def)
qed

lemma srv_reach_inv: "(srv_step rq rs)\<^sup>*\<^sup>* srv_new s \<Longrightarrow> srv_inv s"
  by (induction rule: rtranclp_induct) (auto simp: srv_step_inv, simp add: srv_inv_def srv_new_def)

text \<open>Only the event of \<open>Stop\<close> is left to a thread that has ended.\<close>

lemma exited_frozen:
  assumes "(srv_step rq rs)\<^sup>*\<^sup>* s s'" "exited s" "\<not> srv_running s"
  shows "exited s' \<and> \<not> srv_running s' \<and> closed s' = closed s \<and> nextPipe s' = nextPipe s \<and> opened s' = opened s"
  using assms
proof (induction rule: rtranclp_induct)
  case (step y z)
  then show ?case by (auto elim!: srv_stepE simp: IPCServer_Stop_def Stop_join_def split: if_splits)
qed simp

section \<open>Properties\<close>

text \<open>C28. The server accounts for its pipe handles. In every interleaving of connections, completion routines, failures and
  \<open>Stop\<close>, no handle is closed twice, none that was not opened is closed, and the handles still open are exactly those of
  the connected clients and of the listening pipe.\<close>

theorem pipe_handles_accounted:
  assumes "(srv_step rq rs)\<^sup>*\<^sup>* srv_new s"
  shows "distinct (closed s) \<and> set (closed s) \<subseteq> set (opened s) \<and>
    set (opened s) - set (closed s) = set_mset (pipe_handles (pipes s)) \<union> set_mset (opt_mset (nextPipe s)) \<and>
    (exited s \<and> \<not> srv_running s \<longrightarrow> pipes s = [])"
proof -
  have inv: "srv_inv s" by (rule srv_reach_inv [OF assms])
  have e: "mset (opened s) = mset (closed s) + pipe_handles (pipes s) + opt_mset (nextPipe s)" using inv by (simp add: srv_inv_def)
  have d: "distinct (opened s)" using inv unfolding srv_inv_def by (metis distinct_upt)
  have le: "count (mset (closed s)) x + count (pipe_handles (pipes s)) x + count (opt_mset (nextPipe s)) x \<le> 1" for x
  proof -
    have "count (mset (opened s)) x \<le> 1" using d by (simp add: distinct_count_atmost_1)
    then show ?thesis unfolding e by simp
  qed
  have "distinct (closed s)"
    unfolding distinct_count_atmost_1
  proof
    fix a
    have "count (mset (closed s)) a \<le> 1" using le [of a] by linarith
    then have "count (mset (closed s)) a = 0 \<or> count (mset (closed s)) a = 1" by linarith
    then show "count (mset (closed s)) a = (if a \<in> set (closed s) then 1 else 0)"
      using count_greater_zero_iff [of "mset (closed s)" a] by auto
  qed
  moreover have "set (opened s) = set (closed s) \<union> set_mset (pipe_handles (pipes s)) \<union> set_mset (opt_mset (nextPipe s))"
    using arg_cong [OF e, of set_mset] by simp
  moreover have "x \<notin> set (closed s)" if "x \<in># pipe_handles (pipes s) \<or> x \<in># opt_mset (nextPipe s)" for x
  proof -
    have "0 < count (pipe_handles (pipes s)) x + count (opt_mset (nextPipe s)) x" using that by auto
    then have "count (mset (closed s)) x = 0" using le [of x] by linarith
    then show ?thesis by simp
  qed
  ultimately show ?thesis using inv by (auto simp: srv_inv_def)
qed


text \<open>The thread begins to listen, is told to stop, and ends.\<close>

definition listening :: ipc_server where "listening = RunThread_begin True Io_pending srv_new"
definition told :: ipc_server where "told = IPCServer_Stop listening"
definition ended :: ipc_server where "ended = RunThread_round 8 Wait_io told"

lemmas run_defs = listening_def told_def ended_def RunThread_begin_def CreateAndConnectInstance_def IPCServer_Stop_def RunThread_round_def
  thread_exit_def srv_new_def Let_def

lemma told_state: "srv_running told" "srv_stop told" "nextPipe told = Some 0"
  by (simp_all add: run_defs)

lemma told_reach: "(srv_step 8 8)\<^sup>*\<^sup>* srv_new told"
proof -
  have "srv_step 8 8 srv_new listening" unfolding listening_def by (rule srv_step.Begin) (simp_all add: srv_new_def)
  moreover have "srv_step 8 8 listening told" unfolding told_def by (rule srv_step.Stop)
  ultimately show ?thesis by (meson rtranclp.rtrancl_into_rtrancl rtranclp.rtrancl_refl)
qed

lemma ended_reach: "(srv_step 8 8)\<^sup>*\<^sup>* srv_new ended"
proof -
  have "srv_step 8 8 told ended" unfolding ended_def by (rule srv_step.Round) (simp_all add: told_state)
  then show ?thesis using told_reach by (meson rtranclp.rtrancl_into_rtrancl)
qed

theorem pipe_handles_accounted_witness:
  "distinct (closed ended) \<and> 0 \<in> set (opened ended) - set (closed ended)"
  using pipe_handles_accounted [OF ended_reach] by (simp add: run_defs)

text \<open>C29. Stopping a server that is waiting for a client leaks its listening pipe: the thread ends without closing it, and no
  later step does.\<close>

theorem Stop_leaks_listening_pipe:
  assumes "(srv_step rq rs)\<^sup>*\<^sup>* srv_new s" "srv_running s" "srv_stop s" "nextPipe s = Some h"
    and "(srv_step rq rs)\<^sup>*\<^sup>* (RunThread_round rs w s) s'"
  shows "exited s' \<and> pipes (RunThread_round rs w s) = [] \<and> h \<in> set (opened s') \<and> h \<notin> set (closed s')"
proof -
  let ?r = "RunThread_round rs w s"
  have r: "?r = thread_exit s" using assms(3) by (simp add: RunThread_round_def)
  have e: "exited ?r" "\<not> srv_running ?r" "nextPipe ?r = Some h" "pipes ?r = []"
    using assms(4) by (simp_all add: r thread_exit_def)
  have inv: "srv_inv ?r" using RunThread_round_inv [OF srv_reach_inv [OF assms(1)] assms(2)] .
  have "mset (opened ?r) = mset (closed ?r) + {#h#}" "distinct (opened ?r)"
    using inv e unfolding srv_inv_def by (simp_all, metis distinct_upt)
  then have "h \<in> set (opened ?r) \<and> h \<notin> set (closed ?r)"
    by (metis add_mset_add_single distinct.simps(2) list.set_intros(1) mset.simps(2) mset_eq_imp_distinct_iff mset_eq_setD)
  then show ?thesis using exited_frozen [OF assms(5) e(1,2)] e by simp
qed

theorem Stop_leaks_listening_pipe_witness:
  "exited ended \<and> 0 \<in> set (opened ended) \<and> 0 \<notin> set (closed ended)"
  using Stop_leaks_listening_pipe [OF told_reach told_state rtranclp.rtrancl_refl, of Wait_io] by (simp add: ended_def)

text \<open>A server that cannot create its pipe spins: as long as \<open>CreateNamedPipe\<close> fails the event it waits for stays signalled, so every
  wait returns at once, and each round treats the invalid handle as a connected client and drops it again.\<close>

theorem create_failure_spins:
  assumes "s = RunThread_begin True Create_failed srv_new"
  shows "ev_signalled s \<and> ((\<lambda>s. RunThread_round rs (Wait_event overlapped started Create_failed) s) ^^ n) s = s"
proof -
  have "RunThread_round rs (Wait_event overlapped started Create_failed) s = s"
    by (simp add: assms RunThread_begin_def CreateAndConnectInstance_def RunThread_round_def Let_def srv_new_def CreatePipeInstance_def
        CompletedWriteCallback_def ClosePipeInstance_def close_pipe_def)
  then have "((\<lambda>s. RunThread_round rs (Wait_event overlapped started Create_failed) s) ^^ n) s = s" by (induction n) simp_all
  moreover have "ev_signalled s" by (simp add: assms RunThread_begin_def CreateAndConnectInstance_def Let_def srv_new_def)
  ultimately show ?thesis by blast
qed

theorem create_failure_spins_witness:
  "let s = RunThread_begin True Create_failed srv_new
   in ev_signalled s \<and> ((\<lambda>s. RunThread_round 8 (Wait_event True True Create_failed) s) ^^ 1000000) s = s"
  unfolding Let_def by (rule create_failure_spins [OF refl])

end
