(* ===== verification/IpcQueue.thy ===== *)
theory IpcQueue
  imports SendQueue
begin

text \<open>
  The overlay's asynchronous request sender (\<open>core/src/overlay/IpcSendQueue.cpp\<close>): a bounded queue that any thread fills, with entries of
  equal key replaced by the newest, and one worker that takes and sends them. Sending is an input: it succeeds or
  throws.
\<close>

section \<open>State\<close>

definition kMaxQueue :: nat where "kMaxQueue = 256"

type_synonym 'r Entry = "'r \<times> string"

datatype 'r queue_worker = No_worker | Waiting | Holding "'r Entry"

record Status =
  st_connected :: bool
  queueDepth :: u32
  st_sent :: u64
  st_sendFailures :: u64
  st_coalesced :: u64
  st_dropped :: u64
  st_connectionGeneration :: u64

text \<open>
  The last four fields are a history: the calls of \<open>Enqueue\<close>, the entries accepted (a replaced one included), the entries taken by the worker, and
  the number that \<open>Stop\<close> discarded.
\<close>

record 'r ipc_queue =
  entries :: "'r Entry list"
  q_stop :: bool
  q_started :: bool
  q_worker :: "'r queue_worker"
  q_status :: Status
  enq_calls :: nat
  accepted :: "'r Entry list"
  taken :: "'r Entry list"
  discarded :: nat

definition no_status :: Status where
  "no_status = \<lparr>st_connected = False, queueDepth = 0, st_sent = 0, st_sendFailures = 0, st_coalesced = 0, st_dropped = 0, st_connectionGeneration = 0\<rparr>"

definition q_new :: "'r ipc_queue" where
  "q_new = \<lparr>entries = [], q_stop = False, q_started = False, q_worker = No_worker, q_status = no_status, enq_calls = 0,
     accepted = [], taken = [], discarded = 0\<rparr>"

section \<open>Operations\<close>

definition Queue_Start :: "'r ipc_queue \<Rightarrow> 'r ipc_queue" where
  "Queue_Start s =
     (if q_started s then s
      else s\<lparr>q_stop := False, q_status := no_status, q_started := True, q_worker := Waiting,
             enq_calls := 0, accepted := [], taken := [], discarded := 0\<rparr>)"

text \<open>\<open>Stop\<close> up to the join, and behind it.\<close>

definition Stop_begin :: "'r ipc_queue \<Rightarrow> 'r ipc_queue" where
  "Stop_begin s =
     (if \<not> q_started s then s
      else s\<lparr>q_stop := True, discarded := discarded s + length (entries s), entries := [], q_status := (q_status s)\<lparr>queueDepth := 0\<rparr>\<rparr>)"

definition Stop_end :: "'r ipc_queue \<Rightarrow> 'r ipc_queue" where
  "Stop_end s = s\<lparr>q_started := False\<rparr>"

definition Queue_IsRunning :: "'r ipc_queue \<Rightarrow> bool" where
  "Queue_IsRunning s \<longleftrightarrow> q_started s \<and> \<not> q_stop s"

text \<open>The search for an entry with the same key, which is overwritten in place.\<close>

fun coalesce :: "string \<Rightarrow> 'r \<Rightarrow> 'r Entry list \<Rightarrow> 'r Entry list option" where
  "coalesce k r [] = None"
| "coalesce k r (e # es) = (if snd e = k then Some ((r, k) # es) else map_option ((#) e) (coalesce k r es))"

definition Enqueue :: "'r \<Rightarrow> string \<Rightarrow> 'r ipc_queue \<Rightarrow> 'r ipc_queue" where
  "Enqueue r k s =
     (let s0 = s\<lparr>enq_calls := enq_calls s + 1\<rparr>;
          st = q_status s;
          refused = s0\<lparr>q_status := st\<lparr>st_dropped := st_dropped st + 1\<rparr>\<rparr>
      in if \<not> q_started s \<or> q_stop s then refused
         else case (if k \<noteq> [] then coalesce k r (entries s) else None) of
             Some es \<Rightarrow> s0\<lparr>entries := es, q_status := st\<lparr>st_coalesced := st_coalesced st + 1\<rparr>, accepted := accepted s @ [(r, k)]\<rparr>
           | None \<Rightarrow>
               if length (entries s) \<ge> kMaxQueue then refused
               else s0\<lparr>entries := entries s @ [(r, k)], q_status := st\<lparr>queueDepth := word_of_nat (Suc (length (entries s)))\<rparr>,
                       accepted := accepted s @ [(r, k)]\<rparr>)"

definition GetStatus :: "'r ipc_queue \<Rightarrow> Status" where
  "GetStatus s = q_status s"

text \<open>The worker takes the front entry, or ends when told to stop; then it sends what it holds.\<close>

definition Run_take :: "'r ipc_queue \<Rightarrow> 'r ipc_queue" where
  "Run_take s =
     (if q_stop s then s\<lparr>q_worker := No_worker\<rparr>
      else case entries s of
          [] \<Rightarrow> s
        | e # es \<Rightarrow> s\<lparr>entries := es, q_worker := Holding e, taken := taken s @ [e],
                      q_status := (q_status s)\<lparr>queueDepth := word_of_nat (length es)\<rparr>\<rparr>)"

definition Run_send :: "bool \<Rightarrow> bool \<Rightarrow> u64 \<Rightarrow> 'r ipc_queue \<Rightarrow> 'r ipc_queue" where
  "Run_send ok connected generation s =
     (let st = q_status s;
          st' = (if ok then st\<lparr>st_sent := st_sent st + 1, st_connected := True\<rparr>
                 else st\<lparr>st_sendFailures := st_sendFailures st + 1, st_connected := connected\<rparr>)
      in s\<lparr>q_status := st'\<lparr>st_connectionGeneration := generation\<rparr>, q_worker := Waiting\<rparr>)"

section \<open>Every interleaving of the callers and the worker\<close>

inductive q_step :: "'r ipc_queue \<Rightarrow> 'r ipc_queue \<Rightarrow> bool" where
  Start: "q_worker s = No_worker \<Longrightarrow> q_step s (Queue_Start s)"
| Stop_begin: "q_step s (Stop_begin s)"
| Stop_end: "q_stop s \<Longrightarrow> q_worker s = No_worker \<Longrightarrow> q_step s (Stop_end s)"
| Enqueue: "q_step s (Enqueue r k s)"
| Take: "q_worker s = Waiting \<Longrightarrow> q_step s (Run_take s)"
| Send: "q_worker s = Holding e \<Longrightarrow> q_step s (Run_send ok connected generation s)"

inductive_cases q_stepE: "q_step s s'"

text \<open>The newest value of a key.\<close>

definition newest :: "string \<Rightarrow> 'r Entry list \<Rightarrow> 'r option" where
  "newest k es = (let ys = filter (\<lambda>e. snd e = k) es in if ys = [] then None else Some (fst (last ys)))"

definition unkeyed :: "'r Entry list \<Rightarrow> 'r Entry list" where
  "unkeyed es = filter (\<lambda>e. snd e = []) es"

definition keys_distinct :: "'r Entry list \<Rightarrow> bool" where
  "keys_distinct es \<longleftrightarrow> distinct (filter (\<lambda>k. k \<noteq> []) (map snd es))"

definition in_hand :: "'r queue_worker \<Rightarrow> nat" where
  "in_hand w = (case w of Holding _ \<Rightarrow> 1 | _ \<Rightarrow> 0)"

definition q_inv :: "'r ipc_queue \<Rightarrow> bool" where
  "q_inv s \<longleftrightarrow>
     length (entries s) \<le> kMaxQueue \<and> keys_distinct (entries s) \<and> queueDepth (q_status s) = word_of_nat (length (entries s)) \<and>
     (q_started s \<and> \<not> q_stop s \<longrightarrow>
        (\<forall>k. k \<noteq> [] \<longrightarrow> newest k (taken s @ entries s) = newest k (accepted s)) \<and>
        unkeyed (taken s @ entries s) = unkeyed (accepted s)) \<and>
     (q_started s \<longrightarrow>
        word_of_nat (enq_calls s) = st_sent (q_status s) + st_sendFailures (q_status s) + st_coalesced (q_status s) + st_dropped (q_status s) +
          word_of_nat (length (entries s) + in_hand (q_worker s) + discarded s))"

lemma coalesce_None: "coalesce k r es = None \<longleftrightarrow> k \<notin> snd ` set es"
  by (induction es) auto

lemma coalesce_keys: "coalesce k r es = Some es' \<Longrightarrow> map snd es' = map snd es"
  by (induction es arbitrary: es') (auto split: if_splits)

lemma coalesce_other: "coalesce k r es = Some es' \<Longrightarrow> j \<noteq> k \<Longrightarrow> filter (\<lambda>e. snd e = j) es' = filter (\<lambda>e. snd e = j) es"
  by (induction es arbitrary: es') (auto split: if_splits)

lemma coalesce_filter:
  assumes "coalesce k r es = Some es'" "keys_distinct es" "k \<noteq> []"
  shows "filter (\<lambda>e. snd e = k) es' = [(r, k)]"
  using assms
proof (induction es arbitrary: es')
  case (Cons e es)
  show ?case
  proof (cases "snd e = k")
    case True
    then have "k \<notin> snd ` set es" using Cons.prems(2,3) by (auto simp: keys_distinct_def)
    then have "filter (\<lambda>e. snd e = k) es = []" by (auto simp: filter_empty_conv)
    then show ?thesis using True Cons.prems(1) by auto
  next
    case False
    then show ?thesis using Cons by (auto simp: keys_distinct_def split: if_splits)
  qed
qed simp

lemma newest_append:
  "newest k (xs @ [(r, j)]) = (if j = k then Some r else newest k xs)"
  by (simp add: newest_def Let_def)

lemma newest_coalesced:
  assumes "coalesce k r es = Some es'" "keys_distinct es" "k \<noteq> []"
  shows "newest j (xs @ es') = (if j = k then Some r else newest j (xs @ es))"
  using coalesce_filter [OF assms] coalesce_other [OF assms(1), of j] by (simp add: newest_def Let_def)


section \<open>The invariant\<close>

lemma q_inv_new: "q_inv q_new"
  by (simp add: q_inv_def q_new_def no_status_def keys_distinct_def)

lemma Queue_Start_inv: "q_inv s \<Longrightarrow> q_worker s = No_worker \<Longrightarrow> (\<not> q_started s \<longrightarrow> entries s = []) \<Longrightarrow> q_inv (Queue_Start s)"
  by (simp add: q_inv_def Queue_Start_def no_status_def keys_distinct_def newest_def unkeyed_def in_hand_def)

lemma Stop_begin_inv: "q_inv s \<Longrightarrow> q_inv (Stop_begin s)"
  by (simp add: q_inv_def Stop_begin_def keys_distinct_def ac_simps)

lemma refused_inv:
  assumes "q_inv s"
  shows "q_inv (s\<lparr>enq_calls := Suc (enq_calls s), q_status := (q_status s)\<lparr>st_dropped := st_dropped (q_status s) + 1\<rparr>\<rparr>)"
  using assms by (auto simp: q_inv_def ac_simps)

lemma Enqueue_inv:
  assumes "q_inv s"
  shows "q_inv (Enqueue r k s)"
proof (cases "\<not> q_started s \<or> q_stop s")
  case True
  then show ?thesis using refused_inv [OF assms] by (simp add: Enqueue_def Let_def)
next
  case run: False
  then have i: "length (entries s) \<le> kMaxQueue" "keys_distinct (entries s)" "queueDepth (q_status s) = word_of_nat (length (entries s))"
    "\<And>k. k \<noteq> [] \<Longrightarrow> newest k (taken s @ entries s) = newest k (accepted s)" "unkeyed (taken s @ entries s) = unkeyed (accepted s)"
    using assms by (simp_all add: q_inv_def)
  show ?thesis
  proof (cases "if k \<noteq> [] then coalesce k r (entries s) else None")
    case None
    have fresh: "k \<noteq> [] \<Longrightarrow> k \<notin> snd ` set (entries s)" using None by (simp add: coalesce_None)
    show ?thesis
    proof (cases "length (entries s) \<ge> kMaxQueue")
      case True
      then show ?thesis using refused_inv [OF assms] None run by (simp add: Enqueue_def Let_def)
    next
      case room: False
      have "keys_distinct (entries s @ [(r, k)])" using i(2) fresh by (auto simp: keys_distinct_def)
      moreover have "newest j (taken s @ entries s @ [(r, k)]) = newest j (accepted s @ [(r, k)])" if "j \<noteq> []" for j
        using i(4) [OF that] newest_append [of j "taken s @ entries s" r k] by (simp add: newest_append)
      moreover have "unkeyed (taken s @ entries s @ [(r, k)]) = unkeyed (accepted s @ [(r, k)])" using i(5) by (simp add: unkeyed_def)
      ultimately show ?thesis using assms None run room i(1) by (auto simp: Enqueue_def Let_def q_inv_def kMaxQueue_def ac_simps)
    qed
  next
    case (Some es)
    then have k: "k \<noteq> []" "coalesce k r (entries s) = Some es" by (auto split: if_splits)
    have "map snd es = map snd (entries s)" by (rule coalesce_keys [OF k(2)])
    then have l: "length es = length (entries s)" "keys_distinct es" using i(2) by (metis length_map, simp add: keys_distinct_def)
    have "newest j (taken s @ es) = newest j (accepted s @ [(r, k)])" if "j \<noteq> []" for j
      using newest_coalesced [OF k(2) i(2) k(1)] i(4) [OF that] by (auto simp: newest_append)
    moreover have "unkeyed (taken s @ es) = unkeyed (accepted s @ [(r, k)])"
      using i(5) k(1) coalesce_other [OF k(2), of "[]"] by (simp add: unkeyed_def)
    ultimately show ?thesis using assms Some run i l by (auto simp: Enqueue_def Let_def q_inv_def ac_simps)
  qed
qed

lemma Run_take_inv:
  assumes "q_inv s" "q_worker s = Waiting"
  shows "q_inv (Run_take s)"
proof (cases "entries s")
  case Nil
  then show ?thesis using assms by (auto simp: q_inv_def Run_take_def in_hand_def)
next
  case (Cons e es)
  then have "keys_distinct es" using assms(1) by (auto simp: q_inv_def keys_distinct_def split: if_splits)
  then show ?thesis using assms Cons by (auto simp: q_inv_def Run_take_def in_hand_def)
qed

lemma Run_send_inv: "q_inv s \<Longrightarrow> q_worker s = Holding e \<Longrightarrow> q_inv (Run_send ok connected generation s)"
  by (auto simp: q_inv_def Run_send_def in_hand_def Let_def ac_simps)

text \<open>A worker exists only while the queue is started, and a queue that is not started is empty.\<close>

definition q_life :: "'r ipc_queue \<Rightarrow> bool" where
  "q_life s \<longleftrightarrow> (\<not> q_started s \<longrightarrow> entries s = [] \<and> q_worker s = No_worker) \<and> (q_started s \<and> q_stop s \<longrightarrow> entries s = [])"

lemma q_step_life: "q_step s s' \<Longrightarrow> q_life s \<Longrightarrow> q_life s'"
  by (erule q_stepE)
     (simp_all add: q_life_def Queue_Start_def Stop_begin_def Stop_end_def Enqueue_def Run_take_def Run_send_def Let_def
        split: option.split list.split, blast)

lemma q_step_inv:
  assumes "q_step s s'" "q_inv s" "q_life s"
  shows "q_inv s'"
  using assms(1)
proof cases
  case Start
  have "\<not> q_started s \<longrightarrow> entries s = []" using assms(3) by (simp add: q_life_def)
  then show ?thesis unfolding Start(1) by (rule Queue_Start_inv [OF assms(2) Start(2)])
next
  case Stop_end
  then show ?thesis using assms(2) by (simp add: q_inv_def Stop_end_def)
qed (use assms(2) in \<open>simp_all add: Stop_begin_inv Enqueue_inv Run_take_inv Run_send_inv\<close>)

lemma q_reach_inv: "q_step\<^sup>*\<^sup>* q_new s \<Longrightarrow> q_inv s \<and> q_life s"
proof (induction rule: rtranclp_induct)
  case base
  show ?case using q_inv_new by (simp add: q_life_def q_new_def)
next
  case (step y z)
  then show ?case using q_step_inv q_step_life by blast
qed


section \<open>Requests without a key\<close>

text \<open>
  Restricted to requests without a key, a running queue is a bounded first-in first-out queue like the router's.
\<close>

definition plain_queue :: "'r ipc_queue \<Rightarrow> bool" where
  "plain_queue s \<longleftrightarrow> Queue_IsRunning s \<and> list_all (\<lambda>e. snd e = []) (entries s) \<and> length (entries s) \<le> kMaxQueue"

definition plain_enq :: "'r \<Rightarrow> 'r ipc_queue \<Rightarrow> 'r ipc_queue \<times> bool" where
  "plain_enq r s = (Enqueue r [] s, length (entries s) < kMaxQueue)"

definition plain_deq :: "'r ipc_queue \<Rightarrow> 'r option \<times> 'r ipc_queue" where
  "plain_deq s = (case entries s of [] \<Rightarrow> (None, s) | e # _ \<Rightarrow> (Some (fst e), Run_take s))"

interpretation ipcq: bounded_queue plain_queue "\<lambda>s. map fst (entries s)" "\<lambda>r. True" kMaxQueue plain_enq plain_deq
proof unfold_locales
  fix s :: "'r ipc_queue" and r :: 'r
  assume i: "plain_queue s"
  show "plain_queue (fst (plain_enq r s))"
    using i by (auto simp: plain_queue_def plain_enq_def Enqueue_def Let_def Queue_IsRunning_def)
  show "snd (plain_enq r s) \<longleftrightarrow> length (map fst (entries s)) < kMaxQueue \<and> True" by (simp add: plain_enq_def)
  show "map fst (entries (fst (plain_enq r s))) =
      (if snd (plain_enq r s) then map fst (entries s) @ [r] else map fst (entries s))"
    using i by (auto simp: plain_queue_def plain_enq_def Enqueue_def Let_def Queue_IsRunning_def)
  show "plain_queue (snd (plain_deq s))"
    using i by (auto simp: plain_queue_def plain_deq_def Run_take_def Queue_IsRunning_def split: list.split)
  show "case fst (plain_deq s) of None \<Rightarrow> map fst (entries s) = [] \<and> snd (plain_deq s) = s
      | Some x \<Rightarrow> map fst (entries s) = x # map fst (entries (snd (plain_deq s)))"
    using i by (auto simp: plain_queue_def plain_deq_def Run_take_def Queue_IsRunning_def split: list.split)
qed

lemma plain_fifo:
  "plain_queue s \<Longrightarrow> queue_run plain_enq plain_deq ops s = (acc, out, s') \<Longrightarrow>
   map fst (entries s) @ acc = out @ map fst (entries s')"
  using ipcq.fifo by blast

section \<open>Properties\<close>

text \<open>C27. Latest wins, and nothing is lost unnoticed. In every interleaving of callers and worker, while the queue runs, the newest value
  accepted for a key is the newest one for that key among the entries taken and queued, and requests without a
  key are taken in the order they were accepted; the queue holds at most 256 entries with at most one per key, its
  depth is reported exactly, and every call is accounted for as sent, failed, replaced, refused, in
  hand, queued or discarded.\<close>

theorem ipc_queue_latest_wins:
  assumes "q_step\<^sup>*\<^sup>* q_new s" "Queue_IsRunning s"
  shows "(k \<noteq> [] \<longrightarrow> newest k (taken s @ entries s) = newest k (accepted s)) \<and>
    unkeyed (taken s @ entries s) = unkeyed (accepted s) \<and>
    length (entries s) \<le> 256 \<and> distinct (filter (\<lambda>k. k \<noteq> []) (map snd (entries s))) \<and>
    unat (queueDepth (GetStatus s)) = length (entries s) \<and>
    word_of_nat (enq_calls s) =
      st_sent (GetStatus s) + st_sendFailures (GetStatus s) + st_coalesced (GetStatus s) + st_dropped (GetStatus s) +
      word_of_nat (length (entries s) + in_hand (q_worker s) + discarded s)"
proof -
  have i: "q_inv s" using q_reach_inv [OF assms(1)] by blast
  then have "length (entries s) \<le> 256" by (simp add: q_inv_def kMaxQueue_def)
  then have "unat (word_of_nat (length (entries s)) :: u32) = length (entries s)" by (intro unat_word_of_nat) simp
  then show ?thesis using i assms(2) by (simp add: q_inv_def Queue_IsRunning_def keys_distinct_def kMaxQueue_def GetStatus_def)
qed

text \<open>Two requests for the same key with another one in between.\<close>

definition burst :: "nat ipc_queue" where
  "burst = Enqueue 3 ''dev1'' (Enqueue 2 ''dev2'' (Enqueue 1 ''dev1'' (Queue_Start q_new)))"

lemma burst_reach: "q_step\<^sup>*\<^sup>* q_new burst"
proof -
  have "q_step q_new (Queue_Start q_new)" by (rule q_step.Start) (simp add: q_new_def)
  then have "q_step\<^sup>*\<^sup>* q_new (Queue_Start q_new)" by blast
  then have "q_step\<^sup>*\<^sup>* q_new (Enqueue 1 ''dev1'' (Queue_Start q_new))" by (rule rtranclp.rtrancl_into_rtrancl) (rule q_step.Enqueue)
  then have "q_step\<^sup>*\<^sup>* q_new (Enqueue 2 ''dev2'' (Enqueue 1 ''dev1'' (Queue_Start q_new)))"
    by (rule rtranclp.rtrancl_into_rtrancl) (rule q_step.Enqueue)
  then show ?thesis unfolding burst_def by (rule rtranclp.rtrancl_into_rtrancl) (rule q_step.Enqueue)
qed

lemma burst_entries: "entries burst = [(3, ''dev1''), (2, ''dev2'')]" "Queue_IsRunning burst" "taken burst = []"
    "accepted burst = [(1, ''dev1''), (2, ''dev2''), (3, ''dev1'')]"
  by (simp_all add: burst_def Enqueue_def Queue_Start_def q_new_def Let_def kMaxQueue_def Queue_IsRunning_def)

theorem ipc_queue_latest_wins_witness:
  "newest ''dev1'' (taken burst @ entries burst) = Some 3 \<and> unat (queueDepth (GetStatus burst)) = 2"
  using ipc_queue_latest_wins [OF burst_reach burst_entries(2), of "''dev1''"] burst_entries by (simp add: newest_def)

text \<open>Replacing an entry lets a newer value overtake: a value enqueued last for a queued key is sent at the place of the value it
  replaces, before requests that were enqueued earlier, so the order of sending is not the order of enqueueing.\<close>

theorem coalesced_value_overtakes:
  assumes "Queue_IsRunning s" "q_worker s = Waiting" "entries s = [(a, k)]" "k \<noteq> []" "j \<noteq> k"
    and "s' = Enqueue c k (Enqueue b j s)"
  shows "map fst (accepted s') = map fst (accepted s) @ [b, c] \<and> map fst (entries s') = [c, b] \<and>
         map fst (taken (Run_take s')) = map fst (taken s) @ [c]"
  using assms by (simp add: Enqueue_def Let_def Queue_IsRunning_def Run_take_def kMaxQueue_def)

theorem coalesced_value_overtakes_witness:
  "map fst (entries (Enqueue 3 ''dev1'' (Enqueue 2 ''dev2'' (Enqueue 1 ''dev1'' (Queue_Start q_new))))) = [3::nat, 2]"
  using coalesced_value_overtakes [where s = "Enqueue 1 ''dev1'' (Queue_Start q_new)" and a = "1 :: nat" and k = "''dev1''" and j = "''dev2''" and b = 2 and c = 3, OF _ _ _ _ _ refl]
  by (simp add: Enqueue_def Queue_Start_def q_new_def Let_def kMaxQueue_def Queue_IsRunning_def)

end
