(* ===== verification/CommandLine.thy ===== *)
theory CommandLine
  imports Prelude
begin

text \<open>
  Quoting of command line arguments (\<open>core/src/common/Win32CommandLine.cpp\<close>), related to the documented way in
  which the Microsoft C runtime splits a command line into the arguments of \<open>main\<close>. Wide characters are 16-bit words.
\<close>

section \<open>Quoting\<close>

type_synonym wchar = "16 word"
type_synonym wstring = "wchar list"

abbreviation (input) quote :: wchar where "quote \<equiv> 34"
abbreviation (input) backslash :: wchar where "backslash \<equiv> 92"

text \<open>The loop over the characters, with the number of backslashes that are held back.\<close>

fun quote_loop :: "nat \<Rightarrow> wstring \<Rightarrow> wstring" where
  "quote_loop n [] = replicate (2 * n) backslash"
| "quote_loop n (c # cs) =
     (if c = backslash then quote_loop (Suc n) cs
      else if c = quote then replicate (2 * n + 1) backslash @ c # quote_loop 0 cs
      else replicate n backslash @ c # quote_loop 0 cs)"

definition QuoteCommandLineArg :: "wstring \<Rightarrow> wstring" where
  "QuoteCommandLineArg v = quote # quote_loop 0 v @ [quote]"

section \<open>The arguments of \<open>main\<close>\<close>

text \<open>
  The documented rules of the C runtime. Blanks and tabs outside quotes end an argument; a quote that is not escaped opens or closes a
  quoted part; \<open>2n\<close> backslashes in front of a quote stand for \<open>n\<close>, \<open>2n + 1\<close> for \<open>n\<close> and a literal quote, all others for themselves; a doubled
  quote inside a quoted part is a literal quote. \<open>crt_arg\<close> reads one argument and returns it with the rest.
\<close>

definition blank :: "wchar \<Rightarrow> bool" where
  "blank c \<longleftrightarrow> c = 32 \<or> c = 9"

function crt_arg :: "bool \<Rightarrow> nat \<Rightarrow> wstring \<Rightarrow> wstring \<times> wstring" where
  "crt_arg q n [] = (replicate n backslash, [])"
| "crt_arg q n (c # cs) =
     (if c = backslash then crt_arg q (Suc n) cs
      else if c = quote then
        (if odd n then map_prod ((@) (replicate (n div 2) backslash @ [quote])) id (crt_arg q 0 cs)
         else if q \<and> cs \<noteq> [] \<and> hd cs = quote then
           map_prod ((@) (replicate (n div 2) backslash @ [quote])) id (crt_arg q 0 (tl cs))
         else map_prod ((@) (replicate (n div 2) backslash)) id (crt_arg (\<not> q) 0 cs))
      else if blank c \<and> \<not> q then (replicate n backslash, c # cs)
      else map_prod ((@) (replicate n backslash @ [c])) id (crt_arg q 0 cs))"
  by pat_completeness auto
termination by (relation "measure (\<lambda>(q, n, cs). length cs)") auto

lemma crt_arg_rest: "length (snd (crt_arg q n cs)) \<le> length cs"
proof (induction q n cs rule: crt_arg.induct)
  case (2 q n c cs)
  then show ?case by (cases cs) (auto simp: le_SucI)
qed simp

text \<open>All arguments behind the program name.\<close>

function crt_args :: "wstring \<Rightarrow> wstring list" where
  "crt_args [] = []"
| "crt_args (c # cs) = (if blank c then crt_args cs else fst (crt_arg False 0 (c # cs)) # crt_args (snd (crt_arg False 0 (c # cs))))"
  by pat_completeness auto
termination
proof (relation "measure length")
  fix c :: wchar and cs
  assume "\<not> blank c"
  then have "length (snd (crt_arg False 0 (c # cs))) \<le> length cs"
    using crt_arg_rest [of False _ cs] crt_arg_rest [of True _ cs] by (auto intro: order_trans)
  then show "(snd (crt_arg False 0 (c # cs)), c # cs) \<in> measure length" by simp
qed auto

text \<open>The program name: up to the closing quote, where no escapes are known.\<close>

definition crt_argv :: "wstring \<Rightarrow> wstring list" where
  "crt_argv cl =
     (if cl \<noteq> [] \<and> hd cl = quote
      then takeWhile (\<lambda>c. c \<noteq> quote) (tl cl) # crt_args (drop 1 (dropWhile (\<lambda>c. c \<noteq> quote) (tl cl)))
      else takeWhile (\<lambda>c. \<not> blank c) cl # crt_args (dropWhile (\<lambda>c. \<not> blank c) cl))"

section \<open>Quoting is undone\<close>

lemma crt_arg_backslashes: "crt_arg q n (replicate k backslash @ cs) = crt_arg q (n + k) cs"
  by (induction k arbitrary: n) auto

lemma crt_arg_quoted:
  "r = [] \<or> blank (hd r) \<Longrightarrow> crt_arg True 0 (quote_loop n v @ quote # r) = (replicate n backslash @ v, r)"
proof (induction n v rule: quote_loop.induct)
  case (1 n)
  have "crt_arg False 0 r = ([], r)" using 1 by (cases r) (auto simp: blank_def)
  moreover have "r = [] \<or> hd r \<noteq> quote" using 1 by (auto simp: blank_def)
  ultimately show ?case by (auto simp: crt_arg_backslashes)
next
  case (2 n c cs)
  have "replicate (Suc n) backslash @ cs = replicate n backslash @ backslash # cs" by (simp add: replicate_append_same flip: replicate_Suc)
  moreover have "(2 * n + 1) div 2 = n" by simp
  ultimately show ?case using 2 by (auto simp: crt_arg_backslashes simp del: replicate.simps)
qed

lemma crt_args_quoted:
  "r = [] \<or> blank (hd r) \<Longrightarrow> crt_args (QuoteCommandLineArg v @ r) = v # crt_args r"
  using crt_arg_quoted [of r 0 v] by (simp add: QuoteCommandLineArg_def blank_def)

lemma crt_args_blank: "crt_args (32 # r) = crt_args r"
  by (simp add: blank_def)

text \<open>An argument without blanks, quotes and backslashes is read as it stands.\<close>

lemma crt_arg_plain:
  "list_all (\<lambda>c. \<not> blank c \<and> c \<noteq> quote \<and> c \<noteq> backslash) v \<Longrightarrow> r = [] \<or> blank (hd r) \<Longrightarrow> crt_arg False 0 (v @ r) = (v, r)"
proof (induction v)
  case Nil
  then show ?case by (cases r) (auto simp: blank_def)
qed auto

lemma crt_args_plain:
  "v \<noteq> [] \<Longrightarrow> list_all (\<lambda>c. \<not> blank c \<and> c \<noteq> quote \<and> c \<noteq> backslash) v \<Longrightarrow> r = [] \<or> blank (hd r) \<Longrightarrow>
   crt_args (v @ r) = v # crt_args r"
  using crt_arg_plain [of v r] by (cases v) auto

text \<open>A command line built from quoted arguments separated by blanks is split into exactly these arguments.\<close>

definition join_quoted :: "wstring list \<Rightarrow> wstring" where
  "join_quoted vs = concat (map (\<lambda>v. 32 # QuoteCommandLineArg v) vs)"

lemma join_quoted_split: "crt_args (join_quoted vs) = vs"
proof (induction vs)
  case (Cons v vs)
  have "join_quoted vs = [] \<or> blank (hd (join_quoted vs))" by (cases vs) (auto simp: join_quoted_def blank_def)
  then show ?case using Cons crt_args_quoted [of "join_quoted vs" v] crt_args_blank
    by (simp add: join_quoted_def)
qed (simp add: join_quoted_def)

text \<open>Quoting is undone by the C runtime: whatever characters the arguments contain, blanks, quotes and trailing backslashes included, a command line of
  a quoted program name without quotes and quoted arguments is split into exactly that name and those arguments.\<close>

theorem quoted_arguments_arrive:
  assumes "quote \<notin> set exe"
  shows "crt_argv (quote # exe @ [quote] @ concat (map (\<lambda>v. 32 # QuoteCommandLineArg v) vs)) = exe # vs"
proof -
  have "takeWhile (\<lambda>c. c \<noteq> quote) (exe @ quote # join_quoted vs) = exe"
    "dropWhile (\<lambda>c. c \<noteq> quote) (exe @ quote # join_quoted vs) = quote # join_quoted vs"
    using assms by (induction exe) auto
  then show ?thesis using join_quoted_split by (simp add: crt_argv_def join_quoted_def)
qed

theorem quoted_arguments_arrive_witness:
  "crt_argv (quote # [101] @ [quote] @ concat (map (\<lambda>v. 32 # QuoteCommandLineArg v) [[97, 32, quote, backslash], []])) = [[101], [97, 32, quote, backslash], []]"
  using quoted_arguments_arrive [of "[101]" "[[97, 32, quote, backslash], []]"] by simp

end
