(* ===== verification/SidecarLease.thy ===== *)
theory SidecarLease
  imports ModuleRegistry CommandLine
begin

text \<open>
  The owner lease of the sidecar hosts (\<open>core/src/common/SidecarOwnerLease.cpp\<close>): the driver keeps a heartbeat in a named mapping, the host
  process evaluates it (\<open>OwnerLivenessThread\<close> of \<open>modules/captions/src/host/main.cpp\<close>) and shuts down when its owner is
  gone. The name and the nonce of the lease travel on the host's command line. Clock readings, the process id and the
  outcomes of the mapping calls are inputs.
\<close>

section \<open>The lease in the mapping\<close>

datatype LeaseState = LeaseStarting | LeaseAlive | LeaseShuttingDown | LeaseDisabled

fun lease_code :: "LeaseState \<Rightarrow> u32" where
  "lease_code LeaseStarting = 1"
| "lease_code LeaseAlive = 2"
| "lease_code LeaseShuttingDown = 3"
| "lease_code LeaseDisabled = 4"

datatype WatchdogStatus =
  WdAlive | WdMissing | WdHeaderMismatch | WdModuleMismatch | WdNonceMismatch | WdShuttingDown | WdDisabled | WdStale

fun WatchdogStatusName :: "WatchdogStatus \<Rightarrow> string" where
  "WatchdogStatusName WdAlive = ''alive''"
| "WatchdogStatusName WdMissing = ''missing''"
| "WatchdogStatusName WdHeaderMismatch = ''header-mismatch''"
| "WatchdogStatusName WdModuleMismatch = ''module-mismatch''"
| "WatchdogStatusName WdNonceMismatch = ''nonce-mismatch''"
| "WatchdogStatusName WdShuttingDown = ''shutting-down''"
| "WatchdogStatusName WdDisabled = ''disabled''"
| "WatchdogStatusName WdStale = ''stale''"

text \<open>The structure in the mapping, which a snapshot copies field by field.\<close>

record LeaseSnapshot =
  ls_magic :: u32
  ls_version :: u32
  ls_module_id :: u32
  ls_owner_pid :: u32
  ls_nonce :: u64
  ls_state :: u32
  ls_heartbeat_mono_ms :: u64

definition kLeaseMagic :: u32 where "kLeaseMagic = 0x534F574E"
definition kLeaseVersion :: u32 where "kLeaseVersion = 1"
definition kDefaultNonceSalt :: u64 where "kDefaultNonceSalt = 0x9E3779B97F4A7C15"

definition GenerateNonce :: "u64 \<Rightarrow> u64 \<Rightarrow> u32 \<Rightarrow> u64" where
  "GenerateNonce qpc ticks pid =
     (let v = qpc XOR push_bit 17 ticks XOR push_bit 32 (ucast pid) XOR kDefaultNonceSalt in if v = 0 then kDefaultNonceSalt else v)"

text \<open>The conversion \<open>%016llX\<close>.\<close>

definition hex_digit :: "u64 \<Rightarrow> byte" where
  "hex_digit d = (if d < 10 then 48 + ucast d else 55 + ucast d)"

definition nibble :: "u64 \<Rightarrow> nat \<Rightarrow> u64" where
  "nibble n i = drop_bit (4 * i) n AND 15"

definition hex16 :: "u64 \<Rightarrow> bytes" where
  "hex16 n = map (\<lambda>i. hex_digit (nibble n i)) (rev [0..<16])"

definition lease_prefix :: bytes where
  "lease_prefix = str ''Local'' @ [92] @ str ''WKOpenVR-SidecarOwner-''"

text \<open>\<open>snprintf\<close> into a buffer of 192 bytes.\<close>

definition MakeLeaseName :: "ModuleId \<Rightarrow> u32 \<Rightarrow> u64 \<Rightarrow> bytes" where
  "MakeLeaseName m pid nonce = take 191 (lease_prefix @ str (Slug m) @ [45] @ dec (unat pid) @ [45] @ hex16 nonce)"

definition EvaluateLeaseSnapshot :: "LeaseSnapshot \<Rightarrow> ModuleId \<Rightarrow> u64 \<Rightarrow> u64 \<Rightarrow> u64 \<Rightarrow> WatchdogStatus" where
  "EvaluateLeaseSnapshot s m nonce now staleAfter =
     (if ls_magic s \<noteq> kLeaseMagic \<or> ls_version s \<noteq> kLeaseVersion then WdHeaderMismatch
      else if ls_module_id s \<noteq> module_code m then WdModuleMismatch
      else if ls_nonce s \<noteq> nonce then WdNonceMismatch
      else if ls_state s = lease_code LeaseDisabled then WdDisabled
      else if ls_state s = lease_code LeaseShuttingDown then WdShuttingDown
      else if ls_heartbeat_mono_ms s = 0 \<or> now < ls_heartbeat_mono_ms s \<or> now - ls_heartbeat_mono_ms s > staleAfter then WdStale
      else WdAlive)"

section \<open>The owner\<close>

record LeaseOwner =
  lo_data :: "LeaseSnapshot option"
  lo_name :: bytes
  lo_nonce :: u64
  lo_module :: ModuleId

definition LeaseOwner_Close :: "LeaseOwner \<Rightarrow> LeaseOwner" where
  "LeaseOwner_Close l = l\<lparr>lo_data := None, lo_name := [], lo_nonce := 0\<rparr>"

text \<open>\<open>mapped\<close> tells whether the mapping could be created and mapped; its content is zero or that of an earlier mapping of the same name.\<close>

definition LeaseOwner_Create :: "bool \<Rightarrow> u64 \<Rightarrow> u64 \<Rightarrow> u32 \<Rightarrow> ModuleId \<Rightarrow> LeaseOwner \<Rightarrow> LeaseOwner \<times> bool" where
  "LeaseOwner_Create mapped qpc now pid m l =
     (let nonce = GenerateNonce qpc now pid;
          l1 = (LeaseOwner_Close l)\<lparr>lo_module := m\<rparr>
      in if \<not> mapped then (l1, False)
         else (l1\<lparr>lo_nonce := nonce, lo_name := MakeLeaseName m pid nonce,
                  lo_data := Some \<lparr>ls_magic = kLeaseMagic, ls_version = kLeaseVersion, ls_module_id = module_code m, ls_owner_pid = pid,
                    ls_nonce = nonce, ls_state = lease_code LeaseStarting, ls_heartbeat_mono_ms = now\<rparr>\<rparr>, True))"

definition LeaseOwner_IsOpen :: "LeaseOwner \<Rightarrow> bool" where
  "LeaseOwner_IsOpen l \<longleftrightarrow> lo_data l \<noteq> None"

text \<open>The two stores of a heartbeat, in the order of the code.\<close>

datatype lease_store = StoreState LeaseState | StoreBeat u64

fun lease_put :: "lease_store \<Rightarrow> LeaseSnapshot \<Rightarrow> LeaseSnapshot" where
  "lease_put (StoreState st) d = d\<lparr>ls_state := lease_code st\<rparr>"
| "lease_put (StoreBeat t) d = d\<lparr>ls_heartbeat_mono_ms := t\<rparr>"

definition Heartbeat_stores :: "LeaseState \<Rightarrow> u64 \<Rightarrow> lease_store list" where
  "Heartbeat_stores st now = [StoreState st, StoreBeat now]"

definition Heartbeat :: "LeaseState \<Rightarrow> u64 \<Rightarrow> LeaseOwner \<Rightarrow> LeaseOwner" where
  "Heartbeat st now l = l\<lparr>lo_data := map_option (fold lease_put (Heartbeat_stores st now)) (lo_data l)\<rparr>"

definition MarkShuttingDown :: "u64 \<Rightarrow> LeaseOwner \<Rightarrow> LeaseOwner" where
  "MarkShuttingDown now l = Heartbeat LeaseShuttingDown now l"

definition MarkDisabled :: "u64 \<Rightarrow> LeaseOwner \<Rightarrow> LeaseOwner" where
  "MarkDisabled now l = Heartbeat LeaseDisabled now l"

section \<open>The reader\<close>

text \<open>
  \<open>TryRead\<close> loads the fields one after the other, the state before the heartbeat. Only these two change after \<open>Create\<close>: \<open>d1\<close> is the content of the mapping
  when the fields up to the state are loaded, \<open>d2\<close> when the heartbeat is.
\<close>

definition LeaseReader_TryRead :: "LeaseSnapshot option \<Rightarrow> LeaseSnapshot option \<Rightarrow> LeaseSnapshot option" where
  "LeaseReader_TryRead d1 d2 =
     (case (d1, d2) of (Some a, Some b) \<Rightarrow> Some (a\<lparr>ls_heartbeat_mono_ms := ls_heartbeat_mono_ms b\<rparr>) | _ \<Rightarrow> None)"

section \<open>The host's watchdog\<close>

record OwnerLivenessConfig =
  ol_name :: bytes
  ol_nonce :: u64

definition Configured :: "OwnerLivenessConfig \<Rightarrow> bool" where
  "Configured c \<longleftrightarrow> ol_name c \<noteq> [] \<and> ol_nonce c \<noteq> 0"

text \<open>One poll: what \<open>TryRead\<close> returned and the clock.\<close>

definition poll_status :: "OwnerLivenessConfig \<Rightarrow> LeaseSnapshot option \<times> u64 \<Rightarrow> WatchdogStatus" where
  "poll_status c p = (case fst p of None \<Rightarrow> WdMissing | Some s \<Rightarrow> EvaluateLeaseSnapshot s Captions (ol_nonce c) (snd p) 3000)"

text \<open>
  The thread over the sequence of its polls: the number of the poll at which it requests the shutdown of the process, or none. \<open>Some 0\<close> with no poll is
  the failure to open the lease.
\<close>

fun watch_loop :: "OwnerLivenessConfig \<Rightarrow> (LeaseSnapshot option \<times> u64) list \<Rightarrow> nat option" where
  "watch_loop c [] = None"
| "watch_loop c (p # ps) = (if poll_status c p \<noteq> WdAlive then Some 0 else map_option Suc (watch_loop c ps))"

definition OwnerLivenessThread :: "OwnerLivenessConfig \<Rightarrow> bool \<Rightarrow> (LeaseSnapshot option \<times> u64) list \<Rightarrow> nat option" where
  "OwnerLivenessThread c opens ps = (if \<not> Configured c then None else if \<not> opens then Some 0 else watch_loop c ps)"

section \<open>The command line of the host\<close>

text \<open>
  The conversions to and from UTF-16 on ASCII, where they only change the width of the characters: they are applied here to the option names and to the
  name and the nonce of a lease.
\<close>

definition widen :: "bytes \<Rightarrow> wstring" where
  "widen s = map ucast s"

definition narrow :: "wstring \<Rightarrow> bytes" where
  "narrow s = map ucast s"

definition AppendOwnerLivenessArgs :: "LeaseOwner option \<Rightarrow> wstring \<Rightarrow> wstring" where
  "AppendOwnerLivenessArgs lease cl =
     (case lease of
        None \<Rightarrow> cl
      | Some l \<Rightarrow>
          if \<not> LeaseOwner_IsOpen l then cl
          else cl @ widen (str '' --owner-liveness '') @ QuoteCommandLineArg (widen (lo_name l)) @
               widen (str '' --owner-liveness-nonce '') @ widen (hex16 (lo_nonce l)))"

text \<open>\<open>_strtoui64\<close> in base 16: blanks, a sign and a prefix are skipped, the digits are read up to the first other character, and a value that
  does not fit is the largest one.\<close>

definition hex_value :: "byte \<Rightarrow> nat option" where
  "hex_value c =
     (if 48 \<le> c \<and> c \<le> 57 then Some (unat (c - 48))
      else if 65 \<le> c \<and> c \<le> 70 then Some (unat (c - 55))
      else if 97 \<le> c \<and> c \<le> 102 then Some (unat (c - 87)) else None)"

fun hex_digits :: "nat \<Rightarrow> bytes \<Rightarrow> nat" where
  "hex_digits a [] = a"
| "hex_digits a (c # cs) = (case hex_value c of None \<Rightarrow> a | Some d \<Rightarrow> hex_digits (a * 16 + d) cs)"

definition skip_prefix :: "bytes \<Rightarrow> bytes" where
  "skip_prefix s = (if length s \<ge> 2 \<and> s ! 0 = 48 \<and> s ! 1 \<in> {88, 120} then drop 2 s else s)"

definition strtoui64_16 :: "bytes \<Rightarrow> u64" where
  "strtoui64_16 s =
     (let t = dropWhile (\<lambda>c. c = 32 \<or> 9 \<le> c \<and> c \<le> 13) s;
          negative = (t \<noteq> [] \<and> hd t = 45);
          u = (if t \<noteq> [] \<and> hd t \<in> {43, 45} then tl t else t);
          v = hex_digits 0 (skip_prefix u)
      in if v \<ge> 2 ^ 64 then - 1 else if negative then - word_of_nat v else word_of_nat v)"

text \<open>The options of the captions host. The default model paths and the conversion of paths to wide characters are inputs.\<close>

record host_args =
  ha_self_test :: bool
  ha_rejected :: bytes
  ha_status_path :: wstring
  ha_singleton_suffix :: wstring
  ha_control_pipe :: bytes
  ha_owner :: OwnerLivenessConfig
  ha_whisper_path :: bytes
  ha_whisper_overridden :: bool
  ha_silero_path :: bytes
  ha_prefer_gpu :: bool

definition valued_option :: "(bytes \<Rightarrow> wstring) \<Rightarrow> bytes \<Rightarrow> bytes \<Rightarrow> host_args \<Rightarrow> host_args option" where
  "valued_option utf8 a v h =
     (if a = str ''--status-file'' then Some (h\<lparr>ha_status_path := utf8 v\<rparr>)
      else if a = str ''--e2e-singleton-suffix'' then Some (h\<lparr>ha_singleton_suffix := utf8 v\<rparr>)
      else if a = str ''--e2e-control-pipe'' then Some (h\<lparr>ha_control_pipe := v\<rparr>)
      else if a = str ''--owner-liveness'' then Some (h\<lparr>ha_owner := (ha_owner h)\<lparr>ol_name := v\<rparr>\<rparr>)
      else if a = str ''--owner-liveness-nonce'' then Some (h\<lparr>ha_owner := (ha_owner h)\<lparr>ol_nonce := strtoui64_16 v\<rparr>\<rparr>)
      else if a = str ''--model'' then Some (h\<lparr>ha_whisper_path := v, ha_whisper_overridden := True\<rparr>)
      else if a = str ''--silero'' then Some (h\<lparr>ha_silero_path := v\<rparr>)
      else None)"

definition no_gpu_option :: "bytes \<Rightarrow> host_args \<Rightarrow> host_args" where
  "no_gpu_option a h = (if a = str ''--no-gpu'' \<or> a = str ''--force-cpu'' then h\<lparr>ha_prefer_gpu := False\<rparr> else h)"

fun parse_args :: "(bytes \<Rightarrow> wstring) \<Rightarrow> bytes list \<Rightarrow> host_args \<Rightarrow> host_args" where
  "parse_args utf8 [] h = h"
| "parse_args utf8 (a # as) h =
     (if a = str ''--self-test'' \<or> a = str ''--healthcheck'' then parse_args utf8 as (h\<lparr>ha_self_test := True\<rparr>)
      else if a = str ''--e2e-fake-chatbox'' \<or> a = str ''--e2e-fake-captions-output'' \<or> a = str ''--e2e-fake-translator-output''
      then parse_args utf8 (drop 1 as) (h\<lparr>ha_rejected := a\<rparr>)
      else case as of
          [] \<Rightarrow> no_gpu_option a h
        | v # rest \<Rightarrow>
            (case valued_option utf8 a v h of
               Some h' \<Rightarrow> parse_args utf8 rest h'
             | None \<Rightarrow> parse_args utf8 (v # rest) (no_gpu_option a h)))"

section \<open>The nonce and the name survive the command line\<close>

lemma unat_u64: "unat n < 2 ^ 64" for n :: u64
  using unsigned_less [of n] by simp

lemma foldl_hex: "foldl (\<lambda>a i. a * 16 + x div 16 ^ i mod 16) a (rev [0..<k]) = a * 16 ^ k + x mod 16 ^ k" for x a :: nat
proof (induction k arbitrary: a)
  case (Suc k)
  have "x mod 16 ^ Suc k = 16 ^ k * (x div 16 ^ k mod 16) + x mod 16 ^ k" by (simp add: mod_mult2_eq mult.commute [of 16])
  then show ?case using Suc by (simp add: algebra_simps)
qed simp

lemma unat_nibble: "unat (nibble n i) = unat n div 16 ^ i mod 16"
proof -
  have "nibble n i = take_bit 4 (drop_bit (4 * i) n)" by (simp add: nibble_def take_bit_eq_mask mask_eq_exp_minus_1)
  moreover have "unat (take_bit 4 (drop_bit (4 * i) n)) = take_bit 4 (drop_bit (4 * i) (unat n))"
    by (simp only: unsigned_take_bit_eq unsigned_drop_bit_eq) (simp add: take_bit_word_eq_self flip: unsigned_take_bit_eq)
  then have "unat (take_bit 4 (drop_bit (4 * i) n)) = unat n div 2 ^ (4 * i) mod 2 ^ 4"
    by (simp only: take_bit_eq_mod drop_bit_eq_div)
  ultimately show ?thesis by (simp add: power_mult)
qed

lemma hex_digit_cases:
  assumes "unat d < 16"
  shows "hex_value (hex_digit d) = Some (unat d) \<and> hex_digit d \<in> {48, 49, 50, 51, 52, 53, 54, 55, 56, 57, 65, 66, 67, 68, 69, 70}"
proof -
  have "d \<in> {0, 1, 2, 3, 4, 5, 6, 7, 8, 9, 10, 11, 12, 13, 14, 15}"
  proof -
    obtain k where k: "k = unat d" by simp
    with assms have "k < 16" by simp
    then have "k \<in> {0, 1, 2, 3, 4, 5, 6, 7, 8, 9, 10, 11, 12, 13, 14, 15}" by (simp, arith)
    moreover have "d = word_of_nat k" by (simp add: k)
    ultimately show ?thesis by auto
  qed
  then show ?thesis by (elim insertE emptyE) (simp_all add: hex_digit_def hex_value_def)
qed

lemma nibble_lt: "unat (nibble n i) < 16"
  by (simp add: unat_nibble)

lemma hex_digits_map:
  "hex_digits a (map (\<lambda>i. hex_digit (nibble n i)) is) = foldl (\<lambda>a i. a * 16 + unat n div 16 ^ i mod 16) a is"
  by (induction "is" arbitrary: a) (simp_all add: hex_digit_cases nibble_lt unat_nibble)

lemma hex_digits_hex16: "hex_digits 0 (hex16 n) = unat n"
  using foldl_hex [of "unat n" 0 16] unat_u64 [of n] by (simp add: hex16_def hex_digits_map)

lemma hex16_set: "b \<in> set (hex16 n) \<Longrightarrow> b \<in> {48, 49, 50, 51, 52, 53, 54, 55, 56, 57, 65, 66, 67, 68, 69, 70}"
  using hex_digit_cases [OF nibble_lt] by (auto simp: hex16_def)

lemma hex16_Cons: "\<exists>a b r. hex16 n = a # b # r \<and> length r = 14"
  by (simp add: hex16_def upt_rec)

lemma strtoui64_hex16: "strtoui64_16 (hex16 n) = n"
proof -
  obtain a b r where h: "hex16 n = a # b # r" using hex16_Cons [of n] by blast
  then have ab: "a \<in> {48, 49, 50, 51, 52, 53, 54, 55, 56, 57, 65, 66, 67, 68, 69, 70}" "b \<in> {48, 49, 50, 51, 52, 53, 54, 55, 56, 57, 65, 66, 67, 68, 69, 70}"
    using hex16_set [of a n] hex16_set [of b n] by auto
  have "dropWhile (\<lambda>c. c = 32 \<or> 9 \<le> c \<and> c \<le> 13) (hex16 n) = hex16 n" using ab(1) by (auto simp: h)
  moreover have "hd (hex16 n) \<notin> {43, 45}" using ab(1) by (auto simp: h)
  moreover have "skip_prefix (hex16 n) = hex16 n" using ab(2) by (auto simp: h skip_prefix_def)
  moreover have "unat n < 2 ^ 64" using unat_u64 [of n] by simp
  ultimately show ?thesis by (auto simp: strtoui64_16_def Let_def hex_digits_hex16)
qed

lemma hex16_inj: "hex16 a = hex16 b \<longleftrightarrow> a = b"
  by (metis strtoui64_hex16)

lemma length_hex16 [simp]: "length (hex16 n) = 16"
  by (simp add: hex16_def)

lemma lease_name_whole: "MakeLeaseName m pid nonce = lease_prefix @ str (Slug m) @ [45] @ dec (unat pid) @ [45] @ hex16 nonce"
proof -
  have "unat pid < 2 ^ 32" using unsigned_less [of pid] by simp
  then have "unat pid < 10 ^ Suc 9" by simp
  then have "length (dec (unat pid)) \<le> 10" using length_dec [of "unat pid" 9] by simp
  moreover have "length (str (Slug m)) \<le> 12" by (cases m) (simp_all add: Slug_simps str_def)
  moreover have "length lease_prefix = 28" by (simp add: lease_prefix_def str_def)
  ultimately show ?thesis by (simp add: MakeLeaseName_def)
qed

lemma append_sep: "x \<notin> set a \<Longrightarrow> x \<notin> set b \<Longrightarrow> p @ [x] @ a = q @ [x] @ b \<longleftrightarrow> p = q \<and> a = b"
proof -
  assume x: "x \<notin> set a" "x \<notin> set b"
  have "takeWhile (\<lambda>y. y \<noteq> x) (rev (r @ [x] @ c)) = rev c" if "x \<notin> set c" for r c
    using that by (simp add: takeWhile_append2) (subst takeWhile_append2, auto)
  with x show ?thesis by (metis append_same_eq append.assoc rev_is_rev_conv)
qed

lemma lease_name_ne: "MakeLeaseName m pid nonce \<noteq> []"
  by (simp add: lease_name_whole)

text \<open>Leases of different modules, processes or nonces have different names.\<close>

lemma lease_name_inj: "MakeLeaseName m p n = MakeLeaseName m' p' n' \<longleftrightarrow> m = m' \<and> p = p' \<and> n = n'"
proof
  assume "MakeLeaseName m p n = MakeLeaseName m' p' n'"
  then have e: "(str (Slug m) @ [45] @ dec (unat p)) @ [45] @ hex16 n = (str (Slug m') @ [45] @ dec (unat p')) @ [45] @ hex16 n'"
    by (simp add: lease_name_whole)
  have "45 \<notin> set (hex16 k)" for k using hex16_set [of 45 k] by auto
  then have n: "hex16 n = hex16 n'" and r: "str (Slug m) @ [45] @ dec (unat p) = str (Slug m') @ [45] @ dec (unat p')"
    using append_sep [THEN iffD1, OF _ _ e] by simp_all
  have "45 \<notin> set (dec k)" for k
  proof
    assume "45 \<in> set (dec k)"
    then obtain d where "d < 10" "45 = (48 + word_of_nat d :: byte)" using dec_digits by blast
    then have "d \<in> {0, 1, 2, 3, 4, 5, 6, 7, 8, 9}" by (simp, arith)
    then show False using \<open>45 = 48 + word_of_nat d\<close> by (elim insertE emptyE) simp_all
  qed
  then have "str (Slug m) = str (Slug m')" "dec (unat p) = dec (unat p')" using append_sep [THEN iffD1, OF _ _ r] by simp_all
  with n show "m = m' \<and> p = p' \<and> n = n'" by (simp add: str_inj Slug_inj dec_inj hex16_inj word_unat_eq_iff)
qed simp

lemma GenerateNonce_nz: "GenerateNonce qpc ticks pid \<noteq> 0"
  by (simp add: GenerateNonce_def Let_def kDefaultNonceSalt_def)

lemma narrow_widen: "narrow (widen s) = s"
proof -
  have "ucast (ucast b :: wchar) = b" for b :: byte by (rule bit_word_eqI) (simp add: bit_ucast_iff)
  then show ?thesis by (simp add: narrow_def widen_def comp_def)
qed

section \<open>Properties\<close>

text \<open>C35. The handover of the lease: for every lease the driver opens, the command line it builds for the host is split and parsed by the captions host into exactly the
  name and the nonce of that lease, and the watchdog is configured; leases of different modules, processes or nonces never share a name.\<close>

theorem lease_reaches_host:
  assumes "LeaseOwner_Create True qpc now pid m l0 = (l, True)" "quote \<notin> set exe" "ha_owner h = \<lparr>ol_name = [], ol_nonce = 0\<rparr>"
  shows "let argv = crt_argv (AppendOwnerLivenessArgs (Some l) (quote # exe @ [quote]));
             owner = ha_owner (parse_args conv (map narrow (tl argv)) h)
         in hd argv = exe \<and> ol_name owner = lo_name l \<and> ol_nonce owner = lo_nonce l \<and> Configured owner \<and>
            (MakeLeaseName m' pid' nonce' = lo_name l \<longleftrightarrow> m' = m \<and> pid' = pid \<and> nonce' = lo_nonce l)"
proof -
  define w1 w2 where "w1 = widen (str ''--owner-liveness'')" and "w2 = widen (str ''--owner-liveness-nonce'')"
  define name hex where "name = widen (lo_name l)" and "hex = widen (hex16 (lo_nonce l))"
  have l: "lo_name l = MakeLeaseName m pid (lo_nonce l)" "lo_nonce l \<noteq> 0" "LeaseOwner_IsOpen l"
    using assms(1) GenerateNonce_nz by (auto simp: LeaseOwner_Create_def Let_def LeaseOwner_IsOpen_def)
  define rest where "rest = [32] @ w1 @ [32] @ QuoteCommandLineArg name @ [32] @ w2 @ [32] @ hex"
  have cl: "AppendOwnerLivenessArgs (Some l) (quote # exe @ [quote]) = quote # exe @ quote # rest"
    using l(3) by (simp add: AppendOwnerLivenessArgs_def rest_def w1_def w2_def name_def hex_def widen_def str_def)
  have "takeWhile (\<lambda>c. c \<noteq> quote) (exe @ quote # rest) = exe" "dropWhile (\<lambda>c. c \<noteq> quote) (exe @ quote # rest) = quote # rest"
    using assms(2) by (induction exe) auto
  then have argv: "crt_argv (AppendOwnerLivenessArgs (Some l) (quote # exe @ [quote])) = exe # crt_args rest"
    by (simp add: cl crt_argv_def)
  have "list_all (\<lambda>c. \<not> blank c \<and> c \<noteq> quote \<and> c \<noteq> backslash) hex"
    using hex16_set [of _ "lo_nonce l"] by (fastforce simp: hex_def widen_def list_all_iff blank_def)
  moreover have "hex \<noteq> []" using hex16_Cons [of "lo_nonce l"] by (auto simp: hex_def widen_def)
  ultimately have "crt_args hex = [hex]" using crt_args_plain [of hex "[]"] by simp
  moreover have "list_all (\<lambda>c. \<not> blank c \<and> c \<noteq> quote \<and> c \<noteq> backslash) w1" "list_all (\<lambda>c. \<not> blank c \<and> c \<noteq> quote \<and> c \<noteq> backslash) w2" "w1 \<noteq> []" "w2 \<noteq> []"
    by (simp_all add: w1_def w2_def widen_def str_def blank_def)
  ultimately have "crt_args rest = [w1, name, w2, hex]"
    by (simp add: rest_def crt_args_blank crt_args_plain crt_args_quoted blank_def del: crt_args.simps(2))
  moreover have "narrow (widen s) = s" for s by (rule narrow_widen)
  ultimately show ?thesis using l assms(3)
    by (auto simp: argv Let_def w1_def w2_def name_def hex_def valued_option_def str_inj strtoui64_hex16 Configured_def
        lease_name_inj lease_name_ne)
qed

text \<open>A lease of the captions module, and the program name \<open>h.exe\<close>.\<close>

definition sample_lease :: LeaseOwner where
  "sample_lease = fst (LeaseOwner_Create True 5 1000 42 Captions \<lparr>lo_data = None, lo_name = [], lo_nonce = 0, lo_module = Calibration\<rparr>)"

definition sample_args :: host_args where
  "sample_args = \<lparr>ha_self_test = False, ha_rejected = [], ha_status_path = [], ha_singleton_suffix = [], ha_control_pipe = [],
     ha_owner = \<lparr>ol_name = [], ol_nonce = 0\<rparr>, ha_whisper_path = [], ha_whisper_overridden = False, ha_silero_path = [], ha_prefer_gpu = True\<rparr>"

theorem lease_reaches_host_witness:
  "ol_nonce (ha_owner (parse_args widen (map narrow (tl (crt_argv (AppendOwnerLivenessArgs (Some sample_lease)
     (quote # [104, 46, 101, 120, 101] @ [quote]))))) sample_args)) = lo_nonce sample_lease"
  using lease_reaches_host [where l = sample_lease and qpc = 5 and now = 1000 and pid = 42 and m = Captions and exe = "[104, 46, 101, 120, 101]"
      and h = sample_args and conv = widen and ?l0.0 = "\<lparr>lo_data = None, lo_name = [], lo_nonce = 0, lo_module = Calibration\<rparr>"]
  by (simp add: sample_lease_def sample_args_def LeaseOwner_Create_def Let_def del: parse_args.simps)

text \<open>The content of the mapping after the first \<open>k\<close> stores of the owner, and a poll whose loads happen after \<open>k1\<close> and \<open>k2\<close> stores.\<close>

definition lease_at :: "LeaseSnapshot \<Rightarrow> lease_store list \<Rightarrow> nat \<Rightarrow> LeaseSnapshot" where
  "lease_at d ws k = fold lease_put (take k ws) d"

definition poll_at :: "LeaseSnapshot \<Rightarrow> lease_store list \<Rightarrow> nat \<times> nat \<times> u64 \<Rightarrow> LeaseSnapshot option \<times> u64" where
  "poll_at d ws p = (case p of (k1, k2, now) \<Rightarrow> (LeaseReader_TryRead (Some (lease_at d ws k1)) (Some (lease_at d ws k2)), now))"

text \<open>The stores of a sequence of heartbeats.\<close>

definition beats :: "(LeaseState \<times> u64) list \<Rightarrow> lease_store list" where
  "beats calls = concat (map (\<lambda>(st, t). Heartbeat_stores st t) calls)"

lemma lease_put_const:
  "ls_magic (fold lease_put ws d) = ls_magic d" "ls_version (fold lease_put ws d) = ls_version d"
  "ls_module_id (fold lease_put ws d) = ls_module_id d" "ls_nonce (fold lease_put ws d) = ls_nonce d"
proof (induction ws arbitrary: d)
  case (Cons w ws)
  { case 1 show ?case using Cons by (cases w) simp_all }
  { case 2 show ?case using Cons by (cases w) simp_all }
  { case 3 show ?case using Cons by (cases w) simp_all }
  { case 4 show ?case using Cons by (cases w) simp_all }
qed simp_all

lemma lease_beat_in:
  "ls_heartbeat_mono_ms (fold lease_put ws d) \<in> insert (ls_heartbeat_mono_ms d) {t. StoreBeat t \<in> set ws}"
proof (induction ws arbitrary: d)
  case (Cons w ws)
  show ?case using Cons [of "lease_put w d"] by (cases w) auto
qed simp

lemma lease_state_in:
  "ls_state (fold lease_put ws d) \<in> insert (ls_state d) (lease_code ` {st. StoreState st \<in> set ws})"
proof (induction ws arbitrary: d)
  case (Cons w ws)
  show ?case using Cons [of "lease_put w d"] by (cases w) auto
qed simp

lemma beats_set:
  "StoreBeat t \<in> set (beats calls) \<longleftrightarrow> t \<in> snd ` set calls" "StoreState st \<in> set (beats calls) \<longleftrightarrow> st \<in> fst ` set calls"
  by (auto simp: beats_def Heartbeat_stores_def image_iff) force+

text \<open>The poll that decides.\<close>

lemma watch_loop_Some: "poll_status c (ps ! j) \<noteq> WdAlive \<Longrightarrow> j < length ps \<Longrightarrow> \<exists>i \<le> j. watch_loop c ps = Some i"
proof (induction ps arbitrary: j)
  case (Cons p ps)
  then show ?case by (cases j) (fastforce split: if_splits)+
qed simp

lemma watch_loop_None: "watch_loop c ps = None \<longleftrightarrow> (\<forall>p \<in> set ps. poll_status c p = WdAlive)"
  by (induction ps) auto

text \<open>What a poll concludes from the two loads.\<close>

lemma poll_exact:
  assumes "lo_data l = Some d" "LeaseOwner_Create True qpc t0 pid Captions l0 = (l, True)" "ol_nonce c = lo_nonce l"
  shows "poll_status c (poll_at d ws (k1, k2, now)) =
    (let st = ls_state (lease_at d ws k1); b = ls_heartbeat_mono_ms (lease_at d ws k2)
     in if st = 4 then WdDisabled else if st = 3 then WdShuttingDown
        else if b \<noteq> 0 \<and> b \<le> now \<and> unat now \<le> unat b + 3000 then WdAlive else WdStale)"
proof -
  have d: "ls_magic d = kLeaseMagic" "ls_version d = kLeaseVersion" "ls_module_id d = module_code Captions" "ls_nonce d = ol_nonce c"
    using assms by (auto simp: LeaseOwner_Create_def Let_def)
  have "(now - b \<le> 3000) = (unat now \<le> unat b + 3000)" if "b \<le> now" for b :: u64
  proof -
    have "unat (3000 :: u64) = 3000" by simp
    then show ?thesis using that by (simp only: word_le_nat_alt unat_sub le_diff_conv add.commute)
  qed
  then have "b = 0 \<or> now < b \<or> 3000 < now - b \<longleftrightarrow> \<not> (b \<noteq> 0 \<and> b \<le> now \<and> unat now \<le> unat b + 3000)" for b :: u64 by (metis not_le)
  then show ?thesis
    using d by (simp add: poll_status_def poll_at_def LeaseReader_TryRead_def EvaluateLeaseSnapshot_def lease_at_def
        lease_put_const Let_def)
qed

text \<open>C36. The watchdog of the host. Whatever the interleaving of its loads with the stores of the owner: if no heartbeat is newer than \<open>T\<close>, a poll
  more than three seconds after \<open>T\<close> has the host shut down at that poll or before; a poll that finds the owner's shutdown or disabled mark has it shut down; and as long as the owner
  has only announced being alive and every poll finds a heartbeat at most three seconds old, the host is never shut down.\<close>

theorem watchdog_follows_owner:
  assumes "LeaseOwner_Create True qpc t0 pid Captions l0 = (l, True)" "lo_data l = Some d"
    and "ol_name c = lo_name l" "ol_nonce c = lo_nonce l"
  shows "(\<forall>j T. j < length polls \<longrightarrow> (\<forall>t \<in> insert t0 (snd ` set calls). unat t \<le> T) \<longrightarrow> T + 3000 < unat (snd (snd (polls ! j))) \<longrightarrow>
            (\<exists>i \<le> j. OwnerLivenessThread c True (map (poll_at d (beats calls)) polls) = Some i)) \<and>
         (\<forall>j. j < length polls \<longrightarrow> ls_state (lease_at d (beats calls) (fst (polls ! j))) \<in> lease_code ` {LeaseShuttingDown, LeaseDisabled} \<longrightarrow>
            (\<exists>i \<le> j. OwnerLivenessThread c True (map (poll_at d (beats calls)) polls) = Some i)) \<and>
         (fst ` set calls \<subseteq> {LeaseStarting, LeaseAlive} \<longrightarrow>
            (\<forall>(k1, k2, now) \<in> set polls. let b = ls_heartbeat_mono_ms (lease_at d (beats calls) k2) in b \<noteq> 0 \<and> b \<le> now \<and> unat now \<le> unat b + 3000) \<longrightarrow>
            OwnerLivenessThread c True (map (poll_at d (beats calls)) polls) = None)"
proof -
  let ?w = "beats calls"
  have d0: "ls_state d = 1" "ls_heartbeat_mono_ms d = t0" "Configured c"
    using assms lease_name_ne GenerateNonce_nz by (auto simp: LeaseOwner_Create_def Let_def Configured_def)
  then have thread: "OwnerLivenessThread c True ps = watch_loop c ps" for ps by (simp add: OwnerLivenessThread_def)
  note ex = poll_exact [OF assms(2,1,4)]
  have beat: "ls_heartbeat_mono_ms (lease_at d ?w k) \<in> insert t0 (snd ` set calls)" for k
    using lease_beat_in [of "take k ?w" d] beats_set(1) in_set_takeD [of _ k ?w] by (auto simp: lease_at_def d0)
  have state: "ls_state (lease_at d ?w k) \<in> insert 1 (lease_code ` fst ` set calls)" for k
  proof -
    have "lease_code ` {st. StoreState st \<in> set (take k ?w)} \<subseteq> lease_code ` fst ` set calls"
      using beats_set(2) in_set_takeD [of _ k ?w] by blast
    then show ?thesis using lease_state_in [of "take k ?w" d] by (auto simp: lease_at_def d0)
  qed
  have stop: "\<exists>i \<le> j. watch_loop c (map (poll_at d ?w) polls) = Some i" if "j < length polls" "poll_status c (poll_at d ?w (polls ! j)) \<noteq> WdAlive" for j
    using watch_loop_Some [of c "map (poll_at d ?w) polls" j] that by simp
  have A: "poll_status c (poll_at d ?w (polls ! j)) \<noteq> WdAlive"
    if "\<forall>t \<in> insert t0 (snd ` set calls). unat t \<le> T" "T + 3000 < unat (snd (snd (polls ! j)))" for j T
  proof -
    obtain k1 k2 now where p: "polls ! j = (k1, k2, now)" by (cases "polls ! j") auto
    have "unat (ls_heartbeat_mono_ms (lease_at d ?w k2)) \<le> T" using that(1) beat by blast
    then show ?thesis using that(2) by (simp add: p ex Let_def)
  qed
  have B: "poll_status c (poll_at d ?w (polls ! j)) \<noteq> WdAlive"
    if "ls_state (lease_at d ?w (fst (polls ! j))) \<in> lease_code ` {LeaseShuttingDown, LeaseDisabled}" for j
    using that by (cases "polls ! j") (auto simp: ex Let_def)
  have C: "watch_loop c (map (poll_at d ?w) polls) = None"
    if a: "fst ` set calls \<subseteq> {LeaseStarting, LeaseAlive}"
      and f: "\<forall>(k1, k2, now) \<in> set polls. let b = ls_heartbeat_mono_ms (lease_at d ?w k2) in b \<noteq> 0 \<and> b \<le> now \<and> unat now \<le> unat b + 3000"
  proof -
    have "ls_state (lease_at d ?w k) \<notin> {3, 4}" for k
    proof -
      have "ls_state (lease_at d ?w k) \<in> {1, 2}" using state [of k] a by auto
      then show ?thesis by auto
    qed
    then show ?thesis using f by (fastforce simp: watch_loop_None ex Let_def)
  qed
  show ?thesis unfolding thread using stop A B C by blast
qed

theorem watchdog_follows_owner_witness:
  "OwnerLivenessThread \<lparr>ol_name = lo_name sample_lease, ol_nonce = lo_nonce sample_lease\<rparr> True
     (map (poll_at (the (lo_data sample_lease)) (beats [(LeaseAlive, 2000)])) [(0, 0, 1500), (2, 2, 2500), (2, 2, 6000)]) \<noteq> None"
proof -
  let ?polls = "[(0, 0, 1500), (2, 2, 2500), (2, 2, 6000)] :: (nat \<times> nat \<times> u64) list"
  have l: "LeaseOwner_Create True 5 1000 42 Captions \<lparr>lo_data = None, lo_name = [], lo_nonce = 0, lo_module = Calibration\<rparr> = (sample_lease, True)"
    "lo_data sample_lease = Some (the (lo_data sample_lease))"
    by (simp_all add: sample_lease_def LeaseOwner_Create_def Let_def)
  have "2 < length ?polls" "\<forall>t \<in> insert 1000 (snd ` set [(LeaseAlive, 2000 :: u64)]). unat t \<le> 2000" "2000 + 3000 < unat (snd (snd (?polls ! 2)))"
    by simp_all
  then have "\<exists>i \<le> 2. OwnerLivenessThread \<lparr>ol_name = lo_name sample_lease, ol_nonce = lo_nonce sample_lease\<rparr> True
      (map (poll_at (the (lo_data sample_lease)) (beats [(LeaseAlive, 2000)])) ?polls) = Some i"
    using watchdog_follows_owner [OF l, of "\<lparr>ol_name = lo_name sample_lease, ol_nonce = lo_nonce sample_lease\<rparr>" ?polls "[(LeaseAlive, 2000)]"]
    by (simp only: OwnerLivenessConfig.simps simp_thms)
  then show ?thesis by blast
qed

end
