(* ===== verification/HostSupervisor.thy ===== *)
theory HostSupervisor
  imports SidecarLease
begin

text \<open>
  The supervisor of the sidecar host processes (\<open>core/src/common/HostSupervisorBase.cpp\<close>): its monitor thread, the threads that call
  \<open>Start\<close>, \<open>Restart\<close> and \<open>Stop\<close>, and the processes themselves, interleaved at the granularity of the critical sections and atomic
  accesses. Every step is a function of what the operating system answers; a run is a sequence of events.
\<close>

section \<open>Decisions\<close>

definition ShouldHotReloadHost :: "bool \<Rightarrow> bool \<Rightarrow> u64 \<Rightarrow> u64 \<Rightarrow> bool" where
  "ShouldHotReloadHost attachedToExisting haveHandle baselineWrite diskWrite \<longleftrightarrow>
     \<not> (attachedToExisting \<or> \<not> haveHandle) \<and> \<not> (baselineWrite = 0 \<or> diskWrite = 0) \<and> diskWrite \<noteq> baselineWrite"

definition ShouldUnhaltForNewHostExe :: "bool \<Rightarrow> u64 \<Rightarrow> u64 \<Rightarrow> bool" where
  "ShouldUnhaltForNewHostExe attachedToExisting baselineWrite diskWrite \<longleftrightarrow>
     \<not> attachedToExisting \<and> \<not> (baselineWrite = 0 \<or> diskWrite = 0) \<and> diskWrite \<noteq> baselineWrite"

definition kFastExitThresholdMs :: int where "kFastExitThresholdMs = 2000"
definition kCircuitBreakerThreshold :: int where "kCircuitBreakerThreshold = 5"
definition kBackoffStartMs :: int where "kBackoffStartMs = 1000"
definition kBackoffMaxMs :: int where "kBackoffMaxMs = 30000"
definition kSingletonRetryDelayMs :: int where "kSingletonRetryDelayMs = 500"

definition IsCleanSingletonExit :: "u32 \<Rightarrow> bool" where
  "IsCleanSingletonExit code \<longleftrightarrow> code = 3 \<or> code = 4"

record HostExitAction =
  hx_ignore :: bool
  hx_consecutiveFastExits :: int
  hx_halt :: bool
  hx_respawnDelayMs :: int

definition DecideHostExitAction :: "bool \<Rightarrow> u32 \<Rightarrow> int \<Rightarrow> int \<Rightarrow> int \<Rightarrow> HostExitAction" where
  "DecideHostExitAction generationMatches exitCode uptimeMs before backoffMs =
     (let a = \<lparr>hx_ignore = False, hx_consecutiveFastExits = before, hx_halt = False, hx_respawnDelayMs = 0\<rparr>
      in if \<not> generationMatches then a\<lparr>hx_ignore := True\<rparr>
         else if IsCleanSingletonExit exitCode then a\<lparr>hx_respawnDelayMs := kSingletonRetryDelayMs\<rparr>
         else let n = (if uptimeMs < kFastExitThresholdMs then before + 1 else 0)
              in if n \<ge> kCircuitBreakerThreshold then a\<lparr>hx_consecutiveFastExits := n, hx_halt := True\<rparr>
                 else a\<lparr>hx_consecutiveFastExits := n, hx_respawnDelayMs := backoffMs\<rparr>)"

section \<open>State\<close>

text \<open>What a subclass and the build fix.\<close>

record sup_config =
  host_exe_path :: bytes
  owner_module :: "ModuleId option"
  mutex_named :: bool
  dev_build :: bool

text \<open>
  What the operating system answers to the calls of one step. \<open>path_ok\<close> and \<open>wide_path\<close> are the success and the result of converting the host's
  path to UTF-16.
\<close>

datatype wait_answer = Signalled | TimedOut | WaitFailed

record os_env =
  can_connect :: bool
  mutex_held :: bool
  path_ok :: bool
  wide_path :: wstring
  create_ok :: bool
  exe_write :: u64
  extra_args :: wstring
  kill_works :: bool
  wait_result :: wait_answer
  mapped :: bool
  qpc :: u64
  own_pid :: u32

text \<open>Where \<open>sleep_or_stop\<close> continues, where \<open>HeartbeatOwnerLease\<close> continues, and the places of the monitor thread.\<close>

datatype after_sleep = A_top | A_test

datatype after_beat = B_snap | B_sleep int after_sleep

datatype monitor_pc =
    M_none | M_starting | M_top | M_beat after_beat | M_store after_beat | M_snap | M_unhalt
  | M_nohandle | M_probe | M_detach | M_sleep int after_sleep | M_sleeping int int after_sleep
  | M_test | M_spawn | M_wait nat u64 int | M_reap nat u64 | M_exit u32 HostExitAction | M_record u32 HostExitAction
  | M_hot | M_call | M_done

text \<open>The places of a thread that calls \<open>Start\<close>, \<open>Restart\<close> or \<open>Stop\<close>; thread 0 stands for the monitor's own calls of \<open>Restart\<close>.\<close>

datatype ctl_pc =
    C_idle
  | St_lease | St_beat | St_store | St_spawn | St_thread
  | Re_mark | Re_kill | Re_check | Re_beat | Re_store | Re_spawn
  | Sp_mark | Sp_kill | Sp_disable | Sp_join | Sp_reset

text \<open>
  A process is a number, and the handle of a process is that number. \<open>live\<close> holds the spawned processes that have not ended. The last fields are a history: the changes of the
  tracked handle, the exits counted since the counter was last reset, the calls of \<open>Restart\<close>, and the last command line.
\<close>

record supervisor =
  stop_requested :: bool
  running :: bool
  process_handle :: "nat option"
  spawn_generation :: u64
  attached_to_existing :: bool
  consecutive_fast_exits :: int
  halted :: bool
  watched_exe_write :: u64
  last_exit_code :: u32
  owner_lease :: "LeaseOwner option"
  monitor :: monitor_pc
  backoff_ms :: int
  tracked_generation :: u64
  tracked_since :: int
  ctl :: "nat \<Rightarrow> ctl_pc"
  live :: "nat set"
  exit_code :: "nat \<Rightarrow> u32"
  next_pid :: nat
  clock_ms :: int
  changes :: nat
  reaped :: "(u32 \<times> int) list"
  restarts :: nat
  cmdline :: wstring

definition sup_new :: supervisor where
  "sup_new = \<lparr>stop_requested = False, running = False, process_handle = None, spawn_generation = 0, attached_to_existing = False,
     consecutive_fast_exits = 0, halted = False, watched_exe_write = 0, last_exit_code = 0, owner_lease = None, monitor = M_none,
     backoff_ms = 0, tracked_generation = 0, tracked_since = 0, ctl = (\<lambda>_. C_idle), live = {}, exit_code = (\<lambda>_. 0), next_pid = 0,
     clock_ms = 1, changes = 0, reaped = [], restarts = 0, cmdline = []\<rparr>"

section \<open>Operations\<close>

text \<open>The lease calls, which do nothing without an open lease.\<close>

definition lease_call :: "(u64 \<Rightarrow> LeaseOwner \<Rightarrow> LeaseOwner) \<Rightarrow> supervisor \<Rightarrow> supervisor" where
  "lease_call f s =
     (case owner_lease s of
        None \<Rightarrow> s
      | Some l \<Rightarrow> if LeaseOwner_IsOpen l then s\<lparr>owner_lease := Some (f (word_of_int (clock_ms s)) l)\<rparr> else s)"

definition MarkOwnerLeaseShuttingDown :: "supervisor \<Rightarrow> supervisor" where
  "MarkOwnerLeaseShuttingDown s = lease_call MarkShuttingDown s"

definition MarkOwnerLeaseDisabled :: "supervisor \<Rightarrow> supervisor" where
  "MarkOwnerLeaseDisabled s = lease_call MarkDisabled s"

definition HeartbeatOwnerLease_store :: "supervisor \<Rightarrow> supervisor" where
  "HeartbeatOwnerLease_store s = lease_call (Heartbeat LeaseAlive) s"

definition EnsureOwnerLease :: "sup_config \<Rightarrow> os_env \<Rightarrow> supervisor \<Rightarrow> supervisor" where
  "EnsureOwnerLease cfg e s =
     (case owner_module cfg of
        None \<Rightarrow> s
      | Some m \<Rightarrow>
          let l = (case owner_lease s of Some l \<Rightarrow> l | None \<Rightarrow> \<lparr>lo_data = None, lo_name = [], lo_nonce = 0, lo_module = Calibration\<rparr>)
          in if LeaseOwner_IsOpen l then s\<lparr>owner_lease := Some l\<rparr>
             else s\<lparr>owner_lease := Some (fst (LeaseOwner_Create (mapped e) (qpc e) (word_of_int (clock_ms s)) (own_pid e) m l))\<rparr>)"

definition tracked_live :: "supervisor \<Rightarrow> bool" where
  "tracked_live s = (case process_handle s of None \<Rightarrow> False | Some p \<Rightarrow> p \<in> live s)"

definition Spawn :: "sup_config \<Rightarrow> os_env \<Rightarrow> supervisor \<Rightarrow> supervisor \<times> bool" where
  "Spawn cfg e s =
     (if tracked_live s then (s, True)
      else if can_connect e \<and> (\<not> mutex_named cfg \<or> mutex_held e) then
        (if owner_module cfg \<noteq> None then (s, False)
         else (s\<lparr>attached_to_existing := True, running := True\<rparr>, True))
      else if path_ok e \<and> create_ok e then
        (s\<lparr>process_handle := Some (next_pid s), spawn_generation := spawn_generation s + 1, attached_to_existing := False, running := True,
           watched_exe_write := exe_write e, live := insert (next_pid s) (live s), next_pid := Suc (next_pid s), changes := Suc (changes s),
           cmdline := AppendOwnerLivenessArgs (owner_lease s) (34 # wide_path e @ [34]) @ extra_args e\<rparr>, True)
      else (s, False))"

definition Kill :: "os_env \<Rightarrow> supervisor \<Rightarrow> supervisor" where
  "Kill e s =
     (case process_handle s of
        None \<Rightarrow> s
      | Some p \<Rightarrow>
          s\<lparr>live := (if attached_to_existing s \<or> \<not> kill_works e then live s else live s - {p}), process_handle := None,
            spawn_generation := spawn_generation s + 1, attached_to_existing := False, running := False, changes := Suc (changes s)\<rparr>)"

text \<open>The counter and the halt, reset under the lock.\<close>

definition reset_breaker :: "supervisor \<Rightarrow> supervisor" where
  "reset_breaker s = s\<lparr>halted := False, consecutive_fast_exits := 0, reaped := []\<rparr>"

section \<open>The calling threads\<close>

datatype sup_call = Do_Start | Do_Restart | Do_Stop

definition at_ctl :: "nat \<Rightarrow> ctl_pc \<Rightarrow> supervisor \<Rightarrow> supervisor" where
  "at_ctl i c s = s\<lparr>ctl := (ctl s)(i := c)\<rparr>"

definition Restart_reset :: "nat \<Rightarrow> supervisor \<Rightarrow> supervisor" where
  "Restart_reset i s = at_ctl i Re_mark ((reset_breaker s)\<lparr>restarts := Suc (restarts s)\<rparr>)"

fun call_step :: "sup_config \<Rightarrow> nat \<Rightarrow> sup_call \<Rightarrow> supervisor \<Rightarrow> supervisor option" where
  "call_step cfg i Do_Start s =
     (if monitor s \<noteq> M_none then None
      else if host_exe_path cfg = [] then Some s
      else Some (at_ctl i St_lease ((reset_breaker s)\<lparr>stop_requested := False, attached_to_existing := False, monitor := M_starting\<rparr>)))"
| "call_step cfg i Do_Restart s = Some (Restart_reset i s)"
| "call_step cfg i Do_Stop s = Some (at_ctl i Sp_mark (s\<lparr>stop_requested := True\<rparr>))"

text \<open>\<open>Stop\<close> joins the monitor thread only if there is one: not while \<open>Start\<close> is still to create it (\<open>M_starting\<close>).\<close>

fun ctl_step :: "sup_config \<Rightarrow> nat \<Rightarrow> ctl_pc \<Rightarrow> os_env \<Rightarrow> supervisor \<Rightarrow> supervisor option" where
  "ctl_step cfg i C_idle e s = None"
| "ctl_step cfg i St_lease e s = Some (at_ctl i St_beat (EnsureOwnerLease cfg e s))"
| "ctl_step cfg i St_beat e s = Some (at_ctl i (if stop_requested s then St_spawn else St_store) s)"
| "ctl_step cfg i St_store e s = Some (at_ctl i St_spawn (HeartbeatOwnerLease_store s))"
| "ctl_step cfg i St_spawn e s = Some (at_ctl i St_thread (fst (Spawn cfg e s)))"
| "ctl_step cfg i St_thread e s =
     Some (at_ctl i C_idle (s\<lparr>monitor := M_top, backoff_ms := kBackoffStartMs, tracked_generation := - 1, tracked_since := clock_ms s\<rparr>))"
| "ctl_step cfg i Re_mark e s = Some (at_ctl i Re_kill (MarkOwnerLeaseShuttingDown s))"
| "ctl_step cfg i Re_kill e s = Some (at_ctl i Re_check (Kill e s))"
| "ctl_step cfg i Re_check e s = Some (at_ctl i (if stop_requested s then C_idle else Re_beat) s)"
| "ctl_step cfg i Re_beat e s = Some (at_ctl i (if stop_requested s then Re_spawn else Re_store) s)"
| "ctl_step cfg i Re_store e s = Some (at_ctl i Re_spawn (HeartbeatOwnerLease_store s))"
| "ctl_step cfg i Re_spawn e s = Some (at_ctl i C_idle (fst (Spawn cfg e s)))"
| "ctl_step cfg i Sp_mark e s = Some (at_ctl i Sp_kill (MarkOwnerLeaseShuttingDown s))"
| "ctl_step cfg i Sp_kill e s = Some (at_ctl i Sp_disable (Kill e s))"
| "ctl_step cfg i Sp_disable e s = Some (at_ctl i Sp_join (MarkOwnerLeaseDisabled s))"
| "ctl_step cfg i Sp_join e s =
     (if monitor s \<in> {M_none, M_starting} then Some (at_ctl i Sp_reset s)
      else if monitor s = M_done then Some (at_ctl i Sp_reset (s\<lparr>monitor := M_none\<rparr>)) else None)"
| "ctl_step cfg i Sp_reset e s = Some (at_ctl i C_idle (reset_breaker s))"

section \<open>The monitor thread\<close>

text \<open>Behind a wait that reports the end of the process: reaping it, if the tracked handle has not changed.\<close>

definition monitor_reap :: "u64 \<Rightarrow> supervisor \<Rightarrow> supervisor" where
  [simp]: "monitor_reap g s =
     (if spawn_generation s \<noteq> g then s\<lparr>monitor := M_top\<rparr>
      else case process_handle s of
          None \<Rightarrow> s\<lparr>running := False, monitor := M_top\<rparr>
        | Some h \<Rightarrow>
            let code = exit_code s h;
                uptime = clock_ms s - tracked_since s;
                a = DecideHostExitAction True code uptime (consecutive_fast_exits s) (backoff_ms s)
            in s\<lparr>process_handle := None, spawn_generation := spawn_generation s + 1, changes := Suc (changes s),
                 reaped := reaped s @ [(code, uptime)],
                 consecutive_fast_exits := hx_consecutiveFastExits a, halted := halted s \<or> hx_halt a, monitor := M_exit code a\<rparr>)"

text \<open>Recording the exit and pacing the respawn.\<close>

definition monitor_record :: "u32 \<Rightarrow> HostExitAction \<Rightarrow> supervisor \<Rightarrow> supervisor" where
  [simp]: "monitor_record code a s =
     s\<lparr>last_exit_code := code,
       monitor := (if hx_halt a then M_top else if hx_respawnDelayMs a > 0 then M_sleep (hx_respawnDelayMs a) A_test else M_test)\<rparr>"

text \<open>The hot reload of development builds.\<close>

definition monitor_hot :: "os_env \<Rightarrow> supervisor \<Rightarrow> supervisor option" where
  [simp]: "monitor_hot e s =
     (if ShouldHotReloadHost (attached_to_existing s) (process_handle s \<noteq> None) (watched_exe_write s) (exe_write e)
      then (if ctl s 0 = C_idle then Some (Restart_reset 0 (s\<lparr>monitor := M_call\<rparr>)) else None)
      else Some (s\<lparr>monitor := M_top\<rparr>))"

fun mon_step :: "sup_config \<Rightarrow> monitor_pc \<Rightarrow> os_env \<Rightarrow> supervisor \<Rightarrow> supervisor option" where
  "mon_step cfg M_none e s = None"
| "mon_step cfg M_starting e s = None"
| "mon_step cfg M_top e s = Some (s\<lparr>monitor := (if stop_requested s then M_done else M_beat B_snap)\<rparr>)"
| "mon_step cfg (M_beat k) e s =
     (let next = (case k of B_snap \<Rightarrow> M_snap | B_sleep r a \<Rightarrow> M_sleeping (clock_ms s + min r 100) (r - min r 100) a)
      in Some (s\<lparr>monitor := (if stop_requested s then next else M_store k)\<rparr>))"
| "mon_step cfg (M_store k) e s =
     (let next = (case k of B_snap \<Rightarrow> M_snap | B_sleep r a \<Rightarrow> M_sleeping (clock_ms s + min r 100) (r - min r 100) a)
      in Some ((HeartbeatOwnerLease_store s)\<lparr>monitor := next\<rparr>))"
| "mon_step cfg M_snap e s =
     (let s1 = (if spawn_generation s \<noteq> tracked_generation s
                then s\<lparr>tracked_generation := spawn_generation s, tracked_since := clock_ms s\<rparr> else s)
      in Some (s1\<lparr>monitor :=
           (if halted s then (if dev_build cfg then M_unhalt else M_sleep 1000 A_top)
            else case process_handle s of
                None \<Rightarrow> M_nohandle
              | Some p \<Rightarrow> M_wait p (spawn_generation s) (clock_ms s + max (backoff_ms s) 1000))\<rparr>))"
| "mon_step cfg M_unhalt e s =
     (if ShouldUnhaltForNewHostExe (attached_to_existing s) (watched_exe_write s) (exe_write e)
      then (if ctl s 0 = C_idle then Some (Restart_reset 0 (s\<lparr>monitor := M_call\<rparr>)) else None)
      else Some (s\<lparr>monitor := M_sleep 1000 A_top\<rparr>))"
| "mon_step cfg M_nohandle e s =
     Some (s\<lparr>monitor := (if attached_to_existing s then M_probe else M_sleep (backoff_ms s) A_test)\<rparr>)"
| "mon_step cfg M_probe e s =
     Some (if can_connect e then s\<lparr>monitor := M_sleep 500 A_top\<rparr> else s\<lparr>running := False, monitor := M_detach\<rparr>)"
| "mon_step cfg M_detach e s = Some (s\<lparr>attached_to_existing := False, monitor := M_sleep (backoff_ms s) A_test\<rparr>)"
| "mon_step cfg (M_sleep r a) e s =
     Some (s\<lparr>monitor :=
       (if stop_requested s then M_done
        else if r > 0 then M_beat (B_sleep r a)
        else case a of A_top \<Rightarrow> M_top | A_test \<Rightarrow> M_test)\<rparr>)"
| "mon_step cfg (M_sleeping until r a) e s = (if clock_ms s \<ge> until then Some (s\<lparr>monitor := M_sleep r a\<rparr>) else None)"
| "mon_step cfg M_test e s = Some (s\<lparr>monitor := (if stop_requested s then M_done else M_spawn)\<rparr>)"
| "mon_step cfg M_spawn e s =
     (case Spawn cfg e s of (s', ok) \<Rightarrow>
        Some (s'\<lparr>backoff_ms := (if ok then kBackoffStartMs else min (backoff_ms s * 2) kBackoffMaxMs), monitor := M_top\<rparr>))"
| "mon_step cfg (M_wait p g deadline) e s =
     (let closed = (process_handle s \<noteq> Some p);
          possible = (case wait_result e of
              Signalled \<Rightarrow> p \<notin> live s \<or> closed | TimedOut \<Rightarrow> clock_ms s \<ge> deadline | WaitFailed \<Rightarrow> closed)
      in if \<not> possible then None
         else Some (s\<lparr>monitor :=
           (if stop_requested s then M_done
            else case wait_result e of
                Signalled \<Rightarrow> M_reap p g
              | TimedOut \<Rightarrow> if dev_build cfg then M_hot else M_top
              | WaitFailed \<Rightarrow> M_top)\<rparr>))"
| "mon_step cfg (M_reap p g) e s = Some (monitor_reap g s)"
| "mon_step cfg (M_exit code a) e s = Some (s\<lparr>running := False, monitor := M_record code a\<rparr>)"
| "mon_step cfg (M_record code a) e s = Some (monitor_record code a s)"
| "mon_step cfg M_hot e s = monitor_hot e s"
| "mon_step cfg M_call e s = (if ctl s 0 = C_idle then Some (s\<lparr>backoff_ms := kBackoffStartMs, monitor := M_top\<rparr>) else None)"
| "mon_step cfg M_done e s = None"

section \<open>Runs\<close>

datatype sup_event = Call nat sup_call | Ctl nat os_env | Mon os_env | Exit nat u32 | Tick nat

text \<open>A thread other than the monitor begins a call when it is idle; a live process may end at any time; time passes.\<close>

fun sup_step :: "sup_config \<Rightarrow> sup_event \<Rightarrow> supervisor \<Rightarrow> supervisor option" where
  "sup_step cfg (Call i c) s = (if i \<noteq> 0 \<and> ctl s i = C_idle then call_step cfg i c s else None)"
| "sup_step cfg (Ctl i e) s = ctl_step cfg i (ctl s i) e s"
| "sup_step cfg (Mon e) s = mon_step cfg (monitor s) e s"
| "sup_step cfg (Exit p code) s = (if p \<in> live s then Some (s\<lparr>live := live s - {p}, exit_code := (exit_code s)(p := code)\<rparr>) else None)"
| "sup_step cfg (Tick d) s = Some (s\<lparr>clock_ms := clock_ms s + int d\<rparr>)"

fun sup_run :: "sup_config \<Rightarrow> sup_event list \<Rightarrow> supervisor \<Rightarrow> supervisor option" where
  "sup_run cfg [] s = Some s"
| "sup_run cfg (ev # evs) s = (case sup_step cfg ev s of None \<Rightarrow> None | Some s' \<Rightarrow> sup_run cfg evs s')"

section \<open>What the operations leave alone\<close>

lemma lease_call_fields [simp]:
  "stop_requested (lease_call f s) = stop_requested s"
  "running (lease_call f s) = running s"
  "process_handle (lease_call f s) = process_handle s"
  "spawn_generation (lease_call f s) = spawn_generation s"
  "attached_to_existing (lease_call f s) = attached_to_existing s"
  "consecutive_fast_exits (lease_call f s) = consecutive_fast_exits s"
  "halted (lease_call f s) = halted s"
  "watched_exe_write (lease_call f s) = watched_exe_write s"
  "last_exit_code (lease_call f s) = last_exit_code s"
  "monitor (lease_call f s) = monitor s"
  "backoff_ms (lease_call f s) = backoff_ms s"
  "tracked_generation (lease_call f s) = tracked_generation s"
  "tracked_since (lease_call f s) = tracked_since s"
  "live (lease_call f s) = live s"
  "exit_code (lease_call f s) = exit_code s"
  "next_pid (lease_call f s) = next_pid s"
  "clock_ms (lease_call f s) = clock_ms s"
  "changes (lease_call f s) = changes s"
  "reaped (lease_call f s) = reaped s"
  "restarts (lease_call f s) = restarts s"
  "cmdline (lease_call f s) = cmdline s"
  "ctl (lease_call f s) = ctl s"
  by (simp_all add: lease_call_def split: option.split)

lemma lease_marks [simp]:
  "MarkOwnerLeaseShuttingDown s = lease_call MarkShuttingDown s" "MarkOwnerLeaseDisabled s = lease_call MarkDisabled s"
  "HeartbeatOwnerLease_store s = lease_call (Heartbeat LeaseAlive) s"
  by (simp_all add: MarkOwnerLeaseShuttingDown_def MarkOwnerLeaseDisabled_def HeartbeatOwnerLease_store_def)

lemma EnsureOwnerLease_fields [simp]:
  "stop_requested (EnsureOwnerLease cfg e s) = stop_requested s"
  "running (EnsureOwnerLease cfg e s) = running s"
  "process_handle (EnsureOwnerLease cfg e s) = process_handle s"
  "spawn_generation (EnsureOwnerLease cfg e s) = spawn_generation s"
  "attached_to_existing (EnsureOwnerLease cfg e s) = attached_to_existing s"
  "consecutive_fast_exits (EnsureOwnerLease cfg e s) = consecutive_fast_exits s"
  "halted (EnsureOwnerLease cfg e s) = halted s"
  "watched_exe_write (EnsureOwnerLease cfg e s) = watched_exe_write s"
  "last_exit_code (EnsureOwnerLease cfg e s) = last_exit_code s"
  "monitor (EnsureOwnerLease cfg e s) = monitor s"
  "backoff_ms (EnsureOwnerLease cfg e s) = backoff_ms s"
  "tracked_generation (EnsureOwnerLease cfg e s) = tracked_generation s"
  "tracked_since (EnsureOwnerLease cfg e s) = tracked_since s"
  "live (EnsureOwnerLease cfg e s) = live s"
  "exit_code (EnsureOwnerLease cfg e s) = exit_code s"
  "next_pid (EnsureOwnerLease cfg e s) = next_pid s"
  "clock_ms (EnsureOwnerLease cfg e s) = clock_ms s"
  "changes (EnsureOwnerLease cfg e s) = changes s"
  "reaped (EnsureOwnerLease cfg e s) = reaped s"
  "restarts (EnsureOwnerLease cfg e s) = restarts s"
  "cmdline (EnsureOwnerLease cfg e s) = cmdline s"
  "ctl (EnsureOwnerLease cfg e s) = ctl s"
  by (simp_all add: EnsureOwnerLease_def Let_def split: option.split)

lemma at_ctl_fields [simp]:
  "stop_requested (at_ctl i c s) = stop_requested s"
  "running (at_ctl i c s) = running s"
  "process_handle (at_ctl i c s) = process_handle s"
  "spawn_generation (at_ctl i c s) = spawn_generation s"
  "attached_to_existing (at_ctl i c s) = attached_to_existing s"
  "consecutive_fast_exits (at_ctl i c s) = consecutive_fast_exits s"
  "halted (at_ctl i c s) = halted s"
  "watched_exe_write (at_ctl i c s) = watched_exe_write s"
  "last_exit_code (at_ctl i c s) = last_exit_code s"
  "monitor (at_ctl i c s) = monitor s"
  "backoff_ms (at_ctl i c s) = backoff_ms s"
  "tracked_generation (at_ctl i c s) = tracked_generation s"
  "tracked_since (at_ctl i c s) = tracked_since s"
  "live (at_ctl i c s) = live s"
  "exit_code (at_ctl i c s) = exit_code s"
  "next_pid (at_ctl i c s) = next_pid s"
  "clock_ms (at_ctl i c s) = clock_ms s"
  "changes (at_ctl i c s) = changes s"
  "reaped (at_ctl i c s) = reaped s"
  "restarts (at_ctl i c s) = restarts s"
  "cmdline (at_ctl i c s) = cmdline s"
  "owner_lease (at_ctl i c s) = owner_lease s"
  "ctl (at_ctl i c s) = (ctl s)(i := c)"
  by (simp_all add: at_ctl_def)

lemma Spawn_fields [simp]:
  "stop_requested (fst (Spawn cfg e s)) = stop_requested s"
  "consecutive_fast_exits (fst (Spawn cfg e s)) = consecutive_fast_exits s"
  "halted (fst (Spawn cfg e s)) = halted s"
  "last_exit_code (fst (Spawn cfg e s)) = last_exit_code s"
  "monitor (fst (Spawn cfg e s)) = monitor s"
  "backoff_ms (fst (Spawn cfg e s)) = backoff_ms s"
  "tracked_generation (fst (Spawn cfg e s)) = tracked_generation s"
  "tracked_since (fst (Spawn cfg e s)) = tracked_since s"
  "exit_code (fst (Spawn cfg e s)) = exit_code s"
  "clock_ms (fst (Spawn cfg e s)) = clock_ms s"
  "reaped (fst (Spawn cfg e s)) = reaped s"
  "restarts (fst (Spawn cfg e s)) = restarts s"
  "owner_lease (fst (Spawn cfg e s)) = owner_lease s"
  "ctl (fst (Spawn cfg e s)) = ctl s"
  by (simp_all add: Spawn_def)

lemma Kill_fields [simp]:
  "stop_requested (Kill e s) = stop_requested s"
  "consecutive_fast_exits (Kill e s) = consecutive_fast_exits s"
  "halted (Kill e s) = halted s"
  "watched_exe_write (Kill e s) = watched_exe_write s"
  "last_exit_code (Kill e s) = last_exit_code s"
  "monitor (Kill e s) = monitor s"
  "backoff_ms (Kill e s) = backoff_ms s"
  "tracked_generation (Kill e s) = tracked_generation s"
  "tracked_since (Kill e s) = tracked_since s"
  "exit_code (Kill e s) = exit_code s"
  "next_pid (Kill e s) = next_pid s"
  "clock_ms (Kill e s) = clock_ms s"
  "reaped (Kill e s) = reaped s"
  "restarts (Kill e s) = restarts s"
  "cmdline (Kill e s) = cmdline s"
  "owner_lease (Kill e s) = owner_lease s"
  "ctl (Kill e s) = ctl s"
  by (simp_all add: Kill_def split: option.split)

lemma reset_breaker_fields [simp]:
  "stop_requested (reset_breaker s) = stop_requested s"
  "running (reset_breaker s) = running s"
  "process_handle (reset_breaker s) = process_handle s"
  "spawn_generation (reset_breaker s) = spawn_generation s"
  "attached_to_existing (reset_breaker s) = attached_to_existing s"
  "watched_exe_write (reset_breaker s) = watched_exe_write s"
  "last_exit_code (reset_breaker s) = last_exit_code s"
  "monitor (reset_breaker s) = monitor s"
  "backoff_ms (reset_breaker s) = backoff_ms s"
  "tracked_generation (reset_breaker s) = tracked_generation s"
  "tracked_since (reset_breaker s) = tracked_since s"
  "live (reset_breaker s) = live s"
  "exit_code (reset_breaker s) = exit_code s"
  "next_pid (reset_breaker s) = next_pid s"
  "clock_ms (reset_breaker s) = clock_ms s"
  "changes (reset_breaker s) = changes s"
  "restarts (reset_breaker s) = restarts s"
  "cmdline (reset_breaker s) = cmdline s"
  "owner_lease (reset_breaker s) = owner_lease s"
  "ctl (reset_breaker s) = ctl s"
  "halted (reset_breaker s) = False" "consecutive_fast_exits (reset_breaker s) = 0" "reaped (reset_breaker s) = []"
  by (simp_all add: reset_breaker_def)

lemma mon_spawn:
  "mon_step cfg M_spawn e s =
     Some ((fst (Spawn cfg e s))\<lparr>backoff_ms := (if snd (Spawn cfg e s) then kBackoffStartMs else min (backoff_ms s * 2) kBackoffMaxMs), monitor := M_top\<rparr>)"
  by (simp split: prod.split)

lemmas step_defs = Restart_reset_def Let_def

section \<open>One host\<close>

text \<open>The monitor waits for the process it has seen under the generation it has seen, and a process it is about to reap has ended, unless
  the tracked handle has changed since.\<close>

definition seen :: "bool \<Rightarrow> nat \<Rightarrow> u64 \<Rightarrow> supervisor \<Rightarrow> bool" where
  "seen ended p g s \<longleftrightarrow> (\<exists>m \<le> changes s. g = word_of_nat m \<and> (m = changes s \<longrightarrow> process_handle s = Some p \<and> (ended \<longrightarrow> p \<notin> live s)))"

fun mon_ok :: "monitor_pc \<Rightarrow> supervisor \<Rightarrow> bool" where
  "mon_ok (M_wait p g d) s = seen False p g s"
| "mon_ok (M_reap p g) s = seen True p g s"
| "mon_ok pc s = True"

definition one_host :: "supervisor \<Rightarrow> bool" where
  "one_host s \<longleftrightarrow> spawn_generation s = word_of_nat (changes s) \<and> live s \<subseteq> set_option (process_handle s) \<and>
     (attached_to_existing s \<longrightarrow> \<not> tracked_live s)"

definition same_hosts :: "supervisor \<Rightarrow> supervisor \<Rightarrow> bool" where
  "same_hosts s' s \<longleftrightarrow> spawn_generation s' = spawn_generation s \<and> changes s' = changes s \<and> process_handle s' = process_handle s \<and>
     live s' \<subseteq> live s \<and> (attached_to_existing s' \<longrightarrow> attached_to_existing s)"

lemma same_hosts_inv: "same_hosts s' s \<Longrightarrow> one_host s \<Longrightarrow> one_host s'"
  by (auto simp: same_hosts_def one_host_def tracked_live_def split: option.splits)

lemma same_hosts_mon: "same_hosts s' s \<Longrightarrow> mon_ok pc s \<Longrightarrow> mon_ok pc s'"
  by (cases pc) (auto simp: same_hosts_def seen_def)

lemma Spawn_one: "one_host s \<Longrightarrow> one_host (fst (Spawn cfg e s))"
  by (auto simp: one_host_def Spawn_def tracked_live_def split: option.splits)

lemma Spawn_mon: "mon_ok pc s \<Longrightarrow> mon_ok pc (fst (Spawn cfg e s))"
  by (cases pc) (auto simp: seen_def Spawn_def intro: le_SucI)

lemma Kill_one: "one_host s \<Longrightarrow> kill_works e \<Longrightarrow> one_host (Kill e s)"
  by (auto simp: one_host_def Kill_def tracked_live_def split: option.splits)

lemma Kill_mon: "mon_ok pc s \<Longrightarrow> mon_ok pc (Kill e s)"
  by (cases pc) (auto simp: seen_def Kill_def intro: le_SucI split: option.splits)

fun kills_ok :: "sup_event \<Rightarrow> bool" where
  "kills_ok (Ctl i e) = kill_works e"
| "kills_ok _ = True"

definition host_inv :: "supervisor \<Rightarrow> bool" where
  "host_inv s \<longleftrightarrow> one_host s \<and> mon_ok (monitor s) s"

lemma host_inv_same: "host_inv s \<Longrightarrow> same_hosts s' s \<Longrightarrow> monitor s' = monitor s \<or> mon_ok (monitor s') s' \<Longrightarrow> host_inv s'"
  using same_hosts_inv same_hosts_mon by (auto simp: host_inv_def)

lemma call_step_host: "call_step cfg i c s = Some s' \<Longrightarrow> host_inv s \<Longrightarrow> host_inv s'"
  by (cases c) (auto simp: step_defs same_hosts_def split: if_splits intro!: host_inv_same [of s])

lemma ctl_step_host:
  assumes "ctl_step cfg i c e s = Some s'" "kill_works e" "host_inv s"
  shows "host_inv s'"
proof (cases "c \<in> {Re_kill, Sp_kill}")
  case True
  then have "same_hosts s' (Kill e s)" "monitor s' = monitor (Kill e s)" using assms(1) by (auto simp: same_hosts_def)
  moreover have "host_inv (Kill e s)" using assms(2,3) Kill_one Kill_mon by (auto simp: host_inv_def)
  ultimately show ?thesis using host_inv_same by blast
next
  case False
  show ?thesis
  proof (cases "c \<in> {St_spawn, Re_spawn}")
    case True
    then have "same_hosts s' (fst (Spawn cfg e s))" "monitor s' = monitor (fst (Spawn cfg e s))" using assms(1) by (auto simp: same_hosts_def)
    moreover have "host_inv (fst (Spawn cfg e s))" using assms(3) Spawn_one Spawn_mon by (auto simp: host_inv_def)
    ultimately show ?thesis using host_inv_same by blast
  next
    case no_spawn: False
    then have "same_hosts s' s" "monitor s' = monitor s \<or> monitor s' \<in> {M_none, M_top}"
      using False assms(1) by (cases c; auto simp: same_hosts_def split: if_splits)+
    then show ?thesis using assms(3) by (auto intro!: host_inv_same [of s])
  qed
qed

lemma reap_one:
  assumes "one_host s" "seen True p (spawn_generation s) s" "changes s < 2 ^ 64"
  shows "process_handle s = Some p \<and> live s = {}"
proof -
  obtain m where m: "m \<le> changes s" "word_of_nat m = (word_of_nat (changes s) :: u64)" "m = changes s \<longrightarrow> process_handle s = Some p \<and> p \<notin> live s"
    using assms(1,2) by (auto simp: seen_def one_host_def)
  have u: "unat (word_of_nat k :: u64) = k" if "k \<le> changes s" for k
  proof -
    have "k < 2 ^ LENGTH(64)" using le_less_trans [OF that assms(3)] by simp
    then show ?thesis by (rule unat_word_of_nat)
  qed
  have "m = changes s" by (metis m(1,2) u order_refl)
  with m(3) have "process_handle s = Some p" "p \<notin> live s" by blast+
  then show ?thesis using assms(1) by (auto simp: one_host_def)
qed

lemma seen_now: "one_host s \<Longrightarrow> process_handle s = Some p \<Longrightarrow> seen False p (spawn_generation s) s"
  by (auto simp: seen_def one_host_def)

lemma mon_step_host:
  assumes "mon_step cfg (monitor s) e s = Some s'" "host_inv s" "changes s < 2 ^ 64"
  shows "host_inv s'"
proof (cases "monitor s")
  case M_spawn
  then have "same_hosts s' (fst (Spawn cfg e s))" "monitor s' = M_top" using assms(1) by (auto simp: same_hosts_def split: prod.splits)
  moreover have "host_inv (fst (Spawn cfg e s))" using assms(2) Spawn_one Spawn_mon by (auto simp: host_inv_def)
  ultimately show ?thesis using host_inv_same by simp
next
  case M_snap
  then have "same_hosts s' s" using assms(1) by (auto simp: same_hosts_def Let_def split: if_splits)
  moreover have "mon_ok (monitor s') s"
    using assms(1,2) M_snap seen_now [of s] by (auto simp: Let_def host_inv_def split: option.splits)
  ultimately show ?thesis using assms(2) host_inv_same same_hosts_mon by blast
next
  case (M_wait p g d)
  then have "same_hosts s' s" using assms(1) by (auto simp: same_hosts_def Let_def split: if_splits)
  moreover have "mon_ok (monitor s') s'" using assms(1,2) M_wait
    by (auto simp: Let_def host_inv_def seen_def split: wait_answer.splits if_splits)
  ultimately show ?thesis using assms(2) host_inv_same by blast
next
  case (M_reap p g)
  show ?thesis
  proof (cases "spawn_generation s = g")
    case True
    have "process_handle s = Some p" "live s = {}" using reap_one [of s p] assms(2,3) M_reap True by (auto simp: host_inv_def)
    then show ?thesis using assms(1,2) M_reap True by (auto simp: Let_def host_inv_def one_host_def tracked_live_def)
  next
    case False
    then show ?thesis using assms(1,2) M_reap by (auto simp: same_hosts_def intro!: host_inv_same [of s])
  qed
qed (use assms(1,2) in \<open>auto simp: same_hosts_def step_defs split: if_splits after_beat.splits after_sleep.splits intro!: host_inv_same [of s]\<close>)

lemma sup_step_host:
  assumes "sup_step cfg ev s = Some s'" "kills_ok ev" "host_inv s" "changes s < 2 ^ 64"
  shows "host_inv s'"
proof (cases ev)
  case (Call i c)
  then show ?thesis using assms call_step_host by (auto split: if_splits)
next
  case (Exit p code)
  then show ?thesis using assms by (auto simp: same_hosts_def split: if_splits intro!: host_inv_same [of s])
next
  case (Tick d)
  then show ?thesis using assms by (auto simp: same_hosts_def intro!: host_inv_same [of s])
qed (use assms ctl_step_host mon_step_host in auto)

lemma Spawn_changes: "changes (fst (Spawn cfg e s)) \<le> Suc (changes s)" "changes s \<le> changes (fst (Spawn cfg e s))"
  by (auto simp: Spawn_def)

lemma Kill_changes: "changes (Kill e s) \<le> Suc (changes s)" "changes s \<le> changes (Kill e s)"
  by (auto simp: Kill_def split: option.split)

lemma sup_step_changes: "sup_step cfg ev s = Some s' \<Longrightarrow> changes s' \<le> Suc (changes s)"
proof (cases ev)
  case (Call i c)
  then show "sup_step cfg ev s = Some s' \<Longrightarrow> changes s' \<le> Suc (changes s)"
    by (cases c) (auto simp: step_defs split: if_splits)
next
  case (Ctl i e)
  then show "sup_step cfg ev s = Some s' \<Longrightarrow> changes s' \<le> Suc (changes s)"
    by (cases "ctl s i") (auto simp: Spawn_changes Kill_changes split: if_splits)
next
  case (Mon e)
  have "changes s1 \<le> Suc (changes s)" if "Spawn cfg e s = (s1, ok)" for s1 ok using Spawn_changes(1) [of cfg e s] that by simp
  with Mon show "sup_step cfg ev s = Some s' \<Longrightarrow> changes s' \<le> Suc (changes s)"
    by (cases "monitor s") (auto simp: step_defs split: if_splits option.splits prod.splits)
qed (auto split: if_splits)

lemma sup_run_host:
  "sup_run cfg evs s = Some s' \<Longrightarrow> list_all kills_ok evs \<Longrightarrow> host_inv s \<Longrightarrow> changes s + length evs < 2 ^ 64 \<Longrightarrow>
   host_inv s' \<and> changes s' \<le> changes s + length evs"
proof (induction evs arbitrary: s)
  case (Cons ev evs)
  then obtain s1 where s1: "sup_step cfg ev s = Some s1" "sup_run cfg evs s1 = Some s'" by (auto split: option.splits)
  have "changes s1 \<le> Suc (changes s)" by (rule sup_step_changes [OF s1(1)])
  moreover have "host_inv s1" using sup_step_host [OF s1(1)] Cons.prems by simp
  ultimately show ?case using Cons.IH [OF s1(2)] Cons.prems by auto
qed simp

lemma host_inv_new: "host_inv sup_new"
  by (simp add: host_inv_def one_host_def sup_new_def)

section \<open>The circuit breaker\<close>

text \<open>The exits that count: all but the clean singleton ones, the latest first, as long as they were fast.\<close>

definition streak :: "(u32 \<times> int) list \<Rightarrow> nat" where
  "streak xs = length (takeWhile (\<lambda>x. snd x < 2000) (filter (\<lambda>x. fst x \<notin> {3, 4}) (rev xs)))"

lemma streak_snoc: "streak (xs @ [(c, u)]) = (if c \<in> {3, 4} then streak xs else if u < 2000 then Suc (streak xs) else 0)"
  by (simp add: streak_def)

lemma streak_Nil [simp]: "streak [] = 0"
  by (simp add: streak_def)

lemmas decide_defs = DecideHostExitAction_def IsCleanSingletonExit_def kFastExitThresholdMs_def kCircuitBreakerThreshold_def kSingletonRetryDelayMs_def Let_def

lemma decide_fields:
  "hx_consecutiveFastExits (DecideHostExitAction True c u n b) = (if c \<in> {3, 4} then n else if u < 2000 then n + 1 else 0)"
  "hx_halt (DecideHostExitAction True c u n b) \<longleftrightarrow> c \<notin> {3, 4} \<and> u < 2000 \<and> n \<ge> 4"
  "\<not> hx_halt (DecideHostExitAction True c u n b) \<Longrightarrow> hx_respawnDelayMs (DecideHostExitAction True c u n b) = (if c \<in> {3, 4} then 500 else b)"
  by (simp add: decide_defs, simp add: decide_defs, auto simp: decide_defs split: if_splits)

text \<open>The places the monitor can be at while the breaker is open.\<close>

fun may_halt :: "monitor_pc \<Rightarrow> bool" where
  "may_halt M_nohandle = False" | "may_halt M_probe = False" | "may_halt M_detach = False" | "may_halt M_test = False"
| "may_halt M_spawn = False" | "may_halt (M_wait p g d) = False" | "may_halt (M_reap p g) = False" | "may_halt M_hot = False"
| "may_halt M_call = False"
| "may_halt (M_sleep r a) = (a = A_top)" | "may_halt (M_sleeping u r a) = (a = A_top)"
| "may_halt (M_beat k) = (case k of B_snap \<Rightarrow> True | B_sleep r a \<Rightarrow> a = A_top)"
| "may_halt (M_store k) = (case k of B_snap \<Rightarrow> True | B_sleep r a \<Rightarrow> a = A_top)"
| "may_halt (M_exit c a) = hx_halt a" | "may_halt (M_record c a) = hx_halt a"
| "may_halt pc = True"

definition breaker_inv :: "supervisor \<Rightarrow> bool" where
  "breaker_inv s \<longleftrightarrow> consecutive_fast_exits s = int (streak (reaped s)) \<and> streak (reaped s) \<le> 5 \<and>
     (halted s \<longleftrightarrow> streak (reaped s) = 5) \<and> (halted s \<longrightarrow> may_halt (monitor s))"

definition same_breaker :: "supervisor \<Rightarrow> supervisor \<Rightarrow> bool" where
  "same_breaker s' s \<longleftrightarrow> consecutive_fast_exits s' = consecutive_fast_exits s \<and> halted s' = halted s \<and> reaped s' = reaped s"

lemma breaker_same: "breaker_inv s \<Longrightarrow> same_breaker s' s \<Longrightarrow> (halted s \<Longrightarrow> may_halt (monitor s) \<Longrightarrow> may_halt (monitor s')) \<Longrightarrow> breaker_inv s'"
  by (auto simp: breaker_inv_def same_breaker_def)

lemma breaker_reset: "consecutive_fast_exits s = 0 \<Longrightarrow> \<not> halted s \<Longrightarrow> reaped s = [] \<Longrightarrow> breaker_inv s"
  by (simp add: breaker_inv_def)

lemma call_step_breaker: "call_step cfg i c s = Some s' \<Longrightarrow> breaker_inv s \<Longrightarrow> breaker_inv s'"
  by (cases c) (auto simp: step_defs same_breaker_def breaker_reset split: if_splits intro: breaker_same)

lemma ctl_step_breaker: "ctl_step cfg i c e s = Some s' \<Longrightarrow> breaker_inv s \<Longrightarrow> breaker_inv s'"
  by (cases c) (auto simp: same_breaker_def breaker_reset split: if_splits intro: breaker_same)

lemma mon_step_breaker:
  assumes "mon_step cfg (monitor s) e s = Some s'" "breaker_inv s"
  shows "breaker_inv s'"
proof (cases "monitor s")
  case (M_reap p g)
  then have h: "\<not> halted s" "streak (reaped s) < 5" "consecutive_fast_exits s = int (streak (reaped s))"
    using assms(2) by (auto simp: breaker_inv_def)
  show ?thesis
  proof (cases "spawn_generation s = g \<and> process_handle s \<noteq> None")
    case True
    then show ?thesis using assms(1) h M_reap
      by (auto simp: Let_def breaker_inv_def decide_fields streak_snoc split: if_splits)
  next
    case False
    then have "same_breaker s' s" "monitor s' = M_top" using assms(1) M_reap by (auto simp: same_breaker_def split: if_splits)
    then show ?thesis using assms(2) breaker_same by simp
  qed
next
  case M_spawn
  then have "same_breaker s' s" using assms(1) by (auto simp: same_breaker_def mon_spawn simp del: mon_step.simps)
  then show ?thesis using assms(2) M_spawn by (auto simp: breaker_inv_def same_breaker_def)
qed (use assms in \<open>auto simp: Restart_reset_def Let_def same_breaker_def breaker_reset
      split: if_splits option.splits wait_answer.splits after_beat.splits after_sleep.splits intro: breaker_same\<close>)

lemma sup_step_breaker: "sup_step cfg ev s = Some s' \<Longrightarrow> breaker_inv s \<Longrightarrow> breaker_inv s'"
proof (cases ev)
  case (Call i c)
  then show "sup_step cfg ev s = Some s' \<Longrightarrow> breaker_inv s \<Longrightarrow> breaker_inv s'" using call_step_breaker by (auto split: if_splits)
qed (auto simp: breaker_inv_def split: if_splits dest: ctl_step_breaker mon_step_breaker)

lemma sup_run_inv:
  assumes step: "\<And>ev s s'. sup_step cfg ev s = Some s' \<Longrightarrow> P s \<Longrightarrow> P s'" and "P s" and "sup_run cfg evs s = Some s'"
  shows "P s'"
  using assms(2,3)
proof (induction evs arbitrary: s)
  case (Cons ev evs)
  then show ?case using step by (auto split: option.splits)
qed simp

lemma sup_run_breaker: "sup_run cfg evs sup_new = Some s \<Longrightarrow> breaker_inv s"
  using sup_run_inv [of cfg breaker_inv sup_new evs s] sup_step_breaker by (simp add: breaker_reset sup_new_def)

section \<open>Stopping\<close>

text \<open>Threads that have passed the test of the stop flag and are about to spawn.\<close>

definition about_to_spawn :: "supervisor \<Rightarrow> bool" where
  "about_to_spawn s \<longleftrightarrow> monitor s = M_spawn \<or> (\<exists>i. ctl s i \<in> {St_lease, St_beat, St_store, St_spawn, Re_beat, Re_store, Re_spawn})"

definition quiet :: "supervisor \<Rightarrow> bool" where
  "quiet s \<longleftrightarrow> stop_requested s \<and> live s = {} \<and> \<not> about_to_spawn s"

fun no_start :: "sup_event \<Rightarrow> bool" where
  "no_start (Call i Do_Start) = False"
| "no_start ev = True"

lemma Kill_live: "live (Kill e s) \<subseteq> live s"
  by (auto simp: Kill_def split: option.splits)

lemma quiet_ctl:
  assumes "ctl_step cfg i (ctl s i) e s = Some s'" "quiet s"
  shows "quiet s'"
proof -
  have "ctl s i \<notin> {St_lease, St_beat, St_store, St_spawn, Re_beat, Re_store, Re_spawn}" using assms(2) by (auto simp: quiet_def about_to_spawn_def)
  then show ?thesis using assms Kill_live [of e s]
    by (cases "ctl s i") (auto simp: quiet_def about_to_spawn_def split: if_splits)
qed

lemma quiet_mon:
  assumes "mon_step cfg (monitor s) e s = Some s'" "quiet s"
  shows "quiet s'"
proof -
  have "stop_requested s" "monitor s \<noteq> M_spawn" using assms(2) by (auto simp: quiet_def about_to_spawn_def)
  then show ?thesis using assms
    by (cases "monitor s")
       (auto simp: quiet_def about_to_spawn_def step_defs split: if_splits option.splits after_beat.splits after_sleep.splits wait_answer.splits)
qed

lemma quiet_step:
  assumes "sup_step cfg ev s = Some s'" "no_start ev" "quiet s"
  shows "quiet s'"
proof (cases ev)
  case (Call i c)
  then show ?thesis using assms by (cases c) (auto simp: quiet_def about_to_spawn_def step_defs split: if_splits)
qed (use assms quiet_ctl quiet_mon in \<open>auto simp: quiet_def about_to_spawn_def split: if_splits\<close>)

lemma quiet_run: "sup_run cfg evs s = Some s' \<Longrightarrow> list_all no_start evs \<Longrightarrow> quiet s \<Longrightarrow> quiet s'"
proof (induction evs arbitrary: s)
  case (Cons ev evs)
  then show ?case using quiet_step by (auto split: option.splits)
qed simp

end
