(* ===== verification/HostPacing.thy ===== *)
theory HostPacing
  imports HostSupervisor
begin

text \<open>
  How the supervisor paces respawns and heartbeats, and the properties of the whole supervisor: how many hosts can run, what opens the
  circuit breaker, what \<open>Stop\<close> guarantees, and how the pacing meets the watchdog of the hosts.
\<close>

section \<open>Pacing\<close>

definition backoffs :: "int set" where
  "backoffs = {1000, 2000, 4000, 8000, 16000, 30000}"

fun is_start :: "ctl_pc \<Rightarrow> bool" where
  "is_start St_lease = True" | "is_start St_beat = True" | "is_start St_store = True" | "is_start St_spawn = True"
| "is_start St_thread = True" | "is_start c = False"

fun is_restart :: "ctl_pc \<Rightarrow> bool" where
  "is_restart Re_mark = True" | "is_restart Re_kill = True" | "is_restart Re_check = True" | "is_restart Re_beat = True"
| "is_restart Re_store = True" | "is_restart Re_spawn = True" | "is_restart c = False"

text \<open>Places the monitor reaches only without a tracked process, and places where it watches one.\<close>

fun without_host :: "monitor_pc \<Rightarrow> bool" where
  "without_host M_nohandle = True" | "without_host M_probe = True" | "without_host M_detach = True" | "without_host M_test = True"
| "without_host M_spawn = True" | "without_host (M_exit c a) = True" | "without_host (M_record c a) = True"
| "without_host (M_sleep r a) = (a = A_test)" | "without_host (M_sleeping u r a) = (a = A_test)"
| "without_host (M_beat k) = (case k of B_snap \<Rightarrow> False | B_sleep r a \<Rightarrow> a = A_test)"
| "without_host (M_store k) = (case k of B_snap \<Rightarrow> False | B_sleep r a \<Rightarrow> a = A_test)"
| "without_host pc = False"

fun pace_ok :: "monitor_pc \<Rightarrow> int \<Rightarrow> bool" where
  "pace_ok (M_wait p g d) b = (b = 1000)"
| "pace_ok (M_reap p g) b = (b = 1000)"
| "pace_ok (M_exit c a) b = (hx_respawnDelayMs a \<le> 1000)"
| "pace_ok (M_record c a) b = (hx_respawnDelayMs a \<le> 1000)"
| "pace_ok pc b = True"

definition threads_calm :: "(nat \<Rightarrow> ctl_pc) \<Rightarrow> monitor_pc \<Rightarrow> bool" where
  "threads_calm c m \<longleftrightarrow> (\<forall>i. \<not> is_restart (c i)) \<and> (\<forall>i. is_start (c i) \<longrightarrow> m = M_starting \<and> (\<forall>j. is_start (c j) \<longrightarrow> j = i))"

definition calm :: "supervisor \<Rightarrow> bool" where
  "calm s \<longleftrightarrow> threads_calm (ctl s) (monitor s) \<and> (monitor s \<notin> {M_none, M_starting} \<longrightarrow> backoff_ms s = 1000 \<or> process_handle s = None) \<and>
     (without_host (monitor s) \<longrightarrow> process_handle s = None) \<and> pace_ok (monitor s) (backoff_ms s)"

lemma threads_mon: "threads_calm c m \<Longrightarrow> m \<noteq> M_starting \<Longrightarrow> threads_calm c m'"
  by (auto simp: threads_calm_def)

lemma threads_upd: "threads_calm c m \<Longrightarrow> \<not> is_restart x \<Longrightarrow> (is_start x \<longrightarrow> is_start (c i)) \<Longrightarrow> threads_calm (c(i := x)) m"
  by (auto simp: threads_calm_def)

lemma threads_end: "threads_calm c m \<Longrightarrow> is_start (c i) \<Longrightarrow> \<not> is_start x \<Longrightarrow> \<not> is_restart x \<Longrightarrow> threads_calm (c(i := x)) m'"
  by (auto simp: threads_calm_def)

lemma threads_begin: "threads_calm c M_none \<Longrightarrow> threads_calm (c(i := St_lease)) M_starting"
  by (auto simp: threads_calm_def)

lemma threads_no_restart: "threads_calm c m \<Longrightarrow> \<not> is_restart (c i)"
  by (simp add: threads_calm_def)

lemma threads_start: "threads_calm c m \<Longrightarrow> is_start (c i) \<Longrightarrow> m = M_starting"
  by (simp add: threads_calm_def)

definition pace_inv :: "supervisor \<Rightarrow> bool" where
  "pace_inv s \<longleftrightarrow> (monitor s \<notin> {M_none, M_starting} \<longrightarrow> backoff_ms s \<in> backoffs) \<and> (restarts s = 0 \<longrightarrow> calm s)"

lemma backoffs_start [simp]: "kBackoffStartMs \<in> backoffs"
  by (simp add: kBackoffStartMs_def backoffs_def)

lemma backoffs_double: "b \<in> backoffs \<Longrightarrow> min (b * 2) kBackoffMaxMs \<in> backoffs"
  by (auto simp: backoffs_def kBackoffMaxMs_def)

lemma Spawn_fail: "\<not> snd (Spawn cfg e s) \<Longrightarrow> fst (Spawn cfg e s) = s"
  by (auto simp: Spawn_def)

lemma Kill_handle: "process_handle s = None \<Longrightarrow> process_handle (Kill e s) = None"
  by (simp add: Kill_def)

lemma Kill_None: "process_handle (Kill e s) = None"
  by (simp add: Kill_def split: option.split)

lemma decide_delay: "b \<le> 1000 \<Longrightarrow> hx_respawnDelayMs (DecideHostExitAction True c u n b) \<le> 1000"
  by (auto simp: decide_defs)

definition same_pace :: "supervisor \<Rightarrow> supervisor \<Rightarrow> bool" where
  "same_pace s' s \<longleftrightarrow> monitor s' = monitor s \<and> backoff_ms s' = backoff_ms s \<and> restarts s' = restarts s \<and>
     (process_handle s = None \<longrightarrow> process_handle s' = None)"

lemma pace_same:
  assumes "pace_inv s" "same_pace s' s" "restarts s = 0 \<Longrightarrow> threads_calm (ctl s') (monitor s)"
  shows "pace_inv s'"
  using assms unfolding pace_inv_def calm_def same_pace_def by metis

lemma pace_busy: "monitor s' \<notin> {M_none, M_starting} \<longrightarrow> backoff_ms s' \<in> backoffs \<Longrightarrow> restarts s' \<noteq> 0 \<Longrightarrow> pace_inv s'"
  by (simp add: pace_inv_def)

lemma call_step_pace:
  assumes "call_step cfg i c s = Some s'" "ctl s i = C_idle" "pace_inv s"
  shows "pace_inv s'"
proof (cases c)
  case Do_Start
  then show ?thesis using assms by (auto simp: pace_inv_def calm_def threads_begin split: if_splits)
next
  case Do_Restart
  then show ?thesis using assms(1,3) by (intro pace_busy) (auto simp: Restart_reset_def pace_inv_def)
next
  case Do_Stop
  have "threads_calm ((ctl s)(i := Sp_mark)) (monitor s)" if "restarts s = 0"
    by (rule threads_upd) (use that assms(3) in \<open>simp_all add: pace_inv_def calm_def\<close>)
  moreover have "same_pace s' s" "ctl s' = (ctl s)(i := Sp_mark)" using assms(1) Do_Stop by (auto simp: same_pace_def)
  ultimately show ?thesis using pace_same [OF assms(3)] by simp
qed

text \<open>A thread that neither spawns, ends \<open>Start\<close> nor joins the monitor.\<close>

lemma ctl_step_same:
  assumes "ctl_step cfg i (ctl s i) e s = Some s'" "ctl s i \<notin> {St_spawn, Re_spawn, St_thread, Sp_join}" "\<not> is_restart (ctl s i)"
  shows "same_pace s' s \<and> ctl s' = (ctl s)(i := ctl s' i) \<and> \<not> is_restart (ctl s' i) \<and> (is_start (ctl s' i) \<longrightarrow> is_start (ctl s i))"
  using assms by (cases "ctl s i") (auto simp: same_pace_def Kill_None split: if_splits)

lemma ctl_step_backoff:
  assumes "ctl_step cfg i (ctl s i) e s = Some s'" "pace_inv s"
  shows "(monitor s' \<notin> {M_none, M_starting} \<longrightarrow> backoff_ms s' \<in> backoffs) \<and> restarts s' = restarts s"
  using assms by (cases "ctl s i") (auto simp: pace_inv_def split: if_splits)

lemma ctl_step_pace:
  assumes "ctl_step cfg i (ctl s i) e s = Some s'" "pace_inv s"
  shows "pace_inv s'"
proof (cases "restarts s = 0")
  case True
  then have t: "threads_calm (ctl s) (monitor s)" using assms(2) by (simp add: pace_inv_def calm_def)
  have nr: "\<not> is_restart (ctl s i)" by (rule threads_no_restart [OF t])
  consider "ctl s i = St_thread" | "ctl s i = Sp_join" | "ctl s i = St_spawn" | "ctl s i \<notin> {St_spawn, Re_spawn, St_thread, Sp_join}"
    using nr by (cases "ctl s i") auto
  then show ?thesis
  proof cases
    case 1
    then have "s' = at_ctl i C_idle (s\<lparr>monitor := M_top, backoff_ms := kBackoffStartMs, tracked_generation := - 1, tracked_since := clock_ms s\<rparr>)"
      using assms(1) by simp
    moreover have "threads_calm ((ctl s)(i := C_idle)) M_top" by (rule threads_end [OF t]) (simp_all add: 1)
    ultimately show ?thesis by (simp add: pace_inv_def calm_def kBackoffStartMs_def backoffs_def)
  next
    case 2
    have "threads_calm ((ctl s)(i := Sp_reset)) (monitor s)" by (rule threads_upd [OF t]) simp_all
    moreover from this have "threads_calm ((ctl s)(i := Sp_reset)) M_none" if "monitor s = M_done"
      by (rule threads_mon) (use that in auto)
    ultimately show ?thesis using assms 2 by (auto simp: pace_inv_def calm_def split: if_splits)
  next
    case 3
    then have "monitor s = M_starting" using threads_start [OF t, of i] by simp
    moreover have "threads_calm ((ctl s)(i := St_thread)) (monitor s)" by (rule threads_upd [OF t]) (simp_all add: 3)
    ultimately show ?thesis using assms(1) 3 by (auto simp: pace_inv_def calm_def)
  next
    case 4
    then obtain x where x: "same_pace s' s" "ctl s' = (ctl s)(i := x)" "\<not> is_restart x" "is_start x \<longrightarrow> is_start (ctl s i)"
      using ctl_step_same [OF assms(1) 4 nr] by blast
    then show ?thesis using pace_same [OF assms(2) x(1)] threads_upd [OF t x(3,4)] by simp
  qed
next
  case False
  then show ?thesis using ctl_step_backoff [OF assms] pace_busy by simp
qed

text \<open>The monitor's own steps: it runs only outside \<open>Start\<close>.\<close>

lemma mon_step_at: "mon_step cfg m e s = Some s' \<Longrightarrow> m \<notin> {M_none, M_starting}"
  by auto

lemma mon_step_ctl:
  assumes "mon_step cfg (monitor s) e s = Some s'"
  shows "restarts s' \<noteq> 0 \<or> restarts s' = restarts s \<and> ctl s' = ctl s"
proof (cases "monitor s")
  case M_spawn
  then show ?thesis using assms by (auto simp: mon_spawn simp del: mon_step.simps)
qed (use assms in \<open>auto simp: Restart_reset_def Let_def split: if_splits option.splits\<close>)

lemma mon_step_backoff:
  assumes "mon_step cfg (monitor s) e s = Some s'" "backoff_ms s \<in> backoffs"
  shows "backoff_ms s' \<in> backoffs"
proof (cases "monitor s")
  case M_spawn
  then show ?thesis using assms by (auto simp: mon_spawn backoffs_double simp del: mon_step.simps)
qed (use assms in \<open>auto simp: Restart_reset_def Let_def split: if_splits option.splits\<close>)

lemma mon_step_calm:
  assumes "mon_step cfg (monitor s) e s = Some s'" "restarts s' = 0" "calm s"
  shows "(backoff_ms s' = 1000 \<or> process_handle s' = None) \<and> (without_host (monitor s') \<longrightarrow> process_handle s' = None) \<and> pace_ok (monitor s') (backoff_ms s')"
proof (cases "monitor s")
  case M_spawn
  have "process_handle (fst (Spawn cfg e s)) = process_handle s" if "\<not> snd (Spawn cfg e s)" using Spawn_fail [OF that] by simp
  then show ?thesis using assms M_spawn by (auto simp: mon_spawn calm_def kBackoffStartMs_def simp del: mon_step.simps)
next
  case (M_reap p g)
  then show ?thesis using assms by (auto simp: calm_def Let_def decide_delay split: if_splits option.splits)
qed (use assms in \<open>auto simp: calm_def Restart_reset_def Let_def kBackoffStartMs_def
      split: if_splits option.splits wait_answer.splits after_beat.splits after_sleep.splits\<close>)

lemma mon_step_pace:
  assumes "mon_step cfg (monitor s) e s = Some s'" "pace_inv s"
  shows "pace_inv s'"
proof -
  note m = mon_step_ctl [OF assms(1)] mon_step_at [OF assms(1)]
  have b: "backoff_ms s' \<in> backoffs" using mon_step_backoff [OF assms(1)] assms(2) m(2) by (simp add: pace_inv_def)
  moreover have "calm s'" if z: "restarts s' = 0"
  proof -
    have c: "restarts s = 0" "ctl s' = ctl s" using m(1) z by auto
    then have "calm s" using assms(2) by (simp add: pace_inv_def)
    moreover from this have "threads_calm (ctl s') (monitor s')" using threads_mon [of "ctl s" "monitor s"] m(2) by (simp add: calm_def c)
    ultimately show ?thesis using mon_step_calm [OF assms(1) z] by (auto simp: calm_def)
  qed
  ultimately show ?thesis by (simp add: pace_inv_def)
qed

lemma sup_step_pace:
  assumes "sup_step cfg ev s = Some s'" "pace_inv s"
  shows "pace_inv s'"
proof (cases ev)
  case (Call i c)
  then show ?thesis using assms call_step_pace by (simp split: if_splits)
next
  case (Ctl i e)
  then show ?thesis using assms ctl_step_pace by simp
next
  case (Mon e)
  then show ?thesis using assms mon_step_pace by simp
qed (use assms in \<open>auto simp: pace_inv_def calm_def split: if_splits\<close>)

lemma sup_run_pace: "sup_run cfg evs sup_new = Some s \<Longrightarrow> pace_inv s"
proof (rule sup_run_inv [of cfg pace_inv sup_new evs s])
  show "pace_inv sup_new" by (simp add: pace_inv_def calm_def sup_new_def threads_calm_def)
qed (use sup_step_pace in blast)

section \<open>Properties\<close>

text \<open>C30. At most one host: in every interleaving of the monitor with any number of threads that call \<open>Start\<close>, \<open>Restart\<close> and \<open>Stop\<close>, with processes ending at any
  time, as long as terminating a process works, no more than one spawned process is alive and it is the tracked one; the monitor never reaps a process that is
  still running.\<close>

theorem at_most_one_host:
  assumes "sup_run cfg evs sup_new = Some s" "list_all kills_ok evs" "length evs < 2 ^ 64"
  shows "live s \<subseteq> set_option (process_handle s) \<and>
    (\<forall>e s' h. mon_step cfg (monitor s) e s = Some s' \<longrightarrow> process_handle s = Some h \<longrightarrow> process_handle s' = None \<longrightarrow> h \<notin> live s)"
proof -
  have i: "host_inv s" "changes s < 2 ^ 64"
    using sup_run_host [OF assms(1,2) host_inv_new] assms(3) by (auto simp: sup_new_def)
  have "h \<notin> live s" if "mon_step cfg (monitor s) e s = Some s'" "process_handle s = Some h" "process_handle s' = None" for e s' h
  proof (cases "\<exists>p g. monitor s = M_reap p g \<and> spawn_generation s = g")
    case True
    then show ?thesis using reap_one [of s _] i by (auto simp: host_inv_def)
  next
    case False
    then show ?thesis
    proof (cases "monitor s")
      case M_spawn
      then show ?thesis using that by (auto simp: mon_spawn Spawn_def simp del: mon_step.simps split: if_splits)
    qed (use that in \<open>auto simp: Restart_reset_def Let_def split: if_splits\<close>)
  qed
  then show ?thesis using i(1) by (auto simp: host_inv_def one_host_def)
qed

text \<open>Answers of an operating system that can do everything, at a given time.\<close>

definition good_env :: os_env where
  "good_env = \<lparr>can_connect = False, mutex_held = False, path_ok = True, wide_path = [104], create_ok = True, exe_write = 7, extra_args = [], kill_works = True,
     wait_result = Signalled, mapped = True, qpc = 5, own_pid = 42\<rparr>"

definition bad_env :: os_env where
  "bad_env = good_env\<lparr>create_ok := False\<rparr>"

definition captions_config :: sup_config where
  "captions_config = \<lparr>host_exe_path = [104], owner_module = Some Captions, mutex_named = True, dev_build = False\<rparr>"

text \<open>Starting, and the host spawned.\<close>

definition started :: "sup_event list" where
  "started = [Call 1 Do_Start, Ctl 1 good_env, Ctl 1 good_env, Ctl 1 good_env, Ctl 1 good_env, Ctl 1 good_env]"

lemmas trace_simps = started_def good_env_def bad_env_def captions_config_def sup_new_def Spawn_def tracked_live_def EnsureOwnerLease_def
  LeaseOwner_Create_def LeaseOwner_IsOpen_def lease_call_def Heartbeat_def Heartbeat_stores_def MarkShuttingDown_def MarkDisabled_def
  LeaseOwner_Close_def Kill_def at_ctl_def Restart_reset_def reset_breaker_def Let_def

theorem at_most_one_host_witness:
  "\<exists>s. sup_run captions_config (started @ [Mon good_env, Exit 0 1, Mon good_env]) sup_new = Some s \<and> live s \<subseteq> set_option (process_handle s)"
proof -
  obtain s where s: "sup_run captions_config (started @ [Mon good_env, Exit 0 1, Mon good_env]) sup_new = Some s" by (simp add: trace_simps)
  moreover have "list_all kills_ok (started @ [Mon good_env, Exit 0 1, Mon good_env])" by (simp add: started_def good_env_def)
  moreover have "length (started @ [Mon good_env, Exit 0 1, Mon good_env]) < 2 ^ 64" by (simp add: started_def)
  ultimately show ?thesis using at_most_one_host [of captions_config _ s] by blast
qed

text \<open>C31. The circuit breaker: in every interleaving the counter is the number of the latest exits, clean singleton exits aside, that followed in less than two seconds each since the
  last reset; respawning is halted exactly when there are five of them; and a halted monitor spawns, kills and reaps nothing.\<close>

theorem breaker_exact:
  assumes "sup_run cfg evs sup_new = Some s"
  shows "consecutive_fast_exits s = int (length (takeWhile (\<lambda>x. snd x < 2000) (filter (\<lambda>x. \<not> IsCleanSingletonExit (fst x)) (rev (reaped s))))) \<and>
    consecutive_fast_exits s \<le> 5 \<and> (halted s \<longleftrightarrow> consecutive_fast_exits s = 5) \<and>
    (\<forall>e s'. halted s \<longrightarrow> mon_step cfg (monitor s) e s = Some s' \<longrightarrow> live s' = live s \<and> process_handle s' = process_handle s)"
proof -
  have b: "breaker_inv s" by (rule sup_run_breaker [OF assms])
  have "live s' = live s \<and> process_handle s' = process_handle s" if "halted s" "mon_step cfg (monitor s) e s = Some s'" for e s'
  proof -
    have "may_halt (monitor s)" using b that(1) by (simp add: breaker_inv_def)
    then show ?thesis using that(2) by (cases "monitor s") (auto simp: Restart_reset_def Let_def split: if_splits)
  qed
  then show ?thesis using b by (auto simp: breaker_inv_def streak_def IsCleanSingletonExit_def)
qed

theorem breaker_exact_witness:
  "\<exists>s. sup_run captions_config started sup_new = Some s \<and> consecutive_fast_exits s \<le> 5"
proof -
  obtain s where "sup_run captions_config started sup_new = Some s" by (simp add: trace_simps)
  then show ?thesis using breaker_exact by blast
qed

text \<open>C32. Stopping: if \<open>Stop\<close> terminates the tracked process while no thread has passed its test of the stop flag on the way to a spawn, no host runs afterwards, whatever
  the threads and the processes do, until the next \<open>Start\<close>.\<close>

theorem Stop_leaves_no_host:
  assumes "sup_run cfg evs sup_new = Some s" "list_all kills_ok evs" "length evs < 2 ^ 64"
    and "ctl s i = Sp_kill" "stop_requested s" "\<not> about_to_spawn s" "kill_works e"
    and "sup_run cfg (Ctl i e # later) s = Some s'" "list_all no_start later"
  shows "live s' = {} \<and> \<not> tracked_live s'"
proof -
  have "host_inv s" using sup_run_host [OF assms(1,2) host_inv_new] assms(3) by (auto simp: sup_new_def)
  then have "live (Kill e s) = {}" using assms(7) Kill_one [of s e] Kill_None [of e s] by (auto simp: host_inv_def one_host_def)
  moreover have "\<not> about_to_spawn (at_ctl i Sp_disable (Kill e s))" using assms(6) by (auto simp: about_to_spawn_def)
  ultimately have "quiet (at_ctl i Sp_disable (Kill e s))" using assms(5) by (simp add: quiet_def)
  then have "quiet s'" using quiet_run [OF _ assms(9)] assms(4,8) by simp
  then show ?thesis by (simp add: quiet_def tracked_live_def split: option.split)
qed

theorem Stop_leaves_no_host_witness:
  "\<exists>s. sup_run captions_config (started @ [Call 1 Do_Stop, Ctl 1 good_env, Ctl 1 good_env]) sup_new = Some s \<and> live s = {}"
proof -
  define s where "s = the (sup_run captions_config (started @ [Call 1 Do_Stop, Ctl 1 good_env]) sup_new)"
  have s: "sup_run captions_config (started @ [Call 1 Do_Stop, Ctl 1 good_env]) sup_new = Some s" "ctl s 1 = Sp_kill" "stop_requested s"
    "\<not> about_to_spawn s" "\<exists>t. sup_run captions_config [Ctl 1 good_env] s = Some t"
    by (simp_all add: s_def trace_simps about_to_spawn_def)
  then obtain t where t: "sup_run captions_config [Ctl 1 good_env] s = Some t" by blast
  have "live t = {}"
    using Stop_leaves_no_host [OF s(1) _ _ s(2,3,4) _ t] by (simp add: started_def good_env_def)
  moreover have "sup_run captions_config (started @ [Call 1 Do_Stop, Ctl 1 good_env, Ctl 1 good_env]) sup_new = Some t"
    using t by (simp add: s_def trace_simps)
  ultimately show ?thesis by blast
qed

section \<open>Schedules\<close>

text \<open>A lease of a module with a consistent header.\<close>

definition lease_wf :: "ModuleId \<Rightarrow> LeaseOwner option \<Rightarrow> bool" where
  "lease_wf m x \<longleftrightarrow> (\<exists>l d. x = Some l \<and> lo_data l = Some d \<and> ls_magic d = kLeaseMagic \<and> ls_version d = kLeaseVersion \<and>
     ls_module_id d = module_code m \<and> ls_nonce d = lo_nonce l)"

lemma beat_wf: "lease_wf m x \<Longrightarrow> lease_wf m (map_option (Heartbeat st t) x)"
  by (auto simp: lease_wf_def Heartbeat_def Heartbeat_stores_def)

lemma lease_call_wf: "lease_wf m (owner_lease s) \<Longrightarrow> lease_call (Heartbeat st) s = s\<lparr>owner_lease := map_option (Heartbeat st (word_of_int (clock_ms s))) (owner_lease s)\<rparr>"
  by (auto simp: lease_wf_def lease_call_def LeaseOwner_IsOpen_def)

lemma sup_run_append: "sup_run cfg (xs @ ys) s = (case sup_run cfg xs s of None \<Rightarrow> None | Some t \<Rightarrow> sup_run cfg ys t)"
  by (induction xs arbitrary: s) (auto split: option.split)

lemma run_trans: "sup_run cfg xs s = Some t \<Longrightarrow> sup_run cfg ys t = Some u \<Longrightarrow> sup_run cfg (xs @ ys) s = Some u"
  by (simp add: sup_run_append)

lemma sleep_run:
  assumes "\<not> stop_requested s" "monitor s = M_sleep (100 * int n) a" "lease_wf m (owner_lease s)"
  shows "\<exists>evs l. sup_run cfg evs s =
      Some (s\<lparr>monitor := (case a of A_top \<Rightarrow> M_top | A_test \<Rightarrow> M_test), clock_ms := clock_ms s + 100 * int n, owner_lease := l\<rparr>) \<and> lease_wf m l"
  using assms
proof (induction n arbitrary: s)
  case 0
  then have "sup_run cfg [Mon good_env] s = Some (s\<lparr>monitor := (case a of A_top \<Rightarrow> M_top | A_test \<Rightarrow> M_test), clock_ms := clock_ms s, owner_lease := owner_lease s\<rparr>)"
    by simp
  with 0(3) show ?case by (intro exI [of _ "[Mon good_env]"] exI [of _ "owner_lease s"]) simp
next
  case (Suc n)
  define l t where "l = map_option (Heartbeat LeaseAlive (word_of_int (clock_ms s))) (owner_lease s)"
    and "t = s\<lparr>monitor := M_sleep (100 * int n) a, clock_ms := clock_ms s + 100, owner_lease := l\<rparr>"
  have m: "min (100 * int (Suc n)) 100 = 100" "100 * int (Suc n) > 0" by simp_all
  have c: "sup_run cfg [Mon good_env, Mon good_env, Mon good_env, Tick 100, Mon good_env] s = Some t"
    using Suc.prems m by (simp add: lease_call_wf t_def l_def)
  have "lease_wf m (owner_lease t)" using Suc.prems(3) beat_wf by (simp add: t_def l_def)
  then obtain evs k where r: "sup_run cfg evs t = Some (t\<lparr>monitor := (case a of A_top \<Rightarrow> M_top | A_test \<Rightarrow> M_test), clock_ms := clock_ms t + 100 * int n, owner_lease := k\<rparr>)"
      "lease_wf m k"
    using Suc.IH [of t] Suc.prems by (auto simp: t_def)
  have e: "t\<lparr>monitor := (case a of A_top \<Rightarrow> M_top | A_test \<Rightarrow> M_test), clock_ms := clock_ms t + 100 * int n, owner_lease := k\<rparr> =
      s\<lparr>monitor := (case a of A_top \<Rightarrow> M_top | A_test \<Rightarrow> M_test), clock_ms := clock_ms s + 100 * int (Suc n), owner_lease := k\<rparr>"
    by (simp add: t_def)
  show ?case using run_trans [OF c r(1)] r(2) unfolding e by blast
qed

text \<open>A round of the monitor without a host whose spawn fails.\<close>

definition hostless :: "ModuleId \<Rightarrow> nat \<Rightarrow> int \<Rightarrow> supervisor \<Rightarrow> bool" where
  "hostless m n t s \<longleftrightarrow> monitor s = M_top \<and> \<not> stop_requested s \<and> \<not> halted s \<and> process_handle s = None \<and> \<not> attached_to_existing s \<and>
     ctl s = (\<lambda>_. C_idle) \<and> live s = {} \<and> backoff_ms s = 100 * int n \<and> clock_ms s = t \<and> lease_wf m (owner_lease s)"

lemma failed_round:
  assumes "hostless m n t s"
  shows "\<exists>evs s'. sup_run cfg evs s = Some s' \<and> hostless m (min (2 * n) 300) (t + 100 * int n) s'"
proof -
  note h = assms [unfolded hostless_def]
  define l where "l = map_option (Heartbeat LeaseAlive (word_of_int (clock_ms s))) (owner_lease s)"
  define tg ts where "tg = spawn_generation s" and "ts = (if spawn_generation s = tracked_generation s then tracked_since s else clock_ms s)"
  define u where "u = s\<lparr>owner_lease := l, tracked_generation := tg, tracked_since := ts, monitor := M_sleep (100 * int n) A_test\<rparr>"
  have c: "sup_run cfg [Mon good_env, Mon good_env, Mon good_env, Mon good_env, Mon good_env] s = Some u"
    using h by (simp add: lease_call_wf [of m] u_def l_def tg_def ts_def)
  have "lease_wf m (owner_lease u)" using h beat_wf by (simp add: u_def l_def)
  then obtain evs k where r: "sup_run cfg evs u = Some (u\<lparr>monitor := M_test, clock_ms := clock_ms u + 100 * int n, owner_lease := k\<rparr>)" "lease_wf m k"
    using sleep_run [of u n A_test m cfg] h by (auto simp: u_def)
  define v where "v = u\<lparr>monitor := M_top, clock_ms := clock_ms u + 100 * int n, owner_lease := k, backoff_ms := min (backoff_ms u * 2) 30000\<rparr>"
  have d: "sup_run cfg [Mon bad_env, Mon bad_env] (u\<lparr>monitor := M_test, clock_ms := clock_ms u + 100 * int n, owner_lease := k\<rparr>) = Some v"
    using h by (simp add: u_def v_def Spawn_def tracked_live_def bad_env_def good_env_def kBackoffMaxMs_def)
  have "hostless m (min (2 * n) 300) (t + 100 * int n) v" using h r(2) by (auto simp: hostless_def v_def u_def min_def)
  then show ?thesis using run_trans [OF run_trans [OF c r(1)] d] by blast
qed

lemma start_hostless:
  assumes "owner_module cfg = Some m" "host_exe_path cfg \<noteq> []"
  shows "\<exists>evs s. sup_run cfg evs sup_new = Some s \<and> hostless m 10 1 s"
  by (intro exI [of _ "[Call 1 Do_Start, Ctl 1 good_env, Ctl 1 good_env, Ctl 1 good_env, Ctl 1 bad_env, Ctl 1 good_env]"])
     (use assms in \<open>auto simp: trace_simps hostless_def lease_wf_def kBackoffStartMs_def fun_eq_iff\<close>)

text \<open>A call of \<open>Restart\<close> by thread 2 whose spawn succeeds, and the monitor's next round up to its wait.\<close>

definition restart_round :: "sup_event list" where
  "restart_round = Call 2 Do_Restart # replicate 6 (Ctl 2 good_env) @ replicate 4 (Mon good_env)"

lemma stale_after:
  fixes c :: int
  assumes "0 < c" "c + int t < 2 ^ 64"
  shows "(word_of_int (c + int t) :: u64) - word_of_int c > 3000 \<longleftrightarrow> 3000 < t" "(word_of_int c :: u64) \<noteq> 0"
    "\<not> word_of_int (c + int t) < (word_of_int c :: u64)"
proof -
  have a: "uint (word_of_int x :: u64) = x" if "0 \<le> x" "x < 2 ^ 64" for x
    using that by (simp add: uint_word_of_int_eq take_bit_int_eq_self)
  have "(word_of_int (c + int t) :: u64) - word_of_int c = word_of_int (int t)" by (simp flip: wi_hom_sub)
  moreover have u: "uint (word_of_int (int t) :: u64) = int t" "uint (word_of_int c :: u64) = c" "uint (word_of_int (c + int t) :: u64) = c + int t"
    by (rule a; use assms in simp)+
  ultimately show "(word_of_int (c + int t) :: u64) - word_of_int c > 3000 \<longleftrightarrow> 3000 < t" by (simp add: word_less_def)
  show "\<not> word_of_int (c + int t) < (word_of_int c :: u64)" using u by (simp add: word_less_def)
  show "(word_of_int c :: u64) \<noteq> 0" using u(2) assms(1) by (metis less_irrefl uint_0_eq)
qed

lemma restart_round_run:
  assumes "hostless m n c s" "10 \<le> n"
  shows "\<exists>s' p g l d. sup_run cfg restart_round s = Some s' \<and> restarts s' = Suc (restarts s) \<and> \<not> stop_requested s' \<and>
    process_handle s' = Some p \<and> p \<in> live s' \<and> monitor s' = M_wait p g (c + 100 * int n) \<and> clock_ms s' = c \<and>
    owner_lease s' = Some l \<and> lo_data l = Some d \<and> ls_magic d = kLeaseMagic \<and> ls_version d = kLeaseVersion \<and>
    ls_module_id d = module_code m \<and> ls_nonce d = lo_nonce l \<and> ls_state d = lease_code LeaseAlive \<and> ls_heartbeat_mono_ms d = word_of_int c"
proof -
  note h = assms(1) [unfolded hostless_def]
  obtain l0 d0 where l: "owner_lease s = Some l0" "lo_data l0 = Some d0" "ls_magic d0 = kLeaseMagic" "ls_version d0 = kLeaseVersion"
    "ls_module_id d0 = module_code m" "ls_nonce d0 = lo_nonce l0" using h by (auto simp: lease_wf_def)
  have b: "max (100 * int n) 1000 = 100 * int n" using assms(2) by simp
  show ?thesis using h l b by (simp add: restart_round_def numeral_eq_Suc trace_simps)
qed

text \<open>The failed spawns that lead to each of the longer delays.\<close>

lemma failed_rounds:
  assumes "owner_module cfg = Some m" "host_exe_path cfg \<noteq> []" "n \<in> {40, 80, 160, 300}"
  shows "\<exists>evs s c. sup_run cfg evs sup_new = Some s \<and> hostless m n c s \<and> 0 < c \<and> c < 2 ^ 63"
proof -
  let ?reach = "\<lambda>n c. \<exists>evs s. sup_run cfg evs sup_new = Some s \<and> hostless m n c s"
  have step: "?reach (min (2 * n) 300) (c + 100 * int n)" if "?reach n c" for n c
    using that failed_round [of m n c _ cfg] run_trans by blast
  have "?reach 10 1" using start_hostless [OF assms(1,2)] by blast
  then have "?reach 20 1001" using step [of 10 1] by simp
  then have r40: "?reach 40 3001" using step [of 20 1001] by simp
  then have r80: "?reach 80 7001" using step [of 40 3001] by simp
  then have r160: "?reach 160 15001" using step [of 80 7001] by simp
  then have "?reach 300 31001" using step [of 160 15001] by simp
  with r40 r80 r160 assms(3) show ?thesis by fastforce
qed



text \<open>Without such a restart the pacing holds: as long as \<open>Restart\<close> has not been called, every wait for a host is armed with one second between heartbeats and a host that exited is
  respawned within a second, so that crashes never back off; the delay between failed spawns is one of 1, 2, 4, 8, 16 and 30 seconds.\<close>

theorem pacing_without_restart:
  assumes "sup_run cfg evs sup_new = Some s"
  shows "(monitor s \<notin> {M_none, M_starting} \<longrightarrow> backoff_ms s \<in> {1000, 2000, 4000, 8000, 16000, 30000}) \<and>
    (restarts s = 0 \<longrightarrow> (\<forall>p g deadline. monitor s = M_wait p g deadline \<longrightarrow> max (backoff_ms s) 1000 = 1000) \<and>
       (\<forall>c a. monitor s = M_record c a \<longrightarrow> hx_respawnDelayMs a \<le> 1000))"
  using sup_run_pace [OF assms] by (auto simp: pace_inv_def calm_def backoffs_def)

theorem pacing_without_restart_witness:
  "\<exists>s. sup_run captions_config started sup_new = Some s \<and> backoff_ms s \<in> {1000, 2000, 4000, 8000, 16000, 30000}"
proof -
  define s where "s = the (sup_run captions_config started sup_new)"
  have s: "sup_run captions_config started sup_new = Some s" "monitor s = M_top" by (simp_all add: s_def trace_simps)
  have "backoff_ms s \<in> {1000, 2000, 4000, 8000, 16000, 30000}" using pacing_without_restart [OF s(1)] s(2) by simp
  with s(1) show ?thesis by blast
qed

text \<open>The monitor after it has reaped a host that ended as a duplicate, up to the test before the respawn.\<close>

lemma reap_run:
  assumes "owner_module cfg = Some m" "host_exe_path cfg \<noteq> []"
  shows "\<exists>evs s. sup_run cfg evs sup_new = Some s \<and> monitor s = M_test \<and> \<not> stop_requested s \<and> ctl s = (\<lambda>_. C_idle) \<and>
    process_handle s = None \<and> live s = {} \<and> \<not> attached_to_existing s \<and> next_pid s = 1 \<and> lease_wf m (owner_lease s)"
proof -
  define e1 where "e1 = started @ [Mon good_env, Mon good_env, Mon good_env, Mon good_env, Exit 0 3, Mon good_env, Mon good_env, Mon good_env, Mon good_env]"
  have "\<exists>s. sup_run cfg e1 sup_new = Some s \<and> monitor s = M_sleep (100 * int 5) A_test \<and> \<not> stop_requested s \<and> ctl s = (\<lambda>_. C_idle) \<and>
    process_handle s = None \<and> live s = {} \<and> \<not> attached_to_existing s \<and> next_pid s = 1 \<and> lease_wf m (owner_lease s)"
    using assms by (simp add: e1_def trace_simps decide_defs kBackoffStartMs_def lease_wf_def fun_eq_iff)
  then obtain s where s: "sup_run cfg e1 sup_new = Some s" "monitor s = M_sleep (100 * int 5) A_test" "\<not> stop_requested s" "ctl s = (\<lambda>_. C_idle)"
    "process_handle s = None" "live s = {}" "\<not> attached_to_existing s" "next_pid s = 1" "lease_wf m (owner_lease s)" by blast
  obtain e2 k where "sup_run cfg e2 s = Some (s\<lparr>monitor := M_test, clock_ms := clock_ms s + 100 * int 5, owner_lease := k\<rparr>)" "lease_wf m k"
    using sleep_run [OF s(3,2,9), of cfg] by auto
  then show ?thesis using run_trans [OF s(1)] s by (intro exI [of _ "e1 @ e2"]) auto
qed

text \<open>The window of the monitor: it has found the stop flag clear and has not spawned yet, no host is tracked, the lease is open and no other thread is
  inside a call.\<close>

definition in_window :: "supervisor \<Rightarrow> bool" where
  "in_window s \<longleftrightarrow> monitor s = M_spawn \<and> \<not> stop_requested s \<and> process_handle s = None \<and> ctl s = (\<lambda>_. C_idle) \<and>
     (\<exists>l d. owner_lease s = Some l \<and> lo_data l = Some d)"

text \<open>All of \<open>Stop\<close> by thread \<open>i\<close>, the monitor spawning and ending before \<open>Stop\<close> joins it.\<close>

definition stop_in_window :: "nat \<Rightarrow> os_env \<Rightarrow> sup_event list" where
  "stop_in_window i e =
     [Call i Do_Stop, Ctl i e, Ctl i e, Ctl i e, Mon e, Mon e, Ctl i e, Ctl i e]"

lemma stop_in_window_run:
  assumes "in_window s" "i \<noteq> 0" "\<not> can_connect e" "path_ok e" "create_ok e"
  shows "\<exists>s' l d. sup_run cfg (stop_in_window i e) s = Some s' \<and> stop_requested s' \<and> ctl s' = (\<lambda>_. C_idle) \<and> monitor s' = M_none \<and>
    process_handle s' = Some (next_pid s) \<and> next_pid s \<in> live s' \<and> running s' \<and>
    owner_lease s' = Some l \<and> lo_data l = Some d \<and> ls_state d = lease_code LeaseDisabled"
proof -
  obtain l d where "owner_lease s = Some l" "lo_data l = Some d" using assms(1) by (auto simp: in_window_def)
  then show ?thesis using assms by (simp add: in_window_def stop_in_window_def trace_simps fun_eq_iff)
qed

text \<open>C33. The race of \<open>Stop\<close>. For every host with an owner lease the monitor can be between its last test of the stop flag and its spawn, without a host. From every
  such state a \<open>Stop\<close> that sets the flag, terminates what is tracked and disables the lease before the monitor goes on, with an operating system that starts the process,
  returns with all threads ended while a new host, which it has not terminated, is alive, tracked and reported running, with its
  lease disabled.\<close>

theorem Stop_race:
  assumes "owner_module cfg = Some m" "host_exe_path cfg \<noteq> []"
  shows "(\<exists>evs s. sup_run cfg evs sup_new = Some s \<and> in_window s) \<and>
    (\<forall>s i e. in_window s \<and> i \<noteq> 0 \<and> \<not> can_connect e \<and> path_ok e \<and> create_ok e \<longrightarrow>
      (\<exists>s' l d. sup_run cfg (stop_in_window i e) s = Some s' \<and> stop_requested s' \<and> ctl s' = (\<lambda>_. C_idle) \<and> monitor s' = M_none \<and>
         process_handle s' = Some (next_pid s) \<and> next_pid s \<in> live s' \<and> running s' \<and>
         owner_lease s' = Some l \<and> lo_data l = Some d \<and> ls_state d = lease_code LeaseDisabled))"
proof -
  obtain e1 s1 where s1: "sup_run cfg e1 sup_new = Some s1" "monitor s1 = M_test" "\<not> stop_requested s1" "ctl s1 = (\<lambda>_. C_idle)"
    "process_handle s1 = None" "lease_wf m (owner_lease s1)" using reap_run [OF assms] by blast
  have "sup_run cfg [Mon good_env] s1 = Some (s1\<lparr>monitor := M_spawn\<rparr>)" using s1(2,3) by simp
  moreover have "in_window (s1\<lparr>monitor := M_spawn\<rparr>)" using s1 by (auto simp: in_window_def lease_wf_def)
  ultimately have "\<exists>evs s. sup_run cfg evs sup_new = Some s \<and> in_window s" using run_trans [OF s1(1)] by blast
  then show ?thesis using stop_in_window_run by blast
qed

theorem Stop_race_witness:
  "\<exists>evs s s'. sup_run captions_config evs sup_new = Some s \<and> in_window s \<and>
     sup_run captions_config (stop_in_window 1 good_env) s = Some s' \<and> monitor s' = M_none \<and> next_pid s \<in> live s'"
proof -
  have c: "owner_module captions_config = Some Captions" "host_exe_path captions_config \<noteq> []" by (simp_all add: captions_config_def)
  note r = Stop_race [OF c]
  obtain evs s where s: "sup_run captions_config evs sup_new = Some s" "in_window s" using r by blast
  then have "\<exists>s'. sup_run captions_config (stop_in_window 1 good_env) s = Some s' \<and> monitor s' = M_none \<and> next_pid s \<in> live s'"
    using conjunct2 [OF r, rule_format, of s 1 good_env] by (auto simp: good_env_def)
  with s show ?thesis by blast
qed

end
