(* ===== verification/CaptionsControl.thy ===== *)
theory CaptionsControl
  imports Prelude
begin

text \<open>
  The configuration of the captions host: the driver module builds a line of settings (\<open>BuildHostConfigCommand\<close> of
  \<open>modules/captions/src/driver/CaptionsDriverModule.cpp\<close>), the host parses it (\<open>DispatchControlMessage\<close> of
  \<open>modules/captions/src/host/main.cpp\<close>); and the calls the module makes to its supervisor.
\<close>

section \<open>The configuration of the driver\<close>

record CaptionsConfig =
  cc_master_enabled :: byte
  cc_mode :: byte
  cc_notify_sound :: byte
  cc_transcript_logging :: byte
  cc_chatbox_enabled :: byte
  cc_realtime_flags :: byte
  cc_speech_model :: byte
  cc_chatbox_port :: u16
  cc_chatbox_split_delay_ms :: u16
  cc_source_lang :: bytes
  cc_target_lang :: bytes
  cc_chatbox_address :: bytes

definition kCaptionsChatboxSplitDelayDefaultMs :: int where
  "kCaptionsChatboxSplitDelayDefaultMs = 1200"

definition NormalizeCaptionsChatboxSplitDelayMs :: "int \<Rightarrow> int" where
  "NormalizeCaptionsChatboxSplitDelayMs ms = (if ms < 0 then 0 else if ms > 10000 then 10000 else ms)"

definition NormalizeCaptionsSpeechModel :: "int \<Rightarrow> byte" where
  "NormalizeCaptionsSpeechModel v = (if v = 1 then 1 else 0)"

definition kCaptionsRealtimeDefaultFlags :: byte where
  "kCaptionsRealtimeDefaultFlags = 255"

text \<open>A setting \<open>key=value\<close>; the members of the structure are character arrays, of which the C string is used.\<close>

definition setting :: "string \<Rightarrow> bytes \<Rightarrow> bytes" where
  "setting k v = str k @ 61 # v"

definition BuildHostConfigCommand :: "CaptionsConfig \<Rightarrow> bytes" where
  "BuildHostConfigCommand c =
     str ''config:'' @ setting ''src'' (cstr (cc_source_lang c)) @ 44 # setting ''tgt'' (cstr (cc_target_lang c)) @
     44 # setting ''mode'' (dec (unat (cc_mode c))) @ 44 # setting ''addr'' (cstr (cc_chatbox_address c)) @
     44 # setting ''port'' (dec (unat (cc_chatbox_port c))) @ 44 # setting ''notify'' (dec (unat (cc_notify_sound c))) @
     44 # setting ''chatbox'' (dec (unat (cc_chatbox_enabled c))) @
     44 # setting ''splitdelay'' (dec (nat (NormalizeCaptionsChatboxSplitDelayMs (uint (cc_chatbox_split_delay_ms c))))) @
     44 # setting ''log'' (dec (unat (cc_transcript_logging c))) @ 44 # setting ''flags'' (dec (unat (cc_realtime_flags c))) @
     44 # setting ''model'' (dec (unat (cc_speech_model c))) @ [10]"

section \<open>The configuration of the host\<close>

record HostConfig =
  source_lang :: bytes
  target_lang :: bytes
  chatbox_address :: bytes
  chatbox_port :: u16
  chatbox_enabled :: bool
  notify_sound :: bool
  chatbox_split_delay_ms :: int
  transcript_logging :: bool
  host_mode :: int
  realtime_flags :: byte
  speech_model :: byte

definition default_host_config :: HostConfig where
  "default_host_config = \<lparr>source_lang = str ''auto'', target_lang = [], chatbox_address = str ''/chatbox/input'', chatbox_port = 9000,
     chatbox_enabled = False, notify_sound = False, chatbox_split_delay_ms = kCaptionsChatboxSplitDelayDefaultMs, transcript_logging = False,
     host_mode = 0, realtime_flags = kCaptionsRealtimeDefaultFlags, speech_model = 0\<rparr>"

text \<open>\<open>std::stoi\<close>: blanks, a sign and the longest run of digits; no digits or a value outside \<open>int\<close> is an exception, and
  \<open>TryParseInt\<close> also refuses what is left behind the digits.\<close>

definition is_digit :: "byte \<Rightarrow> bool" where
  "is_digit b \<longleftrightarrow> 48 \<le> b \<and> b \<le> 57"

definition TryParseInt :: "bytes \<Rightarrow> int option" where
  "TryParseInt text =
     (let t = dropWhile (\<lambda>b. b = 32 \<or> 9 \<le> b \<and> b \<le> 13) text;
          neg = (t \<noteq> [] \<and> hd t = 45);
          u = (if t \<noteq> [] \<and> hd t \<in> {43, 45} then tl t else t);
          ds = takeWhile is_digit u;
          v = (if neg then - int (dec_value ds) else int (dec_value ds))
      in if ds = [] \<or> v < - (2 ^ 31) \<or> v > 2 ^ 31 - 1 then None
         else if dropWhile is_digit u \<noteq> [] then None else Some v)"

definition clamp :: "int \<Rightarrow> int \<Rightarrow> int \<Rightarrow> int" where
  "clamp lo hi v = (if v < lo then lo else if v > hi then hi else v)"

definition apply_setting :: "bytes \<Rightarrow> bytes \<Rightarrow> HostConfig \<Rightarrow> HostConfig" where
  "apply_setting key val h =
     (if key = str ''src'' then h\<lparr>source_lang := val\<rparr>
      else if key = str ''tgt'' then h\<lparr>target_lang := val\<rparr>
      else if key = str ''mode'' then (case TryParseInt val of None \<Rightarrow> h | Some p \<Rightarrow> h\<lparr>host_mode := clamp 0 1 p\<rparr>)
      else if key = str ''addr'' then h\<lparr>chatbox_address := val\<rparr>
      else if key = str ''port'' then (case TryParseInt val of None \<Rightarrow> h | Some p \<Rightarrow> if 0 \<le> p \<and> p \<le> 65535 then h\<lparr>chatbox_port := word_of_int p\<rparr> else h)
      else if key = str ''notify'' then h\<lparr>notify_sound := (val \<noteq> str ''0'')\<rparr>
      else if key = str ''chatbox'' then h\<lparr>chatbox_enabled := (val \<noteq> str ''0'')\<rparr>
      else if key = str ''splitdelay'' then (case TryParseInt val of None \<Rightarrow> h | Some p \<Rightarrow> h\<lparr>chatbox_split_delay_ms := NormalizeCaptionsChatboxSplitDelayMs p\<rparr>)
      else if key = str ''log'' then h\<lparr>transcript_logging := (val \<noteq> str ''0'')\<rparr>
      else if key = str ''flags'' then (case TryParseInt val of None \<Rightarrow> h | Some p \<Rightarrow> h\<lparr>realtime_flags := word_of_int (clamp 0 255 p)\<rparr>)
      else if key = str ''model'' then (case TryParseInt val of None \<Rightarrow> h | Some p \<Rightarrow> h\<lparr>speech_model := NormalizeCaptionsSpeechModel p\<rparr>)
      else h)"

definition strip_newlines :: "bytes \<Rightarrow> bytes" where
  "strip_newlines v = rev (dropWhile (\<lambda>b. b = 10 \<or> b = 13) (rev v))"

text \<open>The loop over the settings, on what is left of the body.\<close>

function config_loop :: "bytes \<Rightarrow> HostConfig \<Rightarrow> HostConfig" where
  "config_loop body h =
     (let key = takeWhile (\<lambda>b. b \<noteq> 61) body; r = dropWhile (\<lambda>b. b \<noteq> 61) body
      in if r = [] then h
         else let val = takeWhile (\<lambda>b. b \<noteq> 44) (tl r); r2 = dropWhile (\<lambda>b. b \<noteq> 44) (tl r);
                  h' = apply_setting key (strip_newlines val) h
              in if r2 = [] then h' else config_loop (tl r2) h')"
  by pat_completeness auto
termination
proof (relation "measure (\<lambda>(body, h). length body)")
  fix body key r val r2 :: bytes and h h' :: HostConfig
  assume "r = dropWhile (\<lambda>b. b \<noteq> 61) body" "r2 = dropWhile (\<lambda>b. b \<noteq> 44) (tl r)" "r2 \<noteq> []"
  then have "length r \<le> length body" "length r2 \<le> length (tl r)" "0 < length r2" using length_dropWhile_le [of _ body] length_dropWhile_le [of _ "tl r"] by simp_all
  then have "length r2 - 1 < length body" by (cases r2) auto
  then show "((tl r2, h'), (body, h)) \<in> measure (\<lambda>(body, h). length body)" by simp
qed simp

declare config_loop.simps [simp del]

text \<open>The host: its configuration and the request to shut down.\<close>

definition DispatchControlMessage :: "bytes \<Rightarrow> HostConfig \<times> bool \<Rightarrow> HostConfig \<times> bool" where
  "DispatchControlMessage msg s =
     (if msg = str ''shutdown'' \<or> msg = str ''shutdown'' @ [10] \<or> msg = str ''shutdown'' @ [13, 10] then (fst s, True)
      else if take 7 msg \<noteq> str ''config:'' then s
      else (config_loop (drop 7 msg) (fst s), snd s))"

section \<open>The saved switch of the sidecar\<close>

text \<open>\<open>fgets\<close> with a buffer of 512 bytes: at most 511 bytes, up to and with a newline.\<close>

definition fgets_line :: "bytes \<Rightarrow> bytes" where
  "fgets_line s = (let l = takeWhile (\<lambda>b. b \<noteq> 10) s in take 511 (if length l < length s then l @ [10] else l))"

lemma fgets_line_pos: "s \<noteq> [] \<Longrightarrow> 0 < length (fgets_line s)"
  by (cases s) (auto simp: fgets_line_def Let_def)

function saved_loop :: "bytes \<Rightarrow> bool" where
  "saved_loop s =
     (if s = [] then True
      else let line = cstr (strip_newlines (cstr (fgets_line s)))
           in if take 16 line = str ''sidecar_enabled='' then drop 16 line \<noteq> str ''0'' else saved_loop (drop (length (fgets_line s)) s))"
  by pat_completeness auto
termination by (relation "measure length") (use fgets_line_pos in auto)

definition ReadSavedSidecarEnabled :: "bytes option \<Rightarrow> bool" where
  "ReadSavedSidecarEnabled file = (case file of None \<Rightarrow> True | Some s \<Rightarrow> saved_loop s)"

section \<open>The driver module\<close>

text \<open>The calls the module makes to its supervisor, in order. \<open>have\<close> tells whether the supervisor object exists.\<close>

datatype sup_request = SetHostConfigCommand bytes | CleanupStaleHostIfWedged | StartHost | RestartHost | StopHost | RequestHostShutdown

record captions_module =
  cm_supervisor :: bool
  cm_started :: bool
  cm_config :: CaptionsConfig
  cm_calls :: "sup_request list"

definition cm_call :: "sup_request list \<Rightarrow> captions_module \<Rightarrow> captions_module" where
  "cm_call rs m = m\<lparr>cm_calls := cm_calls m @ rs\<rparr>"

definition StartSupervisor :: "bytes \<Rightarrow> captions_module \<Rightarrow> captions_module" where
  "StartSupervisor cmd m =
     (if \<not> cm_supervisor m then m
      else let m1 = cm_call [SetHostConfigCommand cmd] m
           in if cm_started m1 then m1 else (cm_call [CleanupStaleHostIfWedged, StartHost] m1)\<lparr>cm_started := True\<rparr>)"

definition StopSupervisor :: "captions_module \<Rightarrow> captions_module" where
  "StopSupervisor m =
     (if \<not> cm_supervisor m then m
      else let m1 = cm_call [RequestHostShutdown] m
           in if \<not> cm_started m1 then m1 else (cm_call [StopHost] m1)\<lparr>cm_started := False\<rparr>)"

definition RestartSupervisor :: "bytes \<Rightarrow> captions_module \<Rightarrow> captions_module" where
  "RestartSupervisor cmd m =
     (if \<not> cm_supervisor m then m
      else let m1 = cm_call [SetHostConfigCommand cmd] m
           in if \<not> cm_started m1 then (cm_call [CleanupStaleHostIfWedged, StartHost] m1)\<lparr>cm_started := True\<rparr>
              else cm_call [RestartHost] m1)"

definition ApplySidecarState :: "bool \<Rightarrow> bytes \<Rightarrow> captions_module \<Rightarrow> captions_module" where
  "ApplySidecarState enabled cmd m = (if enabled then StartSupervisor cmd m else StopSupervisor m)"

definition zero_config :: CaptionsConfig where
  "zero_config = \<lparr>cc_master_enabled = 0, cc_mode = 0, cc_notify_sound = 0, cc_transcript_logging = 0, cc_chatbox_enabled = 0, cc_realtime_flags = 0,
     cc_speech_model = 0, cc_chatbox_port = 0, cc_chatbox_split_delay_ms = 0, cc_source_lang = replicate 16 0, cc_target_lang = replicate 16 0,
     cc_chatbox_address = replicate 48 0\<rparr>"

definition cm_new :: captions_module where
  "cm_new = \<lparr>cm_supervisor = False, cm_started = False, cm_config = zero_config, cm_calls = []\<rparr>"

definition Captions_Init :: "bytes option \<Rightarrow> captions_module \<Rightarrow> captions_module" where
  "Captions_Init saved m =
     (let c = (cm_config m)\<lparr>cc_chatbox_split_delay_ms := word_of_int kCaptionsChatboxSplitDelayDefaultMs,
                            cc_master_enabled := (if ReadSavedSidecarEnabled saved then 1 else 0)\<rparr>;
          m1 = m\<lparr>cm_supervisor := True, cm_config := c\<rparr>
      in if cc_master_enabled c \<noteq> 0 then ApplySidecarState True (BuildHostConfigCommand c) m1 else StopSupervisor m1)"

definition Captions_Shutdown :: "captions_module \<Rightarrow> captions_module" where
  "Captions_Shutdown m = (StopSupervisor m)\<lparr>cm_supervisor := False\<rparr>"

datatype captions_request = SetCaptionsConfig CaptionsConfig | CaptionsRestartHost | CaptionsGetSupervisorStatus | OtherRequest

definition Captions_HandleRequest :: "captions_request \<Rightarrow> captions_module \<Rightarrow> captions_module \<times> bool" where
  "Captions_HandleRequest req m =
     (case req of
        SetCaptionsConfig c \<Rightarrow> (ApplySidecarState (cc_master_enabled c \<noteq> 0) (BuildHostConfigCommand c) (m\<lparr>cm_config := c\<rparr>), True)
      | CaptionsRestartHost \<Rightarrow>
          ((if cc_master_enabled (cm_config m) \<noteq> 0 then RestartSupervisor (BuildHostConfigCommand (cm_config m)) m else m), True)
      | CaptionsGetSupervisorStatus \<Rightarrow> (m, True)
      | OtherRequest \<Rightarrow> (m, False))"

section \<open>What the host makes of a configuration\<close>

lemma takeWhile_stop: "x \<notin> set a \<Longrightarrow> takeWhile (\<lambda>b. b \<noteq> x) (a @ x # r) = a \<and> dropWhile (\<lambda>b. b \<noteq> x) (a @ x # r) = x # r"
  by (induction a) auto

lemma takeWhile_none: "x \<notin> set a \<Longrightarrow> takeWhile (\<lambda>b. b \<noteq> x) a = a"
  by (induction a) auto

lemma config_loop_item:
  "61 \<notin> set (str k) \<Longrightarrow> 44 \<notin> set v \<Longrightarrow> config_loop (setting k v @ 44 # r) h = config_loop r (apply_setting (str k) (strip_newlines v) h)"
  using takeWhile_stop [of 61 "str k" "v @ 44 # r"] takeWhile_stop [of 44 v r]
  by (subst config_loop.simps) (simp add: setting_def Let_def)

lemma config_loop_last:
  "61 \<notin> set (str k) \<Longrightarrow> 44 \<notin> set v \<Longrightarrow> config_loop (setting k v) h = apply_setting (str k) (strip_newlines v) h"
  using takeWhile_stop [of 61 "str k" v] by (subst config_loop.simps) (simp add: setting_def Let_def takeWhile_none)

lemma dec_byte: "b \<in> set (dec n) \<Longrightarrow> 48 \<le> b \<and> b \<le> 57"
proof -
  assume "b \<in> set (dec n)"
  then obtain d where d: "d < 10" "b = 48 + word_of_nat d" using dec_digits by blast
  then have "d \<in> {0, 1, 2, 3, 4, 5, 6, 7, 8, 9}" by (simp, arith)
  then show ?thesis using d(2) by (elim insertE emptyE) simp_all
qed

lemma dec_not_Nil: "dec n \<noteq> []"
  by (simp add: dec.simps [of n])

lemma dec_all: "(\<And>b. 48 \<le> b \<Longrightarrow> b \<le> 57 \<Longrightarrow> P b) \<Longrightarrow> list_all P (dec n)"
  using dec_byte by (auto simp: list_all_iff)

lemma strip_newlines_id: "v = [] \<or> last v \<notin> {10, 13} \<Longrightarrow> strip_newlines v = v"
  by (cases v rule: rev_cases) (auto simp: strip_newlines_def)

lemma strip_newlines_snoc: "strip_newlines (v @ [10]) = strip_newlines v"
  by (simp add: strip_newlines_def)

lemma dec_clean: "44 \<notin> set (dec n)" "strip_newlines (dec n) = dec n"
proof -
  show "44 \<notin> set (dec n)" using dec_byte [of 44 n] by auto
  have "last (dec n) \<in> set (dec n)" using dec_not_Nil by simp
  then have "48 \<le> last (dec n)" using dec_byte by blast
  then show "strip_newlines (dec n) = dec n" by (intro strip_newlines_id) auto
qed

lemma TryParseInt_dec: "n < 2 ^ 31 \<Longrightarrow> TryParseInt (dec n) = Some (int n)"
proof -
  assume n: "n < 2 ^ 31"
  obtain b r where br: "dec n = b # r" using dec_not_Nil [of n] by (cases "dec n") auto
  then have "48 \<le> b" "b \<le> 57" using dec_byte [of b n] by auto
  then have b: "b \<noteq> 32" "\<not> b \<le> 13" "b \<noteq> 43" "b \<noteq> 45" by (auto simp: word_le_nat_alt)
  have "takeWhile is_digit (dec n) = dec n \<and> dropWhile is_digit (dec n) = []"
    using dec_byte by (auto simp: takeWhile_eq_all_conv dropWhile_eq_Nil_conv is_digit_def)
  then show ?thesis using n b dec_not_Nil [of n] by (simp add: TryParseInt_def Let_def br dec_value_dec [of n, unfolded br])
qed

text \<open>The configuration the host should end up with.\<close>

definition effective :: "CaptionsConfig \<Rightarrow> HostConfig" where
  "effective c = \<lparr>source_lang = cstr (cc_source_lang c), target_lang = cstr (cc_target_lang c), chatbox_address = cstr (cc_chatbox_address c),
     chatbox_port = cc_chatbox_port c, chatbox_enabled = (cc_chatbox_enabled c \<noteq> 0), notify_sound = (cc_notify_sound c \<noteq> 0),
     chatbox_split_delay_ms = min 10000 (uint (cc_chatbox_split_delay_ms c)), transcript_logging = (cc_transcript_logging c \<noteq> 0),
     host_mode = (if cc_mode c = 0 then 0 else 1), realtime_flags = cc_realtime_flags c, speech_model = (if cc_speech_model c = 1 then 1 else 0)\<rparr>"

definition plain_text :: "bytes \<Rightarrow> bool" where
  "plain_text s \<longleftrightarrow> 44 \<notin> set s \<and> (s = [] \<or> last s \<notin> {10, 13})"

lemma dec_zero: "dec n = str ''0'' \<longleftrightarrow> n = 0"
proof -
  have "str ''0'' = dec 0" by (simp add: dec.simps [of 0] str_def)
  then show ?thesis using dec_inj [of n 0] by simp
qed

lemma key_clean:
  "61 \<notin> set (str ''src'')" "61 \<notin> set (str ''tgt'')" "61 \<notin> set (str ''mode'')" "61 \<notin> set (str ''addr'')" "61 \<notin> set (str ''port'')"
  "61 \<notin> set (str ''notify'')" "61 \<notin> set (str ''chatbox'')" "61 \<notin> set (str ''splitdelay'')" "61 \<notin> set (str ''log'')" "61 \<notin> set (str ''flags'')"
  "61 \<notin> set (str ''model'')"
  by (simp_all add: str_def)

lemma byte_lt: "unat (b :: byte) < 2 ^ 31" "unat (w :: u16) < 2 ^ 31"
  using unat_byte [of b] unat_u16 [of w] by simp_all

lemma delay_norm: "NormalizeCaptionsChatboxSplitDelayMs (uint (w :: u16)) = min 10000 (uint w)"
  "nat (min 10000 (uint (w :: u16))) < 2 ^ 31"
  by (simp_all add: NormalizeCaptionsChatboxSplitDelayMs_def)

text \<open>Applying each setting with a number.\<close>

lemma apply_numbers:
  "apply_setting (str ''mode'') (dec (unat (b :: byte))) h = h\<lparr>host_mode := (if b = 0 then 0 else 1)\<rparr>"
  "apply_setting (str ''port'') (dec (unat (w :: u16))) h = h\<lparr>chatbox_port := w\<rparr>"
  "apply_setting (str ''notify'') (dec (unat b)) h = h\<lparr>notify_sound := (b \<noteq> 0)\<rparr>"
  "apply_setting (str ''chatbox'') (dec (unat b)) h = h\<lparr>chatbox_enabled := (b \<noteq> 0)\<rparr>"
  "apply_setting (str ''log'') (dec (unat b)) h = h\<lparr>transcript_logging := (b \<noteq> 0)\<rparr>"
  "apply_setting (str ''flags'') (dec (unat b)) h = h\<lparr>realtime_flags := b\<rparr>"
  "apply_setting (str ''model'') (dec (unat b)) h = h\<lparr>speech_model := (if b = 1 then 1 else 0)\<rparr>"
proof -
  have u: "uint b \<le> 255" "uint w \<le> 65535"
  proof -
    have "int (unat b) \<le> 255" "int (unat w) \<le> 65535" using unat_byte [of b] unat_u16 [of w] by linarith+
    then show "uint b \<le> 255" "uint w \<le> 65535" by simp_all
  qed
  have p: "TryParseInt (dec (unat b)) = Some (uint b)" "TryParseInt (dec (unat w)) = Some (uint w)"
    using TryParseInt_dec [OF byte_lt(1)] TryParseInt_dec [OF byte_lt(2)] by simp_all
  have z: "uint b > 0 \<longleftrightarrow> b \<noteq> 0" "uint b = 1 \<longleftrightarrow> b = 1"
    using word_less_def [of 0 b] word_uint_eq_iff [of b 1] by (simp_all add: word_neq_0_conv)
  show "apply_setting (str ''mode'') (dec (unat b)) h = h\<lparr>host_mode := (if b = 0 then 0 else 1)\<rparr>"
  proof (cases "b = 0")
    case False
    then have "clamp 0 1 (uint b) = 1" using z(1) by (auto simp: clamp_def)
    then show ?thesis using False by (simp add: apply_setting_def str_inj p)
  qed (use TryParseInt_dec [of 0] in \<open>simp add: apply_setting_def str_inj clamp_def\<close>)
  show "apply_setting (str ''port'') (dec (unat w)) h = h\<lparr>chatbox_port := w\<rparr>"
    using u by (simp add: apply_setting_def str_inj p)
  show "apply_setting (str ''notify'') (dec (unat b)) h = h\<lparr>notify_sound := (b \<noteq> 0)\<rparr>"
    "apply_setting (str ''chatbox'') (dec (unat b)) h = h\<lparr>chatbox_enabled := (b \<noteq> 0)\<rparr>"
    "apply_setting (str ''log'') (dec (unat b)) h = h\<lparr>transcript_logging := (b \<noteq> 0)\<rparr>"
    by (simp_all add: apply_setting_def str_inj dec_zero unat_gt_0)
  have "clamp 0 255 (uint b) = uint b" using u by (simp add: clamp_def)
  then show "apply_setting (str ''flags'') (dec (unat b)) h = h\<lparr>realtime_flags := b\<rparr>" by (simp add: apply_setting_def str_inj p)
  show "apply_setting (str ''model'') (dec (unat b)) h = h\<lparr>speech_model := (if b = 1 then 1 else 0)\<rparr>"
    using z(2) by (simp add: apply_setting_def str_inj p NormalizeCaptionsSpeechModel_def)
qed

lemma apply_delay:
  "apply_setting (str ''splitdelay'') (dec (nat (min 10000 (uint (w :: u16))))) h = h\<lparr>chatbox_split_delay_ms := min 10000 (uint w)\<rparr>"
proof -
  have "NormalizeCaptionsChatboxSplitDelayMs m = m" if "0 \<le> m" "m \<le> 10000" for m
    using that by (simp add: NormalizeCaptionsChatboxSplitDelayMs_def)
  then have "NormalizeCaptionsChatboxSplitDelayMs (min 10000 (uint w)) = min 10000 (uint w)" by simp
  then show ?thesis by (simp add: apply_setting_def str_inj TryParseInt_dec delay_norm(2))
qed

lemma apply_texts:
  "apply_setting (str ''src'') v h = h\<lparr>source_lang := v\<rparr>" "apply_setting (str ''tgt'') v h = h\<lparr>target_lang := v\<rparr>"
  "apply_setting (str ''addr'') v h = h\<lparr>chatbox_address := v\<rparr>"
  by (simp_all add: apply_setting_def str_inj)

text \<open>The command behind its prefix.\<close>

lemma config_body: "take 7 (BuildHostConfigCommand c) = str ''config:''" "BuildHostConfigCommand c \<noteq> str ''shutdown''"
    "BuildHostConfigCommand c \<noteq> str ''shutdown'' @ [10]" "BuildHostConfigCommand c \<noteq> str ''shutdown'' @ [13, 10]"
  by (simp_all add: BuildHostConfigCommand_def str_def)

lemma dispatch_config: "DispatchControlMessage (BuildHostConfigCommand c) (h, stop) = (config_loop (drop 7 (BuildHostConfigCommand c)) h, stop)"
  by (simp add: DispatchControlMessage_def config_body)

lemma config_loop_build:
  assumes "plain_text (cstr (cc_source_lang c))" "plain_text (cstr (cc_target_lang c))" "plain_text (cstr (cc_chatbox_address c))"
  shows "config_loop (drop 7 (BuildHostConfigCommand c)) h = effective c"
proof -
  note t = assms [unfolded plain_text_def]
  have m: "setting k v @ [10] = setting k (v @ [10])" for k v by (simp add: setting_def)
  have d: "drop 7 (str ''config:'' @ r) = r" for r by (simp add: str_def)
  have "44 \<notin> set (dec n @ [10])" for n using dec_clean(1) by simp
  then show ?thesis
    unfolding BuildHostConfigCommand_def d m append_assoc append_Cons
    using t by (simp add: config_loop_item config_loop_last key_clean dec_clean strip_newlines_id strip_newlines_snoc apply_texts apply_numbers
        apply_delay delay_norm(1) effective_def)
qed

text \<open>C37. The configuration survives the control pipe: whatever the host was configured with before, the command the driver builds leaves it with exactly the settings of the driver, the
  mode and the speech model as switches and the delay clamped, provided no text contains a comma or ends in a line break; the request to shut down is never confused with it.\<close>

theorem captions_config_arrives:
  assumes "plain_text (cstr (cc_source_lang c))" "plain_text (cstr (cc_target_lang c))" "plain_text (cstr (cc_chatbox_address c))"
  shows "DispatchControlMessage (BuildHostConfigCommand c) (h, stop) = (effective c, stop)"
  using config_loop_build [OF assms] by (simp add: DispatchControlMessage_def config_body)

theorem captions_config_arrives_witness:
  "DispatchControlMessage (BuildHostConfigCommand (zero_config\<lparr>cc_mode := 7, cc_chatbox_port := 9000\<rparr>)) (default_host_config, False) =
     (effective (zero_config\<lparr>cc_mode := 7, cc_chatbox_port := 9000\<rparr>), False)"
  by (rule captions_config_arrives) (simp_all add: plain_text_def zero_config_def cstr_def)

text \<open>A comma in the address is not escaped: what follows it is read as further settings.\<close>

lemma captions_config_injection:
  "host_mode (fst (DispatchControlMessage (BuildHostConfigCommand (zero_config\<lparr>cc_chatbox_address := str ''/x,mode=1''\<rparr>)) (h, False))) = 1"
proof -
  have "cstr (str ''/x,mode=1'') = str ''/x,mode=1''" "dec 1 = str ''1''" by (simp_all add: cstr_def str_def dec.simps)
  then have a: "setting ''addr'' (cstr (str ''/x,mode=1'')) = setting ''addr'' (str ''/x'') @ 44 # setting ''mode'' (dec (Suc 0))"
    by (simp add: setting_def str_def)
  have m: "setting k v @ [10] = setting k (v @ [10])" for k v by (simp add: setting_def)
  have d: "drop 7 (str ''config:'' @ r) = r" for r by (simp add: str_def)
  have v: "44 \<notin> set (str ''/x'')" "44 \<notin> set (dec n @ [10])" for n using dec_clean(1) by (simp_all add: str_def)
  have z: "cstr (cc_source_lang zero_config) = []" "cstr (cc_target_lang zero_config) = []" "44 \<notin> set ([] :: bytes)" "strip_newlines [] = []"
    by (simp_all add: zero_config_def cstr_def strip_newlines_def)
  have x: "strip_newlines (str ''/x'') = str ''/x''" "cstr (str ''/x'') = str ''/x''" "apply_setting (str ''mode'') (dec (Suc 0)) g = g\<lparr>host_mode := 1\<rparr>" for g
    using apply_numbers(1) [of 1 g] by (simp_all add: strip_newlines_def cstr_def str_def)
  have "config_loop (drop 7 (BuildHostConfigCommand (zero_config\<lparr>cc_chatbox_address := str ''/x,mode=1''\<rparr>))) h =
      (effective (zero_config\<lparr>cc_chatbox_address := str ''/x''\<rparr>))\<lparr>host_mode := 1\<rparr>"
    unfolding BuildHostConfigCommand_def d m append_assoc append_Cons
    by (simp add: a z v x config_loop_item config_loop_last key_clean dec_clean strip_newlines_id strip_newlines_snoc apply_texts apply_numbers apply_delay
        delay_norm(1) effective_def)
  then show ?thesis by (simp add: dispatch_config)
qed

text \<open>At start-up the driver overwrites the defaults of the host: with the sidecar enabled, the command it queues before any configuration has arrived leaves the host with
  an empty source language, an empty chatbox address, port 0 and all realtime options off.\<close>

theorem init_clears_host_defaults:
  assumes "ReadSavedSidecarEnabled saved"
  shows "\<exists>cmd. SetHostConfigCommand cmd \<in> set (cm_calls (Captions_Init saved cm_new)) \<and>
    (let h = fst (DispatchControlMessage cmd (default_host_config, False))
     in source_lang h = [] \<and> chatbox_address h = [] \<and> chatbox_port h = 0 \<and> realtime_flags h = 0) \<and>
    realtime_flags default_host_config = 255 \<and> chatbox_port default_host_config = 9000"
proof -
  let ?c = "zero_config\<lparr>cc_chatbox_split_delay_ms := word_of_int kCaptionsChatboxSplitDelayDefaultMs, cc_master_enabled := 1\<rparr>"
  have "plain_text (cstr (cc_source_lang ?c))" "plain_text (cstr (cc_target_lang ?c))" "plain_text (cstr (cc_chatbox_address ?c))"
    by (simp_all add: plain_text_def zero_config_def cstr_def)
  then have "config_loop (drop 7 (BuildHostConfigCommand ?c)) default_host_config = effective ?c" by (rule config_loop_build)
  then have "DispatchControlMessage (BuildHostConfigCommand ?c) (default_host_config, False) = (effective ?c, False)"
    by (simp add: DispatchControlMessage_def config_body)
  moreover have "SetHostConfigCommand (BuildHostConfigCommand ?c) \<in> set (cm_calls (Captions_Init saved cm_new))"
    using assms by (simp add: Captions_Init_def cm_new_def Let_def ApplySidecarState_def StartSupervisor_def cm_call_def)
  ultimately show ?thesis
    by (intro exI [of _ "BuildHostConfigCommand ?c"])
       (simp add: effective_def zero_config_def cstr_def default_host_config_def kCaptionsRealtimeDefaultFlags_def)
qed

theorem init_clears_host_defaults_witness:
  "\<exists>cmd. SetHostConfigCommand cmd \<in> set (cm_calls (Captions_Init None cm_new)) \<and>
    realtime_flags (fst (DispatchControlMessage cmd (default_host_config, False))) = 0"
  using init_clears_host_defaults [of None] by (auto simp: ReadSavedSidecarEnabled_def Let_def)

section \<open>The calls to the supervisor\<close>

text \<open>Requests and the end of the module.\<close>

datatype module_op = Request captions_request | EndModule

definition module_op_step :: "module_op \<Rightarrow> captions_module \<Rightarrow> captions_module" where
  "module_op_step op m = (case op of Request r \<Rightarrow> fst (Captions_HandleRequest r m) | EndModule \<Rightarrow> Captions_Shutdown m)"

text \<open>Whether the supervisor is started after a sequence of calls; \<open>None\<close> for a sequence that starts it twice, or restarts or stops it when it is not started.\<close>

fun well_paired :: "bool \<Rightarrow> sup_request list \<Rightarrow> bool option" where
  "well_paired st [] = Some st"
| "well_paired st (StartHost # rs) = (if st then None else well_paired True rs)"
| "well_paired st (StopHost # rs) = (if st then well_paired False rs else None)"
| "well_paired st (RestartHost # rs) = (if st then well_paired st rs else None)"
| "well_paired st (_ # rs) = well_paired st rs"

lemma well_paired_append: "well_paired st (xs @ ys) = (case well_paired st xs of None \<Rightarrow> None | Some t \<Rightarrow> well_paired t ys)"
  by (induction st xs rule: well_paired.induct) auto

definition paired :: "captions_module \<Rightarrow> bool" where
  "paired m \<longleftrightarrow> well_paired False (cm_calls m) = Some (cm_started m)"

lemma paired_ops:
  assumes "paired m"
  shows "paired (StartSupervisor cmd m)" "paired (StopSupervisor m)" "paired (RestartSupervisor cmd m)"
  using assms by (auto simp: paired_def StartSupervisor_def StopSupervisor_def RestartSupervisor_def cm_call_def Let_def well_paired_append)

lemma paired_fields [simp]: "paired (m\<lparr>cm_config := c\<rparr>) = paired m" "paired (m\<lparr>cm_supervisor := b\<rparr>) = paired m"
  by (simp_all add: paired_def)

lemma paired_step: "paired m \<Longrightarrow> paired (module_op_step op m)"
  by (auto simp: module_op_step_def Captions_HandleRequest_def Captions_Shutdown_def ApplySidecarState_def paired_ops
      split: module_op.split captions_request.split)

lemma module_op_alive:
  assumes "cm_supervisor m \<or> \<not> cm_started m"
  shows "cm_supervisor (module_op_step op m) \<or> \<not> cm_started (module_op_step op m)"
proof -
  have "cm_supervisor (StartSupervisor c n) = cm_supervisor n" "cm_supervisor (StopSupervisor n) = cm_supervisor n"
    "cm_supervisor (RestartSupervisor c n) = cm_supervisor n" for c n
    by (simp_all add: StartSupervisor_def StopSupervisor_def RestartSupervisor_def cm_call_def Let_def)
  moreover have "\<not> cm_started (StopSupervisor n)" "cm_started (StartSupervisor c n)" "cm_started (RestartSupervisor c n)" if "cm_supervisor n" for c n
    using that by (simp_all add: StopSupervisor_def StartSupervisor_def RestartSupervisor_def cm_call_def Let_def)
  moreover have "StartSupervisor c n = n" "StopSupervisor n = n" "RestartSupervisor c n = n" if "\<not> cm_supervisor n" for c n
    using that by (simp_all add: StopSupervisor_def StartSupervisor_def RestartSupervisor_def)
  ultimately show ?thesis using assms
    by (cases "cm_supervisor m") (simp_all add: module_op_step_def Captions_HandleRequest_def Captions_Shutdown_def ApplySidecarState_def
        split: module_op.split captions_request.split)
qed

text \<open>C38. The captions module keeps the contract of its supervisor: whatever was saved and whatever requests arrive, it never starts a started supervisor and never restarts or stops one that is not
  started, and after the module has ended the supervisor is stopped.\<close>

theorem captions_module_pairs_calls:
  "well_paired False (cm_calls (fold module_op_step ops (Captions_Init saved cm_new))) = Some (cm_started (fold module_op_step ops (Captions_Init saved cm_new))) \<and>
   well_paired False (cm_calls (fold module_op_step (ops @ [EndModule]) (Captions_Init saved cm_new))) = Some False"
proof -
  have "paired (Captions_Init saved cm_new)"
  proof -
    have "paired cm_new" by (simp add: paired_def cm_new_def)
    then show ?thesis by (simp add: Captions_Init_def Let_def ApplySidecarState_def paired_ops)
  qed
  then have p: "paired (fold module_op_step xs (Captions_Init saved cm_new))" for xs
    by (induction xs rule: rev_induct) (simp_all add: paired_step)
  have alive: "cm_supervisor (fold module_op_step xs m) \<or> \<not> cm_started (fold module_op_step xs m)" if "cm_supervisor m \<or> \<not> cm_started m" for xs m
    using that by (induction xs arbitrary: m) (simp_all add: module_op_alive)
  have "cm_supervisor (Captions_Init saved cm_new)"
    by (simp add: Captions_Init_def Let_def ApplySidecarState_def StartSupervisor_def StopSupervisor_def cm_call_def)
  then have "\<not> cm_started (fold module_op_step (ops @ [EndModule]) (Captions_Init saved cm_new))"
    using alive [of "Captions_Init saved cm_new" ops] by (auto simp: module_op_step_def Captions_Shutdown_def StopSupervisor_def cm_call_def Let_def)
  then show ?thesis using p [of ops] p [of "ops @ [EndModule]"] by (simp add: paired_def)
qed

end
