(* ===== verification/HostControl.thy ===== *)
theory HostControl
  imports CommandLine
begin

text \<open>
  What the supervisors of the two hosts send over the control pipes (\<open>modules/facetracking/src/driver/HostSupervisor.cpp\<close>,
  \<open>modules/captions/src/driver/HostSupervisor.cpp\<close>), how the face tracking host reads it
  (\<open>HostControlPipeServer.cs\<close>), and the removal of hosts that are left over from an earlier session.
\<close>

section \<open>Messages to the face tracking host\<close>

text \<open>The length is cut to one byte.\<close>

definition CborAppendTextString :: "bytes \<Rightarrow> bytes" where
  "CborAppendTextString s = (if length s < 24 then [0x60 OR word_of_nat (length s)] else [0x78, word_of_nat (length s)]) @ s"

definition frame_len :: "u32 \<Rightarrow> bytes" where
  "frame_len n = [ucast n, ucast (drop_bit 8 n), ucast (drop_bit 16 n), ucast (drop_bit 24 n)]"

definition framed :: "bytes \<Rightarrow> bytes" where
  "framed body = frame_len (word_of_nat (length body)) @ body"

definition SelectModule_body :: "bytes \<Rightarrow> bytes" where
  "SelectModule_body uuid =
     0xA2 # CborAppendTextString (str ''type'') @ CborAppendTextString (str ''SelectModule'') @
     CborAppendTextString (str ''uuid'') @ CborAppendTextString uuid"

definition EncodeSelectModule :: "bytes \<Rightarrow> bytes" where
  "EncodeSelectModule uuid = framed (SelectModule_body uuid)"

definition Shutdown_body :: bytes where
  "Shutdown_body = 0xA1 # CborAppendTextString (str ''type'') @ CborAppendTextString (str ''Shutdown'')"

definition EncodeShutdown :: bytes where
  "EncodeShutdown = framed Shutdown_body"

section \<open>The host\<close>

text \<open>
  The operations of the package's \<open>CborReader\<close> that the host calls; \<open>None\<close> stands for an exception. \<open>AtEndMap\<close> is
  \<open>PeekState() == EndMap\<close>.
\<close>

record 'r CborReader =
  ReadStartMap :: "bytes \<Rightarrow> 'r option"
  AtEndMap :: "'r \<Rightarrow> bool option"
  ReadTextString :: "'r \<Rightarrow> (bytes \<times> 'r) option"
  SkipValue :: "'r \<Rightarrow> 'r option"
  ReadEndMap :: "'r \<Rightarrow> 'r option"

text \<open>
  What its documentation promises of them for a complete map of fewer than 24 pairs of ASCII text strings of fewer than 256 bytes: \<open>reads_on R ts r\<close> says
  that the reader \<open>r\<close> yields the strings \<open>ts\<close> one after the other and is then at the end of the map.
\<close>

definition text_ok :: "bytes \<Rightarrow> bool" where
  "text_ok t \<longleftrightarrow> length t < 256 \<and> list_all (\<lambda>b. b < 128) t"

fun reads_on :: "'r CborReader \<Rightarrow> bytes list \<Rightarrow> 'r \<Rightarrow> bool" where
  "reads_on R [] r = (AtEndMap R r = Some True \<and> ReadEndMap R r \<noteq> None)"
| "reads_on R (t # ts) r =
     (AtEndMap R r = Some False \<and> (case ReadTextString R r of None \<Rightarrow> False | Some (t', r') \<Rightarrow> t' = t \<and> reads_on R ts r'))"

definition reads_text_maps :: "'r CborReader \<Rightarrow> bool" where
  "reads_text_maps R \<longleftrightarrow>
     (\<forall>n ts. n < 24 \<and> length ts = 2 * n \<and> list_all text_ok ts \<longrightarrow>
        (case ReadStartMap R ((0xA0 OR word_of_nat n) # concat (map CborAppendTextString ts)) of None \<Rightarrow> False | Some r \<Rightarrow> reads_on R ts r))"

datatype host_action = SelectActive bytes | ShutdownHost | UnknownMessage | DispatchError

text \<open>The loop over the entries of the map, with the values of \<open>type\<close> and \<open>uuid\<close> so far. Every entry takes two bytes or more, so the length of the message is enough fuel.\<close>

fun entry_loop :: "'r CborReader \<Rightarrow> nat \<Rightarrow> 'r \<Rightarrow> bytes option \<Rightarrow> bytes option \<Rightarrow> (bytes option \<times> bytes option) option" where
  "entry_loop R 0 r msgType uuid = None"
| "entry_loop R (Suc fuel) r msgType uuid =
     (case AtEndMap R r of
        None \<Rightarrow> None
      | Some True \<Rightarrow> map_option (\<lambda>_. (msgType, uuid)) (ReadEndMap R r)
      | Some False \<Rightarrow>
          (case ReadTextString R r of
             None \<Rightarrow> None
           | Some (key, r1) \<Rightarrow>
               if key = str ''type'' then
                 (case ReadTextString R r1 of None \<Rightarrow> None | Some (v, r2) \<Rightarrow> entry_loop R fuel r2 (Some v) uuid)
               else if key = str ''uuid'' then
                 (case ReadTextString R r1 of None \<Rightarrow> None | Some (v, r2) \<Rightarrow> entry_loop R fuel r2 msgType (Some v))
               else (case SkipValue R r1 of None \<Rightarrow> None | Some r2 \<Rightarrow> entry_loop R fuel r2 msgType uuid)))"

definition DispatchMessage :: "'r CborReader \<Rightarrow> bytes \<Rightarrow> host_action" where
  "DispatchMessage R data =
     (case ReadStartMap R data of
        None \<Rightarrow> DispatchError
      | Some r \<Rightarrow>
          (case entry_loop R (length data) r None None of
             None \<Rightarrow> DispatchError
           | Some (msgType, uuid) \<Rightarrow>
               if msgType = Some (str ''SelectModule'') \<and> uuid \<noteq> None then SelectActive (the uuid)
               else if msgType = Some (str ''Shutdown'') then ShutdownHost
               else UnknownMessage))"

definition ToUInt32 :: "bytes \<Rightarrow> nat" where
  "ToUInt32 b = unat (b ! 0) + 256 * unat (b ! 1) + 65536 * unat (b ! 2) + 16777216 * unat (b ! 3)"

text \<open>
  \<open>ReadExactAsync\<close> on the pieces in which the bytes arrive before the peer disconnects or stalls: it takes from them until it has the count, a read
  returns nothing or they are at an end.
\<close>

fun ReadExact :: "bytes list \<Rightarrow> nat \<Rightarrow> bytes \<times> bytes list" where
  "ReadExact [] n = ([], [])"
| "ReadExact (p # ps) n =
     (if n = 0 then ([], p # ps)
      else if p = [] then ([], ps)
      else if n < length p then (take n p, drop n p # ps)
      else (let (b, ps') = ReadExact ps (n - length p) in (p @ b, ps')))"

lemma ReadExact_split: "fst (ReadExact ps n) @ concat (snd (ReadExact ps n)) = concat ps"
  by (induction ps n rule: ReadExact.induct) (auto simp: Let_def split: prod.splits)

lemma ReadExact_stream:
  "[] \<notin> set ps \<Longrightarrow> fst (ReadExact ps n) = take n (concat ps) \<and> concat (snd (ReadExact ps n)) = drop n (concat ps) \<and> [] \<notin> set (snd (ReadExact ps n))"
  by (induction ps n rule: ReadExact.induct) (auto simp: Let_def split: prod.splits)

text \<open>The loop of a connection. A shutdown request cancels the token that the loop tests.\<close>

function HandleConnection :: "'r CborReader \<Rightarrow> bytes list \<Rightarrow> host_action list" where
  "HandleConnection R ps =
     (let (lenBuf, ps1) = ReadExact ps 4
      in if length lenBuf < 4 then []
         else let msgLen = ToUInt32 lenBuf
              in if msgLen = 0 \<or> msgLen > 65536 then []
                 else let (msgBuf, ps2) = ReadExact ps1 msgLen
                      in if length msgBuf < msgLen then []
                         else let a = DispatchMessage R msgBuf
                              in a # (if a = ShutdownHost then [] else HandleConnection R ps2))"
  by pat_completeness auto
termination
proof (relation "measure (\<lambda>(R, ps). length (concat ps))", goal_cases)
  case 1
  show ?case by simp
next
  case (2 R ps x lenBuf ps1 msgLen y msgBuf ps2 a)
  have "concat ps = lenBuf @ concat ps1" using 2(1,2) ReadExact_split [of ps 4] by (metis fst_conv snd_conv)
  moreover have "concat ps1 = msgBuf @ concat ps2" using 2(6,7) ReadExact_split [of ps1 msgLen] by (metis fst_conv snd_conv)
  moreover have "lenBuf \<noteq> []" using 2(3) by auto
  ultimately show ?case by simp
qed

declare HandleConnection.simps [simp del]

text \<open>Only the bytes matter, not the pieces.\<close>

function control_stream :: "'r CborReader \<Rightarrow> bytes \<Rightarrow> host_action list" where
  "control_stream R s =
     (let n = ToUInt32 (take 4 s)
      in if length s < 4 \<or> n = 0 \<or> n > 65536 \<or> length s < 4 + n then []
         else let a = DispatchMessage R (take n (drop 4 s))
              in a # (if a = ShutdownHost then [] else control_stream R (drop (4 + n) s)))"
  by pat_completeness auto
termination by (relation "measure (\<lambda>(R, s). length s)") auto

declare control_stream.simps [simp del]

lemma HandleConnection_stream: "[] \<notin> set ps \<Longrightarrow> HandleConnection R ps = control_stream R (concat ps)"
proof (induction R ps rule: HandleConnection.induct)
  case (1 R ps)
  obtain b ps1 where r1: "ReadExact ps 4 = (b, ps1)" by fastforce
  obtain m ps2 where r2: "ReadExact ps1 (ToUInt32 b) = (m, ps2)" by fastforce
  have e: "b = take 4 (concat ps)" "concat ps1 = drop 4 (concat ps)" "m = take (ToUInt32 b) (concat ps1)" "concat ps2 = drop (ToUInt32 b) (concat ps1)"
    and ne: "[] \<notin> set ps2"
    using ReadExact_stream [OF 1(2), of 4] ReadExact_stream [of ps1 "ToUInt32 b"] r1 r2 by simp_all
  have "HandleConnection R ps2 = control_stream R (concat ps2)"
    if "\<not> length b < 4" "\<not> (ToUInt32 b = 0 \<or> 65536 < ToUInt32 b)" "\<not> length m < ToUInt32 b" "DispatchMessage R m \<noteq> ShutdownHost"
    using 1(1) [OF r1 [symmetric] refl _ refl _ r2 [symmetric] refl _ refl] that ne by simp
  moreover have "control_stream R (concat ps) = (if length b < 4 \<or> ToUInt32 b = 0 \<or> 65536 < ToUInt32 b \<or> length m < ToUInt32 b then []
      else DispatchMessage R m # (if DispatchMessage R m = ShutdownHost then [] else control_stream R (concat ps2)))"
    using e by (subst control_stream.simps) (simp add: Let_def add.commute, linarith?)
  ultimately show ?case by (subst HandleConnection.simps) (simp add: Let_def r1 r2)
qed

section \<open>What the driver sends is what the host reads\<close>

lemma text_lengths: "length (str ''type'') < 256" "length (str ''uuid'') < 256" "length (str ''SelectModule'') < 256" "length (str ''Shutdown'') < 256"
    "str ''type'' \<noteq> str ''uuid''"
  by (simp_all add: str_def)

lemma length_SelectModule: "length (SelectModule_body uuid) = 24 + length (CborAppendTextString uuid)"
  by (simp add: SelectModule_body_def) (simp add: CborAppendTextString_def str_def)

lemma length_Shutdown: "length Shutdown_body = 15"
  by (simp add: Shutdown_body_def CborAppendTextString_def str_def)

lemma fixed_texts: "text_ok (str ''type'')" "text_ok (str ''uuid'')" "text_ok (str ''SelectModule'')" "text_ok (str ''Shutdown'')"
  by (simp_all add: text_ok_def str_def)

text \<open>A reader in the map, at the key \<open>type\<close>, at the key \<open>uuid\<close> and at the end.\<close>

lemma reads_type:
  assumes "reads_on R (str ''type'' # v # ts) r"
  shows "\<exists>r'. reads_on R ts r' \<and> entry_loop R (Suc fuel) r t u = entry_loop R fuel r' (Some v) u"
  using assms by (auto split: option.splits)

lemma reads_uuid:
  assumes "reads_on R (str ''uuid'' # v # ts) r"
  shows "\<exists>r'. reads_on R ts r' \<and> entry_loop R (Suc fuel) r t u = entry_loop R fuel r' t (Some v)"
  using assms text_lengths(5) by (auto split: option.splits)

lemma reads_end: "reads_on R [] r \<Longrightarrow> entry_loop R (Suc fuel) r t u = Some (t, u)"
  by auto

lemma reads_start:
  assumes "reads_text_maps R" "n < 24" "length ts = 2 * n" "list_all text_ok ts"
  obtains r where "ReadStartMap R ((0xA0 OR word_of_nat n) # concat (map CborAppendTextString ts)) = Some r" "reads_on R ts r"
proof -
  have "case ReadStartMap R ((0xA0 OR word_of_nat n) # concat (map CborAppendTextString ts)) of None \<Rightarrow> False | Some r \<Rightarrow> reads_on R ts r"
    using assms unfolding reads_text_maps_def by blast
  then show thesis by (auto intro: that split: option.splits)
qed

lemma DispatchMessage_select:
  assumes "reads_text_maps R" "text_ok uuid"
  shows "DispatchMessage R (SelectModule_body uuid) = SelectActive uuid"
proof -
  have b: "SelectModule_body uuid = (0xA0 OR word_of_nat 2) # concat (map CborAppendTextString [str ''type'', str ''SelectModule'', str ''uuid'', uuid])"
    by (simp add: SelectModule_body_def)
  obtain r where r: "ReadStartMap R (SelectModule_body uuid) = Some r" "reads_on R [str ''type'', str ''SelectModule'', str ''uuid'', uuid] r"
    using reads_start [OF assms(1), of 2 "[str ''type'', str ''SelectModule'', str ''uuid'', uuid]"] assms(2) fixed_texts
    unfolding b by (auto simp del: of_nat_numeral reads_on.simps)
  define f where "f = length (SelectModule_body uuid) - 3"
  have f: "length (SelectModule_body uuid) = Suc (Suc (Suc f))" using length_SelectModule [of uuid] by (simp add: f_def)
  obtain r1 where 1: "reads_on R [str ''uuid'', uuid] r1"
      "entry_loop R (Suc (Suc (Suc f))) r None None = entry_loop R (Suc (Suc f)) r1 (Some (str ''SelectModule'')) None"
    using reads_type [OF r(2), of "Suc (Suc f)" None None] by (elim exE conjE) (rule that)
  obtain r2 where 2: "reads_on R [] r2"
      "entry_loop R (Suc (Suc f)) r1 (Some (str ''SelectModule'')) None = entry_loop R (Suc f) r2 (Some (str ''SelectModule'')) (Some uuid)"
    using reads_uuid [OF 1(1), of "Suc f" "Some (str ''SelectModule'')" None] by (elim exE conjE) (rule that)
  show ?thesis unfolding DispatchMessage_def f using r(1) 1(2) 2(2) reads_end [OF 2(1)] by (simp del: entry_loop.simps)
qed

lemma DispatchMessage_shutdown:
  assumes "reads_text_maps R"
  shows "DispatchMessage R Shutdown_body = ShutdownHost"
proof -
  have b: "Shutdown_body = (0xA0 OR word_of_nat 1) # concat (map CborAppendTextString [str ''type'', str ''Shutdown''])"
    by (simp add: Shutdown_body_def)
  obtain r where r: "ReadStartMap R Shutdown_body = Some r" "reads_on R [str ''type'', str ''Shutdown''] r"
    using reads_start [OF assms, of 1 "[str ''type'', str ''Shutdown'']"] fixed_texts unfolding b by (auto simp del: reads_on.simps)
  define f where "f = length Shutdown_body - 2"
  have f: "length Shutdown_body = Suc (Suc f)" by (simp add: f_def length_Shutdown)
  obtain r1 where 1: "reads_on R [] r1" "entry_loop R (Suc (Suc f)) r None None = entry_loop R (Suc f) r1 (Some (str ''Shutdown'')) None"
    using reads_type [OF r(2), of "Suc f" None None] by (elim exE conjE) (rule that)
  have "str ''Shutdown'' \<noteq> str ''SelectModule''" by (simp add: str_inj)
  then show ?thesis unfolding DispatchMessage_def f using r(1) 1(2) reads_end [OF 1(1)] by (simp del: entry_loop.simps)
qed

lemma base256: "x < 2 ^ 32 \<Longrightarrow> x mod 256 + 256 * (x div 2 ^ 8 mod 256) + 65536 * (x div 2 ^ 16 mod 256) + 16777216 * (x div 2 ^ 24 mod 256) = x" for x :: nat
proof -
  assume "x < 2 ^ 32"
  define y z w where "y = x div 256" and "z = y div 256" and "w = z div 256"
  have "x div 2 ^ 8 = y" "x div 2 ^ 16 = z" "x div 2 ^ 24 = w" by (simp_all add: y_def z_def w_def flip: div_mult2_eq)
  moreover have "w < 256" using \<open>x < 2 ^ 32\<close> by (simp add: w_def z_def y_def flip: div_mult2_eq)
  moreover have "x mod 256 + 256 * y = x" "y mod 256 + 256 * z = y" "z mod 256 + 256 * w = z" by (simp_all add: y_def z_def w_def)
  ultimately show ?thesis by simp
qed

lemma frame_len_bytes:
  fixes n :: u32
  shows "unat (ucast (drop_bit k n) :: byte) = unat n div 2 ^ k mod 256" "unat (ucast n :: byte) = unat n mod 256"
proof -
  have "unat (drop_bit k n) = drop_bit k (unat n)"
    by (simp only: unsigned_drop_bit_eq) (simp add: take_bit_word_eq_self flip: unsigned_take_bit_eq)
  then show "unat (ucast (drop_bit k n) :: byte) = unat n div 2 ^ k mod 256"
    by (simp add: unsigned_ucast_eq take_bit_eq_mod drop_bit_eq_div)
  show "unat (ucast n :: byte) = unat n mod 256" by (simp add: unsigned_ucast_eq take_bit_eq_mod)
qed

lemma length_frame_len [simp]: "length (frame_len n) = 4"
  by (simp add: frame_len_def)

lemma ToUInt32_frame_len: "ToUInt32 (frame_len n) = unat n"
proof -
  have "unat n < 2 ^ 32" using unsigned_less [of n] by simp
  then have "unat n mod 256 + 256 * (unat n div 2 ^ 8 mod 256) + 65536 * (unat n div 2 ^ 16 mod 256) + 16777216 * (unat n div 2 ^ 24 mod 256) = unat n"
    by (rule base256)
  moreover have "ToUInt32 [a, b, c, d] = unat a + 256 * unat b + 65536 * unat c + 16777216 * unat d" for a b c d
    by (simp add: ToUInt32_def)
  moreover have "unat (ucast n :: byte) = unat n mod 256" by (rule frame_len_bytes)
  ultimately show ?thesis by (simp only: frame_len_def frame_len_bytes(1))
qed

text \<open>The messages of the driver.\<close>

datatype driver_message = SelectMessage bytes | ShutdownMessage

fun encode_message :: "driver_message \<Rightarrow> bytes" where
  "encode_message (SelectMessage uuid) = EncodeSelectModule uuid"
| "encode_message ShutdownMessage = EncodeShutdown"

fun message_action :: "driver_message \<Rightarrow> host_action" where
  "message_action (SelectMessage uuid) = SelectActive uuid"
| "message_action ShutdownMessage = ShutdownHost"

fun message_body :: "driver_message \<Rightarrow> bytes" where
  "message_body (SelectMessage uuid) = SelectModule_body uuid"
| "message_body ShutdownMessage = Shutdown_body"

fun message_ok :: "driver_message \<Rightarrow> bool" where
  "message_ok (SelectMessage uuid) = text_ok uuid"
| "message_ok ShutdownMessage = True"

lemma message_facts:
  assumes "message_ok m"
  shows "encode_message m = framed (message_body m)" "0 < length (message_body m)" "length (message_body m) < 65536"
proof -
  show "encode_message m = framed (message_body m)" by (cases m) (simp_all add: EncodeSelectModule_def EncodeShutdown_def)
  show "0 < length (message_body m)" by (cases m) (simp_all add: SelectModule_body_def Shutdown_body_def)
  show "length (message_body m) < 65536"
  proof (cases m)
    case (SelectMessage uuid)
    then have "length uuid < 256" using assms by (simp add: text_ok_def)
    moreover have "length (CborAppendTextString x) \<le> length x + 2" for x by (simp add: CborAppendTextString_def)
    then have "length (CborAppendTextString uuid) \<le> length uuid + 2" .
    ultimately show ?thesis using SelectMessage by (simp add: length_SelectModule)
  next
    case ShutdownMessage
    then show ?thesis by (simp add: length_Shutdown)
  qed
qed

lemma DispatchMessage_message: "reads_text_maps R \<Longrightarrow> message_ok m \<Longrightarrow> DispatchMessage R (message_body m) = message_action m"
  by (cases m) (simp_all add: DispatchMessage_select DispatchMessage_shutdown)

lemma framed_length: "length body < 65536 \<Longrightarrow> ToUInt32 (frame_len (word_of_nat (length body))) = length body"
  unfolding ToUInt32_frame_len by (intro unat_word_of_nat) simp

lemma control_stream_framed:
  assumes "0 < length body" "length body < 65536"
  shows "control_stream R (framed body @ rest) =
    (let a = DispatchMessage R body in a # (if a = ShutdownHost then [] else control_stream R rest))"
proof -
  have "ToUInt32 (take 4 (framed body @ rest)) = length body" using framed_length [OF assms(2)] by (simp add: framed_def)
  moreover have "drop (4 + length body) (framed body @ rest) = rest" "take (length body) (drop 4 (framed body @ rest)) = body" "length (framed body) = 4 + length body"
    by (simp_all add: framed_def)
  ultimately show ?thesis using assms by (subst control_stream.simps) (simp add: Let_def)
qed

lemma control_stream_partial:
  assumes "n < length (framed body)" "0 < length body" "length body < 65536"
  shows "control_stream R (take n (framed body)) = []"
proof (cases "n < 4")
  case True
  then show ?thesis using assms(1) by (subst control_stream.simps) simp
next
  case False
  then have "take 4 (take n (framed body)) = frame_len (word_of_nat (length body))" by (simp add: framed_def)
  moreover have "length (take n (framed body)) = n" "n < 4 + length body" using assms(1) by (simp_all add: framed_def)
  ultimately show ?thesis using framed_length [OF assms(3)] by (subst control_stream.simps) (simp add: Let_def)
qed

text \<open>The messages the host acts on: those up to the first request to shut down.\<close>

fun acted_on :: "driver_message list \<Rightarrow> driver_message list" where
  "acted_on [] = []"
| "acted_on (m # ms) = m # (if m = ShutdownMessage then [] else acted_on ms)"

lemma control_stream_messages:
  assumes "reads_text_maps R" "list_all message_ok ms" "message_ok m" "n < length (encode_message m)"
  shows "control_stream R (concat (map encode_message ms) @ take n (encode_message m)) = map message_action (acted_on ms)"
  using assms(2)
proof (induction ms)
  case Nil
  show ?case using assms(3,4) message_facts [of m] control_stream_partial [of n "message_body m"] by simp
next
  case (Cons a ms)
  have "message_action a = ShutdownHost \<longleftrightarrow> a = ShutdownMessage" by (cases a) simp_all
  then show ?case using Cons message_facts [of a] DispatchMessage_message [OF assms(1), of a]
    by (simp add: control_stream_framed Let_def)
qed


text \<open>A reader for text strings with one- and two-byte heads: the strings left in the map and the bytes left.\<close>

definition short_text :: "nat \<times> bytes \<Rightarrow> (bytes \<times> nat \<times> bytes) option" where
  "short_text r =
     (case r of
        (Suc k, b # s) \<Rightarrow>
          if unat b div 32 \<noteq> 3 then None
          else if unat b mod 32 < 24 then
            (let n = unat b mod 32 in if length s < n then None else Some (take n s, k, drop n s))
          else if unat b mod 32 = 24 \<and> s \<noteq> [] then
            (let n = unat (hd s) in if length (tl s) < n then None else Some (take n (tl s), k, drop n (tl s)))
          else None
      | _ \<Rightarrow> None)"

definition short_reader :: "(nat \<times> bytes) CborReader" where
  "short_reader =
     \<lparr> ReadStartMap = (\<lambda>s. if s \<noteq> [] \<and> unat (hd s) div 32 = 5 \<and> unat (hd s) mod 32 < 24 then Some (2 * (unat (hd s) mod 32), tl s) else None),
       AtEndMap = (\<lambda>r. Some (fst r = 0)),
       ReadTextString = short_text,
       SkipValue = (\<lambda>r. map_option snd (short_text r)),
       ReadEndMap = (\<lambda>r. if fst r = 0 then Some r else None) \<rparr>"

lemma short_head: "n < 24 \<Longrightarrow> unat (0x60 OR word_of_nat n :: byte) = 96 + n \<and> unat (0xA0 OR word_of_nat n :: byte) = 160 + n"
proof -
  assume "n < 24"
  then have "n \<in> set [0..<24]" by simp
  then show ?thesis by (simp add: upt_rec) (elim disjE; simp)
qed

lemma short_arg:
  fixes n :: nat
  assumes "n < 24"
  shows "(96 + n) mod 32 = n" "(96 + n) div 32 = 3" "(160 + n) mod 32 = n" "(160 + n) div 32 = 5"
proof -
  have "96 + n = n + 3 * 32" "160 + n = n + 5 * 32" by simp_all
  then show "(96 + n) mod 32 = n" "(96 + n) div 32 = 3" "(160 + n) mod 32 = n" "(160 + n) div 32 = 5"
    using assms by (simp_all only: mod_mult_self1 div_mult_self1) simp_all
qed

lemma short_text_append: "length t < 256 \<Longrightarrow> short_text (Suc k, CborAppendTextString t @ s) = Some (t, k, s)"
proof (cases "length t < 24")
  case True
  then show ?thesis using short_arg [OF True] short_head [OF True] by (simp add: short_text_def CborAppendTextString_def Let_def)
next
  case False
  assume "length t < 256"
  then have "unat (word_of_nat (length t) :: byte) = length t" by (intro unat_word_of_nat) simp
  then show ?thesis using False by (simp add: short_text_def CborAppendTextString_def Let_def)
qed

lemma short_reads_on: "list_all text_ok ts \<Longrightarrow> reads_on short_reader ts (length ts, concat (map CborAppendTextString ts))"
  by (induction ts) (simp_all add: short_reader_def short_text_append text_ok_def)

lemma short_reader_ok: "reads_text_maps short_reader"
proof -
  have "ReadStartMap short_reader ((0xA0 OR word_of_nat n) # s) = Some (2 * n, s)" if "n < 24" for n s
    using short_head [OF that] short_arg [OF that] that by (simp add: short_reader_def)
  then show ?thesis unfolding reads_text_maps_def using short_reads_on by auto metis
qed


section \<open>Hosts left over from an earlier session\<close>

definition lower_ascii :: "byte \<Rightarrow> byte" where
  "lower_ascii c = (if 65 \<le> unat c \<and> unat c \<le> 90 then c - 65 + 97 else c)"

definition ExtractImageName :: "bytes \<Rightarrow> bytes" where
  "ExtractImageName full_path = map lower_ascii (rev (takeWhile (\<lambda>c. c \<noteq> 92 \<and> c \<noteq> 47) (rev full_path)))"

definition LowerAscii :: "u16 list \<Rightarrow> bytes" where
  "LowerAscii w = map (\<lambda>c. lower_ascii (ucast c)) (filter (\<lambda>c. c < 128) w)"

text \<open>A process of the snapshot, and whether it can be opened and terminated.\<close>

record process_entry =
  szExeFile :: "u16 list"
  th32ProcessID :: u32
  can_open :: bool
  can_terminate :: bool

fun stale_loop :: "bytes \<Rightarrow> u32 \<Rightarrow> process_entry list \<Rightarrow> u32 list" where
  "stale_loop image_lc self [] = []"
| "stale_loop image_lc self (entry # es) =
     (if LowerAscii (szExeFile entry) \<noteq> image_lc then stale_loop image_lc self es
      else if th32ProcessID entry = self then stale_loop image_lc self es
      else if \<not> can_open entry then stale_loop image_lc self es
      else if can_terminate entry then th32ProcessID entry # stale_loop image_lc self es
      else stale_loop image_lc self es)"

text \<open>The process identifiers terminated; the function returns their number.\<close>

definition CleanupStaleHostIfWedged ::
    "bytes \<Rightarrow> bytes \<Rightarrow> bool \<Rightarrow> bool \<Rightarrow> u32 \<Rightarrow> process_entry list option \<Rightarrow> u32 list" where
  "CleanupStaleHostIfWedged host_exe_path mutex_name mutex_held can_connect self snap =
     (if mutex_name = [] then []
      else if \<not> mutex_held then []
      else if can_connect then []
      else let image_lc = ExtractImageName host_exe_path
           in if image_lc = [] then []
              else case snap of None \<Rightarrow> [] | Some entries \<Rightarrow> stale_loop image_lc self entries)"

lemma stale_loop_filter:
  "stale_loop img self es = map th32ProcessID
     (filter (\<lambda>e. LowerAscii (szExeFile e) = img \<and> th32ProcessID e \<noteq> self \<and> can_open e \<and> can_terminate e) es)"
  by (induction es) auto

lemma ExtractImageName_last: "92 \<notin> set n \<Longrightarrow> 47 \<notin> set n \<Longrightarrow> ExtractImageName (d @ 92 # n) = map lower_ascii n"
  by (auto simp: ExtractImageName_def takeWhile_append)

text \<open>
  Nothing is terminated unless the singleton is held and the pipe does not answer; then exactly the processes of the image name, compared without
  case and without the characters that are not ASCII, but never the driver's own.
\<close>

theorem cleanup_only_wedged:
  "set (CleanupStaleHostIfWedged path mutex held conn self snap) \<subseteq>
     {th32ProcessID e | e. held \<and> \<not> conn \<and> snap \<noteq> None \<and> e \<in> set (the snap) \<and> LowerAscii (szExeFile e) = ExtractImageName path} - {self}"
  by (auto simp: CleanupStaleHostIfWedged_def Let_def stale_loop_filter split: option.splits)

end
