(* ===== verification/Spec2Isabelle.thy ===== *)
theory Spec2Isabelle
  imports OscRouter ShmemRings CrashLoop IpcServer IpcQueue HostPacing CaptionsControl HostControl
begin

text \<open>
  Verification development of WKOpenVR.
\<close>

end
